(* ===== verification/Prelude.thy ===== *)
theory Prelude
  imports Main
begin

text \<open>
  What the components share: the result type of a C++ routine that may return, end the process
  or hit undefined behaviour; its sequencing; runs of an event loop and the contract under
  which they are safe (locale \<open>event_system\<close>); and the scan for the smallest free
  number that two of the programs contain (\<open>first_gap\<close>), with the contract of an
  allocator of numbers (locale \<open>id_allocator\<close>).
\<close>

section \<open>Results of C++ routines\<close>

text \<open>
  A call ends in one of three ways: it returns a value and a state, it ends the process with
  \<open>exit(code)\<close> in a state (whose log of the error stream may be read), or it does something
  C++ gives no meaning to, or that throws an exception nobody catches.
\<close>

datatype fault =
    NullDeref
  | OutOfRange
  | BufferOverflow
  | UseAfterFree
  | BadAlloc
  | UninitRead
  | BadCast

datatype ('a, 's) outcome =
    Ok 'a 's
  | Exits int 's
  | Faults fault

fun and_then :: "('a, 's) outcome \<Rightarrow> ('a \<Rightarrow> 's \<Rightarrow> ('b, 's) outcome) \<Rightarrow> ('b, 's) outcome" where
  "and_then (Ok a s) k = k a s"
| "and_then (Exits c s) k = Exits c s"
| "and_then (Faults e) k = Faults e"

fun is_fault :: "('a, 's) outcome \<Rightarrow> bool" where
  "is_fault (Faults e) = True"
| "is_fault _ = False"

lemma and_then_eq_Ok_iff:
  "and_then m k = Ok b t \<longleftrightarrow> (\<exists>a s. m = Ok a s \<and> k a s = Ok b t)"
  by (cases m) auto

lemma and_then_eq_Exits_iff:
  "and_then m k = Exits c t \<longleftrightarrow> m = Exits c t \<or> (\<exists>a s. m = Ok a s \<and> k a s = Exits c t)"
  by (cases m) auto

lemma and_then_assoc: "and_then (and_then m k) l = and_then m (\<lambda>a s. and_then (k a s) l)"
  by (cases m) auto

lemma is_fault_and_then:
  "is_fault (and_then m k) \<longleftrightarrow> is_fault m \<or> (\<exists>a s. m = Ok a s \<and> is_fault (k a s))"
  by (cases m) auto

text \<open>The two return codes every program of the repository defines.\<close>

abbreviation (input) SUCCESS :: int where "SUCCESS \<equiv> 0"

abbreviation (input) FAIL :: int where "FAIL \<equiv> - 1"

section \<open>Runs of an event system\<close>

text \<open>
  The programs are driven from outside: library calls, timer signals, requests. A run is the
  fold of the event function over a list of events. \<open>None\<close> is an event whose handler does
  not return; a run stops at the first event that does not come back with a state.
\<close>

fun run_events :: "('e \<Rightarrow> 's \<Rightarrow> ('a, 's) outcome option) \<Rightarrow> 'e list \<Rightarrow> 's
    \<Rightarrow> ('a list, 's) outcome option" where
  "run_events f [] s = Some (Ok [] s)"
| "run_events f (e # es) s =
     (case f e s of
        None \<Rightarrow> None
      | Some (Exits c t) \<Rightarrow> Some (Exits c t)
      | Some (Faults x) \<Rightarrow> Some (Faults x)
      | Some (Ok a t) \<Rightarrow>
          (case run_events f es t of
             None \<Rightarrow> None
           | Some (Ok as u) \<Rightarrow> Some (Ok (a # as) u)
           | Some (Exits c u) \<Rightarrow> Some (Exits c u)
           | Some (Faults x) \<Rightarrow> Some (Faults x)))"

lemma run_events_append:
  "run_events f xs s = Some (Ok as t) \<Longrightarrow> run_events f ys t = Some (Ok bs u) \<Longrightarrow>
   run_events f (xs @ ys) s = Some (Ok (as @ bs) u)"
proof (induction xs arbitrary: s as)
  case (Cons x xs)
  then show ?case by (auto split: option.splits outcome.splits)
qed simp

text \<open>
  The contracts of an event system. \<open>event_invar\<close>: a predicate that every handler of an
  allowed event keeps. \<open>event_system\<close>: from such a state every one of them also comes back,
  without a fault.
\<close>

locale event_invar =
  fixes exec :: "'e \<Rightarrow> 's \<Rightarrow> ('a, 's) outcome option"
    and invar :: "'s \<Rightarrow> bool"
    and allowed :: "'e \<Rightarrow> bool"
  assumes exec_invar: "invar s \<Longrightarrow> allowed e \<Longrightarrow> exec e s = Some (Ok a t) \<Longrightarrow> invar t"
begin

lemma run_invar:
  "invar s \<Longrightarrow> list_all allowed es \<Longrightarrow> run_events exec es s = Some (Ok as t) \<Longrightarrow> invar t"
proof (induction es arbitrary: s as)
  case Nil
  then show ?case by simp
next
  case (Cons e es)
  from Cons.prems(3) obtain a u as' where "exec e s = Some (Ok a u)"
    and "run_events exec es u = Some (Ok as' t)"
    by (auto split: option.splits outcome.splits)
  moreover from this have "invar u" using exec_invar [OF Cons.prems(1), of e a u] Cons.prems(2) by simp
  ultimately show ?case using Cons.IH [of u as'] Cons.prems(2) by simp
qed

end

locale event_system = event_invar +
  assumes exec_returns: "invar s \<Longrightarrow> allowed e \<Longrightarrow> \<exists>r. exec e s = Some r"
    and exec_no_fault: "invar s \<Longrightarrow> allowed e \<Longrightarrow> exec e s = Some r \<Longrightarrow> \<not> is_fault r"
begin

lemma run_safe:
  "invar s \<Longrightarrow> list_all allowed es \<Longrightarrow> \<exists>r. run_events exec es s = Some r \<and> \<not> is_fault r"
proof (induction es arbitrary: s)
  case Nil
  then show ?case by simp
next
  case (Cons e es)
  have al: "allowed e" "list_all allowed es" using Cons.prems(2) by simp_all
  obtain r where r: "exec e s = Some r" using exec_returns [OF Cons.prems(1) al(1)] by blast
  have nf: "\<not> is_fault r" by (rule exec_no_fault [OF Cons.prems(1) al(1) r])
  show ?case
  proof (cases r)
    case (Ok a t)
    then have "invar t" using exec_invar [OF Cons.prems(1) al(1)] r by simp
    then obtain q where q: "run_events exec es t = Some q" and "\<not> is_fault q"
      using Cons.IH al(2) by blast
    then show ?thesis using r Ok by (cases q) auto
  qed (use r nf in auto)
qed

end

text \<open>
  \<open>run_all P\<close>: every state of a run has property \<open>P\<close>. \<open>event_guarded\<close>: a predicate that every handler
  keeps as long as the states it runs between satisfy a condition.
\<close>

fun run_all :: "('e \<Rightarrow> 's \<Rightarrow> ('a, 's) outcome option) \<Rightarrow> ('s \<Rightarrow> bool) \<Rightarrow> 'e list \<Rightarrow> 's \<Rightarrow> bool" where
  "run_all f P [] s = P s"
| "run_all f P (e # es) s =
     (P s \<and> (case f e s of Some (Ok a t) \<Rightarrow> run_all f P es t | _ \<Rightarrow> True))"

lemma run_all_first: "run_all f P es s \<Longrightarrow> P s"
  by (cases es) simp_all

locale event_guarded =
  fixes exec :: "'e \<Rightarrow> 's \<Rightarrow> ('a, 's) outcome option"
    and invar :: "'s \<Rightarrow> bool"
    and cond :: "'s \<Rightarrow> bool"
  assumes exec_guarded: "invar s \<Longrightarrow> cond s \<Longrightarrow> exec e s = Some (Ok a t) \<Longrightarrow> cond t \<Longrightarrow> invar t"
begin

lemma run_guarded:
  "invar s \<Longrightarrow> run_all exec cond es s \<Longrightarrow> run_events exec es s = Some (Ok as t) \<Longrightarrow> invar t"
proof (induction es arbitrary: s as)
  case Nil
  then show ?case by simp
next
  case (Cons e es)
  from Cons.prems(3) obtain a u as' where u: "exec e s = Some (Ok a u)" "run_events exec es u = Some (Ok as' t)"
    by (auto split: option.splits outcome.splits)
  have all: "cond s" "run_all exec cond es u" using Cons.prems(2) u(1) by simp_all
  have "invar u" by (rule exec_guarded [OF Cons.prems(1) all(1) u(1) run_all_first [OF all(2)]])
  then show ?case using Cons.IH all(2) u(2) by blast
qed

end

text \<open>\<open>event_service\<close>: an allowed event is answered, and the answer is the one its caller expects.\<close>

locale event_service = event_invar exec invar allowed
  for exec :: "'e \<Rightarrow> 's \<Rightarrow> ('a, 's) outcome option" and invar allowed +
  fixes answer :: "'e \<Rightarrow> 'a \<Rightarrow> bool"
  assumes exec_answers: "invar s \<Longrightarrow> allowed e \<Longrightarrow> \<exists>a t. exec e s = Some (Ok a t) \<and> answer e a"
begin

lemma run_answers:
  "invar s \<Longrightarrow> list_all allowed es \<Longrightarrow>
   \<exists>as t. run_events exec es s = Some (Ok as t) \<and> list_all2 answer es as \<and> invar t"
proof (induction es arbitrary: s)
  case Nil
  then show ?case by simp
next
  case (Cons e es)
  have al: "allowed e" "list_all allowed es" using Cons.prems(2) by simp_all
  obtain a u where u: "exec e s = Some (Ok a u)" "answer e a"
    using exec_answers [OF Cons.prems(1) al(1)] by blast
  have "invar u" by (rule exec_invar [OF Cons.prems(1) al(1) u(1)])
  then obtain as t where "run_events exec es u = Some (Ok as t)" "list_all2 answer es as" "invar t"
    using Cons.IH al(2) by blast
  then show ?case using u by simp
qed

end

sublocale event_service \<subseteq> event_system exec invar allowed
proof unfold_locales
  fix s e
  assume "invar s" and "allowed e"
  then obtain a t where t: "exec e s = Some (Ok a t)" using exec_answers by blast
  then show "\<exists>r. exec e s = Some r" by blast
  show "\<not> is_fault r" if "exec e s = Some r" for r using t that by simp
qed

text \<open>
  Refinement with an abstraction function: whatever an event does to a state of the invariant,
  the specification allows for the abstract states; so does it for a whole run.
\<close>

inductive spec_run :: "('x \<Rightarrow> 'e \<Rightarrow> 'a \<Rightarrow> 'x \<Rightarrow> bool) \<Rightarrow> 'x \<Rightarrow> 'e list \<Rightarrow> 'a list \<Rightarrow> 'x \<Rightarrow> bool"
  for spec :: "'x \<Rightarrow> 'e \<Rightarrow> 'a \<Rightarrow> 'x \<Rightarrow> bool" where
  stop: "spec_run spec x [] [] x"
| more: "spec x e a y \<Longrightarrow> spec_run spec y es as z \<Longrightarrow> spec_run spec x (e # es) (a # as) z"

inductive_simps spec_run_simps [simp]: "spec_run spec x [] as z" "spec_run spec x (e # es) as z"

lemma spec_run_unique:
  assumes det: "\<And>x e a y b z. spec x e a y \<Longrightarrow> spec x e b z \<Longrightarrow> a = b \<and> y = z"
  shows "spec_run spec x es as y \<Longrightarrow> spec_run spec x es bs z \<Longrightarrow> as = bs \<and> y = z"
proof (induction arbitrary: bs rule: spec_run.induct)
  case (more x e a y es as w)
  from more.prems obtain b u bs' where b: "bs = b # bs'" "spec x e b u" "spec_run spec u es bs' z"
    by (cases rule: spec_run.cases) auto
  have "a = b" and u: "u = y" using det [OF more.hyps(1) b(2)] by simp_all
  moreover have "as = bs' \<and> w = z" by (rule more.IH [OF b(3) [unfolded u]])
  ultimately show ?case using b(1) by simp
qed simp

locale event_refinement = event_invar exec invar allowed
  for exec :: "'e \<Rightarrow> 's \<Rightarrow> ('a, 's) outcome option" and invar allowed +
  fixes abst :: "'s \<Rightarrow> 'x"
    and spec :: "'x \<Rightarrow> 'e \<Rightarrow> 'a \<Rightarrow> 'x \<Rightarrow> bool"
  assumes exec_refines:
    "invar s \<Longrightarrow> allowed e \<Longrightarrow> exec e s = Some (Ok a t) \<Longrightarrow> spec (abst s) e a (abst t)"
begin

lemma run_refines:
  "invar s \<Longrightarrow> list_all allowed es \<Longrightarrow> run_events exec es s = Some (Ok as t) \<Longrightarrow>
   spec_run spec (abst s) es as (abst t)"
proof (induction es arbitrary: s as)
  case Nil
  then show ?case by simp
next
  case (Cons e es)
  from Cons.prems(3) obtain a u as' where u: "exec e s = Some (Ok a u)" "as = a # as'"
    and "run_events exec es u = Some (Ok as' t)"
    by (auto split: option.splits outcome.splits)
  moreover have "invar u" using exec_invar [OF Cons.prems(1) _ u(1)] Cons.prems(2) by simp
  ultimately have "spec_run spec (abst u) es as' (abst t)" using Cons.IH Cons.prems(2) by simp
  moreover have "spec (abst s) e a (abst u)" using exec_refines Cons.prems u(1) by simp
  ultimately show ?case unfolding u(2) by (blast intro: spec_run.more)
qed

end

text \<open>
  \<open>event_embedding\<close>: \<open>g\<close> puts a state into a larger one, and the events renamed by \<open>h\<close> do there what
  the events do in the small one; so do whole runs.
\<close>

locale event_embedding =
  fixes exec :: "'e \<Rightarrow> 's \<Rightarrow> ('a, 's) outcome option"
    and exec' :: "'f \<Rightarrow> 't \<Rightarrow> ('a, 't) outcome option"
    and h :: "'e \<Rightarrow> 'f"
    and g :: "'s \<Rightarrow> 't"
    and allowed :: "'e \<Rightarrow> bool"
  assumes exec_embeds: "allowed e \<Longrightarrow> exec' (h e) (g s) = map_option (map_outcome id g) (exec e s)"
begin

lemma run_embeds:
  "list_all allowed es \<Longrightarrow>
   run_events exec' (map h es) (g s) = map_option (map_outcome id g) (run_events exec es s)"
proof (induction es arbitrary: s)
  case (Cons e es)
  have e: "exec' (h e) (g s) = map_option (map_outcome id g) (exec e s)"
    using exec_embeds Cons.prems by simp
  show ?case
  proof (cases "exec e s")
    case (Some r)
    then show ?thesis
    proof (cases r)
      case (Ok a t)
      have "run_events exec' (map h es) (g t) = map_option (map_outcome id g) (run_events exec es t)"
        by (rule Cons.IH) (use Cons.prems in simp)
      then show ?thesis using e Some Ok by (auto split: option.split outcome.split)
    qed (use e in simp_all)
  qed (use e in simp)
qed simp

end

section \<open>The smallest free number\<close>

text \<open>
  Both \<open>getNextId\<close> of ex2 and \<open>findMinIdx\<close> of ex3 walk an increasing sequence next to a
  counter and stop at the first place where the two differ.
\<close>

fun first_gap :: "int \<Rightarrow> int list \<Rightarrow> int" where
  "first_gap i [] = i"
| "first_gap i (x # xs) = (if x \<noteq> i then i else first_gap (i + 1) xs)"

lemma first_gap_ge: "i \<le> first_gap i xs"
proof (induction xs arbitrary: i)
  case (Cons x xs)
  have "i + 1 \<le> first_gap (i + 1) xs" by (rule Cons.IH)
  then show ?case by auto
qed simp

lemma first_gap_le: "first_gap i xs \<le> i + int (length xs)"
proof (induction xs arbitrary: i)
  case (Cons x xs)
  have "first_gap (i + 1) xs \<le> i + 1 + int (length xs)" by (rule Cons.IH)
  then show ?case by auto
qed simp

lemma first_gap_below: "i \<le> k \<Longrightarrow> k < first_gap i xs \<Longrightarrow> k \<in> set xs"
proof (induction xs arbitrary: i)
  case (Cons x xs)
  then show ?case using Cons.IH [of "i + 1"] by (cases "k = i") (auto split: if_splits)
qed simp

lemma first_gap_notin:
  assumes "sorted_wrt (<) xs" and "\<forall>x \<in> set xs. i \<le> x"
  shows "first_gap i xs \<notin> set xs"
  using assms
proof (induction xs arbitrary: i)
  case (Cons x xs)
  show ?case
  proof (cases "x = i")
    case True
    have "first_gap (i + 1) xs \<notin> set xs"
      using Cons.prems True by (intro Cons.IH) auto
    moreover have "i + 1 \<le> first_gap (i + 1) xs" by (rule first_gap_ge)
    ultimately show ?thesis using True by auto
  next
    case False
    with Cons.prems show ?thesis by force
  qed
qed simp

text \<open>
  The contract of an allocator: \<open>next\<close> is not in use, not negative, and everything below it
  is in use. Whoever allocates by it gets the smallest free number, and a number that is given
  back is the next one unless a smaller one is free.
\<close>

locale id_allocator =
  fixes next_id :: "'s \<Rightarrow> int"
    and used :: "'s \<Rightarrow> int set"
    and valid :: "'s \<Rightarrow> bool"
  assumes next_fresh: "valid s \<Longrightarrow> next_id s \<notin> used s"
    and next_nonneg: "valid s \<Longrightarrow> 0 \<le> next_id s"
    and next_least: "valid s \<Longrightarrow> 0 \<le> k \<Longrightarrow> k < next_id s \<Longrightarrow> k \<in> used s"
begin

lemma next_minimal: "valid s \<Longrightarrow> 0 \<le> k \<Longrightarrow> k \<notin> used s \<Longrightarrow> next_id s \<le> k"
  using next_least [of s k] by force

lemma next_unique:
  assumes "valid s" and "0 \<le> i" and "i \<notin> used s" and "\<forall>k. 0 \<le> k \<and> k < i \<longrightarrow> k \<in> used s"
  shows "next_id s = i"
  using assms next_minimal [of s i] next_fresh [of s] next_nonneg [of s] by force

lemma next_le_card:
  assumes "valid s" and fin: "finite (used s)"
  shows "next_id s \<le> int (card (used s))"
proof -
  have "{0..<next_id s} \<subseteq> used s" using assms(1) next_least by auto
  then have "card {0..<next_id s} \<le> card (used s)" by (rule card_mono [OF fin])
  then show ?thesis by simp
qed

lemma next_after_free:
  assumes "valid s" and "valid t" and "used t = used s - {i}"
    and "0 \<le> i" and "i < next_id s"
  shows "next_id t = i"
proof (rule next_unique [OF \<open>valid t\<close> \<open>0 \<le> i\<close>])
  show "i \<notin> used t" using assms(3) by simp
  show "\<forall>k. 0 \<le> k \<and> k < i \<longrightarrow> k \<in> used t"
    using assms(3,5) next_least [OF \<open>valid s\<close>] by auto
qed

end

section \<open>Lists the way vectors are used\<close>

lemma remove1_append_notin: "x \<notin> set xs \<Longrightarrow> remove1 x (xs @ ys) = xs @ remove1 x ys"
  by (simp add: remove1_append)

lemma map_remove1:
  "(\<And>y. y \<in> set xs \<Longrightarrow> f y = f x \<longleftrightarrow> y = x) \<Longrightarrow> map f (remove1 x xs) = remove1 (f x) (map f xs)"
proof (induction xs)
  case (Cons y ys)
  then have "f y = f x \<longleftrightarrow> y = x" by simp
  then show ?case using Cons by (cases "y = x") (simp_all add: eq_commute [of x] eq_commute [of "f x"])
qed simp

lemma sum_list_map_update:
  fixes h :: "'a \<Rightarrow> int"
  assumes "p < length xs"
  shows "sum_list (map h (xs[p := y])) = sum_list (map h xs) - h (xs ! p) + h y"
proof -
  have xs: "xs = take p xs @ xs ! p # drop (Suc p) xs" by (rule id_take_nth_drop [OF assms])
  have up: "xs[p := y] = take p xs @ y # drop (Suc p) xs" by (rule upd_conv_take_nth_drop [OF assms])
  have "sum_list (map h (xs[p := y]))
      = sum_list (map h (take p xs)) + h y + sum_list (map h (drop (Suc p) xs))"
    unfolding up by simp
  moreover have "sum_list (map h xs)
      = sum_list (map h (take p xs)) + h (xs ! p) + sum_list (map h (drop (Suc p) xs))"
    by (subst xs) simp
  ultimately show ?thesis by simp
qed

end
