(* ===== verification/Thread.thy ===== *)
theory Thread
  imports Prelude "HOL-Library.Word"
begin

unbundle bit_operations_syntax

text \<open>
  \<open>ex2/Thread.h\<close> and \<open>ex2/Thread.cpp\<close>: the thread object of the user-level threads
  library. A jump buffer is what the library can observe of it: the place where
  \<open>siglongjmp\<close> continues and the signal mask it restores. A fresh thread continues at the
  stack pointer and program counter that the constructor writes, mangled by
  \<open>translate_address\<close>; a thread that ran before continues at one of the two calls of
  \<open>saveBuf\<close>, in the timer handler or in \<open>uthread_suspend\<close>.
  The quantum count is an \<open>int\<close> in C; the model counts in the integers, which is the same
  below \<open>2^31\<close> quanta.
\<close>

section \<open>The thread object\<close>

datatype priority = RED | ORANGE | GREEN

text \<open>The priorities are numbered in the order in which they are served.\<close>

fun enum_value :: "priority \<Rightarrow> nat" where
  "enum_value RED = 0"
| "enum_value ORANGE = 1"
| "enum_value GREEN = 2"

instantiation priority :: linorder
begin

definition less_eq_priority :: "priority \<Rightarrow> priority \<Rightarrow> bool" where
  "a \<le> b \<longleftrightarrow> enum_value a \<le> enum_value b"

definition less_priority :: "priority \<Rightarrow> priority \<Rightarrow> bool" where
  "a < b \<longleftrightarrow> enum_value a < enum_value b"

instance
proof
  fix a b :: priority
  show "a \<le> b \<Longrightarrow> b \<le> a \<Longrightarrow> a = b" by (cases a; cases b) (simp_all add: less_eq_priority_def)
qed (auto simp: less_eq_priority_def less_priority_def)

end

datatype tstate = READY | RUNNING | BLOCK

datatype point =
    AtEntry "64 word" "64 word"  \<comment> \<open>mangled stack pointer and program counter\<close>
  | AtHandler                    \<comment> \<open>inside \<open>timeHandler\<close>\<close>
  | AtSuspend                    \<comment> \<open>inside \<open>uthread_suspend\<close>\<close>

record jmp_buf =
  point :: point
  saved_mask :: bool             \<comment> \<open>SIGVTALRM is in the saved mask\<close>

record thread =
  t_tid :: int
  t_pr :: priority
  t_quantom :: int
  t_f :: "64 word"
  t_state :: tstate
  t_stack :: "64 word"
  t_jmp_buf :: jmp_buf

definition STACK_SIZE :: "64 word" where
  "STACK_SIZE = 4096"

text \<open>The inline assembly: \<open>xor %fs:0x30\<close>, then \<open>rol $0x11\<close> (\<open>rol $0x9\<close> on 32 bits).\<close>

definition translate_address :: "64 word \<Rightarrow> 64 word \<Rightarrow> 64 word" where
  "translate_address guard addr = word_rotl 17 (addr XOR guard)"

definition translate_address_32 :: "32 word \<Rightarrow> 32 word \<Rightarrow> 32 word" where
  "translate_address_32 guard addr = word_rotl 9 (addr XOR guard)"

definition initial_sp :: "64 word \<Rightarrow> 64 word" where
  "initial_sp stack = stack + STACK_SIZE - 8"

definition new_thread ::
  "64 word \<Rightarrow> 64 word \<Rightarrow> int \<Rightarrow> priority \<Rightarrow> 64 word \<Rightarrow> tstate \<Rightarrow> thread" where
  "new_thread guard stack tid pr f st =
     \<lparr>t_tid = tid, t_pr = pr, t_quantom = 0, t_f = f, t_state = st, t_stack = stack,
      t_jmp_buf =
        \<lparr>point = AtEntry (translate_address guard (initial_sp stack)) (translate_address guard f),
         saved_mask = False\<rparr>\<rparr>"

definition setState :: "tstate \<Rightarrow> thread \<Rightarrow> thread" where
  "setState st th = th\<lparr>t_state := st\<rparr>"

definition getState :: "thread \<Rightarrow> tstate" where
  "getState th = t_state th"

definition getId :: "thread \<Rightarrow> int" where
  "getId th = t_tid th"

definition getPriority :: "thread \<Rightarrow> priority" where
  "getPriority th = t_pr th"

definition increaseQuantom :: "thread \<Rightarrow> thread" where
  "increaseQuantom th = th\<lparr>t_quantom := t_quantom th + 1\<rparr>"

definition getQuantom :: "thread \<Rightarrow> int" where
  "getQuantom th = t_quantom th"

text \<open>
  \<open>sigsetjmp(_jmp_buf, 1)\<close> reached at \<open>pt\<close> with the signal mask \<open>m\<close>: the call itself
  returns 0; the return value 1 is the continuation at \<open>pt\<close>.
\<close>

definition saveBuf :: "point \<Rightarrow> bool \<Rightarrow> thread \<Rightarrow> thread" where
  "saveBuf pt m th = th\<lparr>t_jmp_buf := \<lparr>point = pt, saved_mask = m\<rparr>\<rparr>"

lemmas getter_defs [simp] = getState_def getId_def getPriority_def getQuantom_def

lemma setState_fields [simp]:
  "t_tid (setState st th) = t_tid th" "t_pr (setState st th) = t_pr th"
  "t_quantom (setState st th) = t_quantom th" "t_f (setState st th) = t_f th"
  "t_state (setState st th) = st" "t_stack (setState st th) = t_stack th"
  "t_jmp_buf (setState st th) = t_jmp_buf th"
  by (simp_all add: setState_def)

lemma increaseQuantom_fields [simp]:
  "t_tid (increaseQuantom th) = t_tid th" "t_pr (increaseQuantom th) = t_pr th"
  "t_quantom (increaseQuantom th) = t_quantom th + 1" "t_f (increaseQuantom th) = t_f th"
  "t_state (increaseQuantom th) = t_state th" "t_stack (increaseQuantom th) = t_stack th"
  "t_jmp_buf (increaseQuantom th) = t_jmp_buf th"
  by (simp_all add: increaseQuantom_def)

lemma saveBuf_fields [simp]:
  "t_tid (saveBuf pt m th) = t_tid th" "t_pr (saveBuf pt m th) = t_pr th"
  "t_quantom (saveBuf pt m th) = t_quantom th" "t_f (saveBuf pt m th) = t_f th"
  "t_state (saveBuf pt m th) = t_state th" "t_stack (saveBuf pt m th) = t_stack th"
  "t_jmp_buf (saveBuf pt m th) = \<lparr>point = pt, saved_mask = m\<rparr>"
  by (simp_all add: saveBuf_def)

lemma new_thread_fields [simp]:
  "t_tid (new_thread g sk i p f st) = i" "t_pr (new_thread g sk i p f st) = p"
  "t_quantom (new_thread g sk i p f st) = 0" "t_f (new_thread g sk i p f st) = f"
  "t_state (new_thread g sk i p f st) = st" "t_stack (new_thread g sk i p f st) = sk"
  "saved_mask (t_jmp_buf (new_thread g sk i p f st)) = False"
  "point (t_jmp_buf (new_thread g sk i p f st)) =
     AtEntry (translate_address g (initial_sp sk)) (translate_address g f)"
  by (simp_all add: new_thread_def)

section \<open>The mangled addresses\<close>

text \<open>
  \<open>siglongjmp\<close> of the C library undoes the mangling before it jumps: rotate right, then xor
  with the guard. The constructor's stores are exactly what that reads back as the intended
  stack pointer and entry point.
\<close>

definition demangle :: "64 word \<Rightarrow> 64 word \<Rightarrow> 64 word" where
  "demangle guard x = word_rotr 17 x XOR guard"

lemma demangle_translate [simp]: "demangle guard (translate_address guard a) = a"
  by (simp add: demangle_def translate_address_def xor.assoc)

lemma translate_address_32_inj: "inj (translate_address_32 guard)"
proof (rule injI)
  fix a b assume "translate_address_32 guard a = translate_address_32 guard b"
  then have "word_rotr 9 (translate_address_32 guard a) XOR guard
      = word_rotr 9 (translate_address_32 guard b) XOR guard" by simp
  then show "a = b" by (simp add: translate_address_32_def xor.assoc)
qed

text \<open>The eight bytes at the initial stack pointer are the last eight of the stack block.\<close>

lemma initial_sp_in_block:
  assumes "uint stack + 4096 < 2 ^ 64"
  shows "uint (initial_sp stack) = uint stack + 4088"
proof -
  have nn: "0 \<le> uint stack" by simp
  have "initial_sp stack = stack + 4088" by (simp add: initial_sp_def STACK_SIZE_def)
  then have "uint (initial_sp stack) = (uint stack + 4088) mod 2 ^ 64"
    by (simp add: uint_word_ariths)
  then show ?thesis using assms nn by simp
qed

end
