(* ===== verification/Ordered_Map.thy ===== *)
theory Ordered_Map
  imports Prelude "HOL-Library.Multiset"
begin

text \<open>
  \<open>std::map\<close> as the programs use it: a list of pairs in strictly increasing key order, with
  \<open>find\<close>/\<open>at\<close>/\<open>count\<close>, \<open>insert\<close> (which keeps an old entry), \<open>operator[]\<close> assignment (which
  overwrites it) and \<open>erase\<close>. The order is kept because \<open>getNextId\<close>, \<open>findFather\<close> and
  \<open>begin()\<close> iterate in it. Locale \<open>std_map\<close> is what the clients rely on.
\<close>

type_synonym ('k, 'v) omap = "('k \<times> 'v) list"

fun om_find :: "('k::linorder, 'v) omap \<Rightarrow> 'k \<Rightarrow> 'v option" where
  "om_find [] k = None"
| "om_find ((a, v) # m) k = (if a = k then Some v else om_find m k)"

fun om_insert :: "'k::linorder \<Rightarrow> 'v \<Rightarrow> ('k, 'v) omap \<Rightarrow> ('k, 'v) omap" where
  "om_insert k v [] = [(k, v)]"
| "om_insert k v ((a, w) # m) =
     (if k < a then (k, v) # (a, w) # m
      else if k = a then (a, w) # m
      else (a, w) # om_insert k v m)"

fun om_put :: "'k::linorder \<Rightarrow> 'v \<Rightarrow> ('k, 'v) omap \<Rightarrow> ('k, 'v) omap" where
  "om_put k v [] = [(k, v)]"
| "om_put k v ((a, w) # m) =
     (if k < a then (k, v) # (a, w) # m
      else if k = a then (a, v) # m
      else (a, w) # om_put k v m)"

fun om_erase :: "'k::linorder \<Rightarrow> ('k, 'v) omap \<Rightarrow> ('k, 'v) omap" where
  "om_erase k [] = []"
| "om_erase k ((a, w) # m) = (if a = k then m else (a, w) # om_erase k m)"

definition om_keys :: "('k::linorder, 'v) omap \<Rightarrow> 'k list" where
  "om_keys m = map fst m"

definition om_ok :: "('k::linorder, 'v) omap \<Rightarrow> bool" where
  "om_ok m \<longleftrightarrow> sorted_wrt (<) (om_keys m)"

section \<open>The contract\<close>

locale std_map =
  fixes empty :: "'m"
    and find :: "'m \<Rightarrow> 'k::linorder \<Rightarrow> 'v option"
    and ins :: "'k \<Rightarrow> 'v \<Rightarrow> 'm \<Rightarrow> 'm"
    and put :: "'k \<Rightarrow> 'v \<Rightarrow> 'm \<Rightarrow> 'm"
    and erase :: "'k \<Rightarrow> 'm \<Rightarrow> 'm"
    and keys :: "'m \<Rightarrow> 'k list"
    and invar :: "'m \<Rightarrow> bool"
  assumes find_empty: "find empty k = None"
    and find_ins: "invar m \<Longrightarrow> find (ins k v m) = (if find m k = None then (find m)(k := Some v) else find m)"
    and find_put: "invar m \<Longrightarrow> find (put k v m) = (find m)(k := Some v)"
    and find_erase: "invar m \<Longrightarrow> find (erase k m) = (find m)(k := None)"
    and keys_find: "invar m \<Longrightarrow> k \<in> set (keys m) \<longleftrightarrow> find m k \<noteq> None"
    and keys_sorted: "invar m \<Longrightarrow> sorted_wrt (<) (keys m)"
    and invar_empty: "invar empty"
    and invar_ins: "invar m \<Longrightarrow> invar (ins k v m)"
    and invar_put: "invar m \<Longrightarrow> invar (put k v m)"
    and invar_erase: "invar m \<Longrightarrow> invar (erase k m)"
begin

lemma find_ins_new: "invar m \<Longrightarrow> find m k = None \<Longrightarrow> find (ins k v m) = (find m)(k := Some v)"
  by (simp add: find_ins)

lemma find_ins_old: "invar m \<Longrightarrow> find m k = Some w \<Longrightarrow> find (ins k v m) = find m"
  by (simp add: find_ins)

lemma erase_ins: "invar m \<Longrightarrow> find m k = None \<Longrightarrow> find (erase k (ins k v m)) = find m"
  by (auto simp: find_erase find_ins invar_ins fun_eq_iff)

lemma keys_distinct: "invar m \<Longrightarrow> distinct (keys m)"
  using keys_sorted strict_sorted_iff by blast

lemma keys_ins: "invar m \<Longrightarrow> set (keys (ins k v m)) = insert k (set (keys m))"
  by (auto simp: keys_find find_ins invar_ins split: if_splits)

lemma keys_erase: "invar m \<Longrightarrow> set (keys (erase k m)) = set (keys m) - {k}"
  by (auto simp: keys_find find_erase invar_erase split: if_splits)

lemma length_keys: "invar m \<Longrightarrow> length (keys m) = card (set (keys m))"
  by (simp add: distinct_card keys_distinct)

end

section \<open>The sorted list provides it\<close>

lemma om_keys_simps [simp]: "om_keys [] = []" "om_keys ((k, v) # m) = k # om_keys m"
  by (simp_all add: om_keys_def)

lemma length_om_keys [simp]: "length (om_keys m) = length m"
  by (simp add: om_keys_def)

lemma om_ok_simps [simp]:
  "om_ok []"
  "om_ok ((k, v) # m) \<longleftrightarrow> (\<forall>x \<in> set (om_keys m). k < x) \<and> om_ok m"
  by (simp_all add: om_ok_def)

lemma om_find_keys: "k \<in> set (om_keys m) \<longleftrightarrow> om_find m k \<noteq> None"
  by (induction m k rule: om_find.induct) auto

lemma set_om_keys_ins: "set (om_keys (om_insert k v m)) = insert k (set (om_keys m))"
  by (induction k v m rule: om_insert.induct) auto

lemma set_om_keys_put: "set (om_keys (om_put k v m)) = insert k (set (om_keys m))"
  by (induction k v m rule: om_put.induct) auto

lemma set_om_keys_erase_subset: "set (om_keys (om_erase k m)) \<subseteq> set (om_keys m)"
  by (induction k m rule: om_erase.induct) auto

lemma om_ok_insert: "om_ok m \<Longrightarrow> om_ok (om_insert k v m)"
  by (induction k v m rule: om_insert.induct) (auto simp: set_om_keys_ins)

lemma om_ok_put: "om_ok m \<Longrightarrow> om_ok (om_put k v m)"
  by (induction k v m rule: om_put.induct) (auto simp: set_om_keys_put)

lemma om_ok_erase: "om_ok m \<Longrightarrow> om_ok (om_erase k m)"
  by (induction k m rule: om_erase.induct) (use set_om_keys_erase_subset in fastforce)+

lemma om_find_above: "\<forall>x \<in> set (om_keys m). k < x \<Longrightarrow> om_find m k = None"
  by (induction m k rule: om_find.induct) auto

lemma om_find_before: "\<forall>x \<in> set (om_keys m). a < x \<Longrightarrow> k < a \<Longrightarrow> om_find m k = None"
  by (rule om_find_above) auto

lemma om_find_insert:
  "om_ok m \<Longrightarrow> om_find (om_insert k v m) = (if om_find m k = None then (om_find m)(k := Some v) else om_find m)"
  by (induction k v m rule: om_insert.induct) (auto simp: fun_eq_iff om_find_before)

lemma om_find_put: "om_ok m \<Longrightarrow> om_find (om_put k v m) = (om_find m)(k := Some v)"
  by (induction k v m rule: om_put.induct) (auto simp: fun_eq_iff)

lemma om_find_erase: "om_ok m \<Longrightarrow> om_find (om_erase k m) = (om_find m)(k := None)"
  by (induction k m rule: om_erase.induct) (auto simp: fun_eq_iff om_find_above)

interpretation om: std_map "[]" om_find om_insert om_put om_erase om_keys om_ok
proof unfold_locales
  fix m :: "('a, 'b) omap" and k :: 'a
  show "sorted_wrt (<) (om_keys m)" if "om_ok m" using that by (simp add: om_ok_def)
qed (simp_all add: om_find_insert om_find_put om_find_erase om_find_keys
      om_ok_insert om_ok_put om_ok_erase)

section \<open>Entries and sizes\<close>

lemma om_find_in: "om_find m k = Some v \<Longrightarrow> (k, v) \<in> set m"
  by (induction m k rule: om_find.induct) (auto split: if_splits)

lemma om_in_find: "om_ok m \<Longrightarrow> (k, v) \<in> set m \<Longrightarrow> om_find m k = Some v"
  by (induction m k rule: om_find.induct) (auto simp: om_keys_def)

lemma mset_om_insert: "om_find m k = None \<Longrightarrow> mset (om_insert k v m) = add_mset (k, v) (mset m)"
  by (induction k v m rule: om_insert.induct) (auto split: if_splits)

lemma mset_om_erase: "om_find m k = Some v \<Longrightarrow> mset m = add_mset (k, v) (mset (om_erase k m))"
  by (induction k m rule: om_erase.induct) (auto split: if_splits)

lemma om_erase_id: "om_find m k = None \<Longrightarrow> om_erase k m = m"
  by (induction k m rule: om_erase.induct) (auto split: if_splits)

lemma length_om_insert: "om_find m k = None \<Longrightarrow> length (om_insert k v m) = Suc (length m)"
  by (metis mset_om_insert size_add_mset size_mset)

lemma om_erase_set: "om_ok m \<Longrightarrow> set (om_erase k m) = set m - {x. fst x = k}"
  by (induction k m rule: om_erase.induct) (auto simp: om_keys_def)

lemma length_om_erase: "om_find m k \<noteq> None \<Longrightarrow> Suc (length (om_erase k m)) = length m"
  by (induction k m rule: om_erase.induct) (auto split: if_splits)

lemma om_ok_filter: "om_ok m \<Longrightarrow> om_ok (filter P m)"
  by (simp add: om_ok_def om_keys_def sorted_wrt_map sorted_wrt_filter)

end
