(* ===== verification/Uthreads.thy ===== *)
theory Uthreads
  imports Thread Ordered_Map
begin

text \<open>
  \<open>ex2/uthreads.cpp\<close>: the scheduler. Thread objects live in an arena, \<open>heap\<close>, and a pointer
  is an index into it (the code never deletes a thread, so an object is never freed and a
  pointer never dangles); \<open>ready\<close>, \<open>blocked\<close>, \<open>running\<close> and \<open>_threads\<close> hold pointers, so
  that a change of a thread's state is seen through all of them.
  The operating system is the record \<open>sys\<close>: what the signal and timer calls return, the pointer
  guard and the addresses of stacks. A call of the library either returns to its caller or
  ends in \<open>siglongjmp\<close> to another thread (\<open>Switched\<close>).
\<close>

section \<open>State\<close>

type_synonym ptr = nat

record sys =
  sigemptyset_ret :: int
  sigaddset_ret :: int
  sigaction_ret :: int
  setitimer_ret :: "nat \<Rightarrow> int"      \<comment> \<open>by the number of earlier calls\<close>
  guard :: "64 word"
  stack_at :: "nat \<Rightarrow> 64 word"       \<comment> \<open>by the number of earlier allocations\<close>

record itimerval =
  value_sec :: int
  value_usec :: int
  interval_sec :: int
  interval_usec :: int

record ustate =
  ready :: "nat \<Rightarrow> ptr list"         \<comment> \<open>the array of \<open>NUM_OF_QUEUE\<close> vectors\<close>
  blocked :: "ptr list"
  running :: "ptr option"
  threads :: "(int, ptr) omap"
  quantum_counter :: int
  timer :: itimerval
  handler_set :: bool                \<comment> \<open>\<open>timeHandler\<close> is installed for SIGVTALRM\<close>
  sa_mask :: bool                    \<comment> \<open>SIGVTALRM is in \<open>_sigAction.sa_mask\<close>\<close>
  masked :: bool                     \<comment> \<open>SIGVTALRM is blocked in the process\<close>
  armed :: nat                       \<comment> \<open>calls of \<open>setitimer\<close> so far\<close>
  errlog :: "string list"            \<comment> \<open>lines on the error stream\<close>
  heap :: "thread list"

datatype control =
    Returned int
  | Switched

type_synonym 'a ures = "('a, ustate) outcome"

abbreviation (input) RED_Q :: nat where "RED_Q \<equiv> 0"

abbreviation (input) ORANGE_Q :: nat where "ORANGE_Q \<equiv> 1"

abbreviation (input) GREEN_Q :: nat where "GREEN_Q \<equiv> 2"

definition MICRO_TO_SECOND :: int where
  "MICRO_TO_SECOND = 1000000"

definition MAX_THREAD_NUM :: nat where
  "MAX_THREAD_NUM = 100"

definition initial_ustate :: ustate where
  "initial_ustate =
     \<lparr>ready = (\<lambda>_. []), blocked = [], running = None, threads = [], quantum_counter = 0,
      timer = \<lparr>value_sec = 0, value_usec = 0, interval_sec = 0, interval_usec = 0\<rparr>,
      handler_set = False, sa_mask = False, masked = False, armed = 0, errlog = [], heap = []\<rparr>"

definition upd_thread :: "(thread \<Rightarrow> thread) \<Rightarrow> ptr \<Rightarrow> ustate \<Rightarrow> ustate" where
  "upd_thread g p s = s\<lparr>heap := (heap s)[p := g (heap s ! p)]\<rparr>"

section \<open>Error messages\<close>

datatype uerror =
    NOT_FOUND_ID
  | SUSPEND_MAIN
  | SET_TIME_ERROR
  | WRONG_INPUT
  | SIGNAL_ACTION_ERROR
  | TOO_MANY_THREADS

definition THREAD_ERROR :: string where
  "THREAD_ERROR = ''thread library error: ''"

definition SYS_ERROR :: string where
  "SYS_ERROR = ''system error: ''"

fun error_text :: "uerror \<Rightarrow> string" where
  "error_text NOT_FOUND_ID = ''the requested tid not found''"
| "error_text SUSPEND_MAIN = ''You are trying to suspend the main thread''"
| "error_text SET_TIME_ERROR = ''Unable to set timer''"
| "error_text WRONG_INPUT = ''wrong input''"
| "error_text SIGNAL_ACTION_ERROR = ''signal action error''"
| "error_text TOO_MANY_THREADS = ''too many threads''"

definition printError :: "uerror \<Rightarrow> string \<Rightarrow> ustate \<Rightarrow> ustate" where
  "printError e pre s = s\<lparr>errlog := errlog s @ [pre @ error_text e]\<rparr>"

section \<open>Queues\<close>

definition getNextId :: "ustate \<Rightarrow> int" where
  "getNextId s = first_gap 0 (om_keys (threads s))"

definition push_ready :: "nat \<Rightarrow> ptr \<Rightarrow> ustate \<Rightarrow> ustate" where
  "push_ready q p s = s\<lparr>ready := (ready s)(q := ready s q @ [p])\<rparr>"

fun addToReady :: "ptr option \<Rightarrow> ustate \<Rightarrow> ustate" where
  "addToReady None s = s"
| "addToReady (Some th) s =
     (case getPriority (heap s ! th) of
        RED \<Rightarrow> push_ready RED_Q th s
      | ORANGE \<Rightarrow> push_ready ORANGE_Q th s
      | GREEN \<Rightarrow> push_ready GREEN_Q th s)"

definition setTime :: "sys \<Rightarrow> ustate \<Rightarrow> unit ures" where
  "setTime env s =
     (let s' = s\<lparr>armed := Suc (armed s)\<rparr>
      in if setitimer_ret env (armed s) = FAIL
         then Exits 1 (printError SET_TIME_ERROR SYS_ERROR s')
         else Ok () s')"

definition getReady :: "nat \<Rightarrow> ustate \<Rightarrow> ptr option \<times> ustate" where
  "getReady pr s = (Some (ready s pr ! 0), s\<lparr>ready := (ready s)(pr := tl (ready s pr))\<rparr>)"

definition popReady :: "ustate \<Rightarrow> ptr option \<times> ustate" where
  "popReady s =
     (if length (threads s) > 1 then
        (if ready s RED_Q \<noteq> [] then getReady RED_Q s
         else if ready s ORANGE_Q \<noteq> [] then getReady ORANGE_Q s
         else if ready s GREEN_Q \<noteq> [] then getReady GREEN_Q s
         else (None, s))
      else if length (threads s) = 1 then (Some (snd (threads s ! 0)), s)
      else (None, s))"

definition runThread :: "sys \<Rightarrow> ustate \<Rightarrow> unit ures" where
  "runThread env s =
     (let (tmp, s1) = popReady s;
          s2 = (if tmp \<noteq> None then s1\<lparr>running := tmp\<rparr> else s1)
      in case running s2 of
           None \<Rightarrow> Faults NullDeref
         | Some r \<Rightarrow>
             (let s3 = upd_thread (setState RUNNING) r s2;
                  s4 = upd_thread increaseQuantom r s3;
                  s5 = s4\<lparr>quantum_counter := quantum_counter s4 + 1\<rparr>
              in setTime env s5))"

definition translatePriority :: "int \<Rightarrow> ustate \<Rightarrow> nat option" where
  "translatePriority tid s =
     map_option (\<lambda>p. if getPriority (heap s ! p) = RED then 0
                     else if getPriority (heap s ! p) = ORANGE then 1 else 2)
       (om_find (threads s) tid)"

text \<open>Both removals erase the first position that holds the pointer.\<close>

definition removeFromReady :: "int \<Rightarrow> ustate \<Rightarrow> int ures" where
  "removeFromReady tid s =
     (case om_find (threads s) tid of
        None \<Rightarrow> Faults OutOfRange
      | Some th \<Rightarrow>
          (let pr = the (translatePriority tid s)
           in if th \<in> set (ready s pr)
              then Ok SUCCESS (s\<lparr>ready := (ready s)(pr := remove1 th (ready s pr))\<rparr>)
              else Ok FAIL s))"

definition removeFromBlock :: "int \<Rightarrow> ustate \<Rightarrow> unit ures" where
  "removeFromBlock tid s =
     (if blocked s = [] then Ok () s
      else case om_find (threads s) tid of
             None \<Rightarrow> Faults OutOfRange
           | Some th \<Rightarrow> Ok () (s\<lparr>blocked := remove1 th (blocked s)\<rparr>))"

definition switchThreads :: "sys \<Rightarrow> ustate \<Rightarrow> unit ures" where
  "switchThreads env s =
     (let tmp = running s;
          s1 = (case tmp of None \<Rightarrow> s | Some p \<Rightarrow> upd_thread (setState READY) p s)
      in and_then (runThread env s1) (\<lambda>_ s2.
           if int (length (threads s2)) - 1 \<noteq> int (length (blocked s2))
           then Ok () (addToReady tmp s2) else Ok () s2))"

section \<open>Switching context\<close>

text \<open>
  What \<open>uthread_suspend\<close> does after its \<open>saveBuf\<close> and before its \<open>loadBuf\<close>. The return value
  of \<open>saveBuf\<close> is not looked at there, so this also runs when the suspended thread is switched
  to again.
\<close>

definition suspend_self :: "sys \<Rightarrow> ustate \<Rightarrow> unit ures" where
  "suspend_self env s =
     (case running s of
        None \<Rightarrow> Faults NullDeref
      | Some r \<Rightarrow>
          (let s1 = upd_thread (setState BLOCK) r s;
               s2 = s1\<lparr>blocked := blocked s1 @ [r], running := None\<rparr>
           in runThread env s2))"

text \<open>
  \<open>running->loadBuf()\<close>: control goes to the place saved in the running thread's buffer and the
  saved mask is restored. A fresh thread enters its function; one that was preempted returns
  from the handler, and with it to the mask before the signal; one that suspended itself goes
  on in \<open>uthread_suspend\<close>.
\<close>

partial_function (option) loadBuf :: "sys \<Rightarrow> ustate \<Rightarrow> control ures option" where
  "loadBuf env s =
     (case running s of
        None \<Rightarrow> Some (Faults NullDeref)
      | Some r \<Rightarrow>
          (let buf = t_jmp_buf (heap s ! r); s1 = s\<lparr>masked := saved_mask buf\<rparr>
           in case point buf of
                AtEntry sp pc \<Rightarrow> Some (Ok Switched s1)
              | AtHandler \<Rightarrow> Some (Ok Switched (s1\<lparr>masked := False\<rparr>))
              | AtSuspend \<Rightarrow>
                  (case suspend_self env s1 of
                     Ok u s2 \<Rightarrow> loadBuf env s2
                   | Exits c s2 \<Rightarrow> Some (Exits c s2)
                   | Faults e \<Rightarrow> Some (Faults e))))"

definition and_load :: "sys \<Rightarrow> unit ures \<Rightarrow> control ures option" where
  "and_load env m =
     (case m of
        Ok u s \<Rightarrow> loadBuf env s
      | Exits c s \<Rightarrow> Some (Exits c s)
      | Faults e \<Rightarrow> Some (Faults e))"

definition timeHandler :: "sys \<Rightarrow> ustate \<Rightarrow> control ures option" where
  "timeHandler env s =
     (case running s of
        None \<Rightarrow> Some (Faults NullDeref)
      | Some r \<Rightarrow> and_load env (switchThreads env (upd_thread (saveBuf AtHandler (masked s)) r s)))"

text \<open>
  The virtual timer fires. While SIGVTALRM is blocked, or no handler is installed yet, the
  library code sees nothing; otherwise the handler runs with the signal blocked.
\<close>

definition timer_signal :: "sys \<Rightarrow> ustate \<Rightarrow> control ures option" where
  "timer_signal env s =
     (if masked s \<or> \<not> handler_set s then Some (Ok (Returned 0) s)
      else timeHandler env (s\<lparr>masked := True\<rparr>))"

definition block_signals :: "ustate \<Rightarrow> ustate" where
  "block_signals s = s\<lparr>masked := (masked s \<or> sa_mask s)\<rparr>"

definition unblock_signals :: "ustate \<Rightarrow> ustate" where
  "unblock_signals s = s\<lparr>masked := (masked s \<and> \<not> sa_mask s)\<rparr>"

section \<open>Library functions\<close>

definition uthread_init :: "sys \<Rightarrow> int \<Rightarrow> ustate \<Rightarrow> int ures" where
  "uthread_init env quantum_usecs s =
     (if quantum_usecs \<le> 0 then Ok FAIL (printError WRONG_INPUT THREAD_ERROR s)
      else if sigemptyset_ret env = FAIL
        then Exits 1 (printError SIGNAL_ACTION_ERROR SYS_ERROR s)
      else let s1 = s\<lparr>sa_mask := False\<rparr> in
      if sigaddset_ret env \<noteq> 0
        then Exits 1 (printError SIGNAL_ACTION_ERROR SYS_ERROR s1)
      else let s2 = s1\<lparr>sa_mask := True\<rparr> in
      if sigaction_ret env = FAIL
        then Exits 1 (printError SIGNAL_ACTION_ERROR SYS_ERROR s2)
      else
        let s3 = s2\<lparr>handler_set := True,
               timer := \<lparr>value_sec = quantum_usecs div MICRO_TO_SECOND,
                         value_usec = quantum_usecs mod MICRO_TO_SECOND,
                         interval_sec = quantum_usecs div MICRO_TO_SECOND,
                         interval_usec = quantum_usecs mod MICRO_TO_SECOND\<rparr>\<rparr>;
            m = length (heap s3);
            s4 = s3\<lparr>heap := heap s3 @ [new_thread (guard env) (stack_at env m) 0 ORANGE 0 READY],
                    threads := om_insert 0 m (threads s3), running := Some m\<rparr>;
            s5 = upd_thread (setState RUNNING) m s4;
            s6 = upd_thread increaseQuantom m s5;
            s7 = s6\<lparr>quantum_counter := quantum_counter s6 + 1\<rparr>
        in and_then (setTime env s7) (\<lambda>_ s8. Ok SUCCESS s8))"

text \<open>
  Four functions test their arguments while the timer may still fire, and then block SIGVTALRM. What
  they do from \<open>sigprocmask(SIG_BLOCK, ...)\<close> on is a definition of its own, \<open>..._masked\<close>, since
  another thread may run in between.
\<close>

definition spawn_masked :: "sys \<Rightarrow> 64 word \<Rightarrow> priority \<Rightarrow> ustate \<Rightarrow> int ures" where
  "spawn_masked env f pr s =
     (let s1 = block_signals s;
          tid = getNextId s1;
          th = length (heap s1);
          s2 = s1\<lparr>heap := heap s1 @ [new_thread (guard env) (stack_at env th) tid pr f READY],
                  threads := om_insert tid th (threads s1)\<rparr>
      in if running s2 = None
         then and_then (runThread env s2) (\<lambda>_ s3. Ok tid (unblock_signals s3))
         else Ok tid (unblock_signals (addToReady (Some th) s2)))"

definition uthread_spawn :: "sys \<Rightarrow> 64 word \<Rightarrow> priority \<Rightarrow> ustate \<Rightarrow> int ures" where
  "uthread_spawn env f pr s =
     (if length (threads s) = MAX_THREAD_NUM
      then Ok FAIL (printError TOO_MANY_THREADS THREAD_ERROR s)
      else spawn_masked env f pr s)"

definition return_int :: "int ures \<Rightarrow> control ures option" where
  "return_int m = Some (and_then m (\<lambda>v s. Ok (Returned v) s))"

text \<open>The running thread terminates itself: all of that branch but its closing \<open>loadBuf\<close>.\<close>

definition terminate_self :: "sys \<Rightarrow> int \<Rightarrow> ptr \<Rightarrow> ustate \<Rightarrow> unit ures" where
  "terminate_self env tid temp s =
     and_then (switchThreads env s) (\<lambda>_ s2.
     and_then (removeFromReady tid s2) (\<lambda>_ s3.
     and_then (removeFromBlock tid s3) (\<lambda>_ s4.
       Ok () (s4\<lparr>threads := om_erase (getId (heap s4 ! temp)) (threads s4)\<rparr>))))"

definition terminate_masked :: "sys \<Rightarrow> int \<Rightarrow> ustate \<Rightarrow> control ures option" where
  "terminate_masked env tid s =
     (let s1 = block_signals s in
      case running s1 of
        None \<Rightarrow> Some (Faults NullDeref)
      | Some temp \<Rightarrow>
          if tid = getId (heap s1 ! temp) then
            and_load env (terminate_self env tid temp s1)
          else
            (case om_find (threads s1) tid of
               None \<Rightarrow> Some (Faults OutOfRange)
             | Some p \<Rightarrow>
                 return_int
                   (and_then
                     (if getState (heap s1 ! p) = READY
                      then and_then (removeFromReady tid s1) (\<lambda>_ s2. Ok () s2)
                      else removeFromBlock tid s1)
                     (\<lambda>_ s3. Ok SUCCESS
                        (unblock_signals (s3\<lparr>threads := om_erase tid (threads s3)\<rparr>))))))"

definition uthread_terminate :: "sys \<Rightarrow> int \<Rightarrow> ustate \<Rightarrow> control ures option" where
  "uthread_terminate env tid s =
     (if tid = 0 then Some (Exits 0 (s\<lparr>threads := []\<rparr>))
      else if om_find (threads s) tid = None
        then return_int (Ok FAIL (printError NOT_FOUND_ID THREAD_ERROR s))
      else terminate_masked env tid s)"

text \<open>\<open>_threads[tid]\<close> of an id that is not there is a new null pointer.\<close>

definition suspend_masked :: "sys \<Rightarrow> int \<Rightarrow> ustate \<Rightarrow> control ures option" where
  "suspend_masked env tid s =
     (let s1 = block_signals s in
      case running s1 of
        None \<Rightarrow> Some (Faults NullDeref)
      | Some r \<Rightarrow>
          if tid = getId (heap s1 ! r)
          then and_load env (suspend_self env (upd_thread (saveBuf AtSuspend (masked s1)) r s1))
          else
            (case om_find (threads s1) tid of
               None \<Rightarrow> Some (Faults NullDeref)
             | Some p \<Rightarrow>
                 return_int
                   (and_then (removeFromReady (getId (heap s1 ! p)) s1) (\<lambda>res s2.
                      if res = FAIL then Ok FAIL (unblock_signals s2)
                      else let s3 = upd_thread (setState BLOCK) p s2
                           in Ok SUCCESS (unblock_signals (s3\<lparr>blocked := blocked s3 @ [p]\<rparr>))))))"

definition uthread_suspend :: "sys \<Rightarrow> int \<Rightarrow> ustate \<Rightarrow> control ures option" where
  "uthread_suspend env tid s =
     (if tid = 0 then return_int (Ok FAIL (printError SUSPEND_MAIN THREAD_ERROR s))
      else if om_find (threads s) tid = None
        then return_int (Ok FAIL (printError NOT_FOUND_ID THREAD_ERROR s))
      else suspend_masked env tid s)"

text \<open>The search in \<open>blocked\<close> is made again; \<open>at\<close> throws when it ends at the end of the vector.\<close>

definition resume_masked :: "int \<Rightarrow> ustate \<Rightarrow> int ures" where
  "resume_masked tid s =
     (let s1 = block_signals s in
      case om_find (threads s1) tid of
        None \<Rightarrow> Faults OutOfRange
      | Some th \<Rightarrow>
          if th \<in> set (blocked s1) then
            (let s2 = upd_thread (setState READY) th s1;
                 s3 = addToReady (Some th) s2
             in and_then (removeFromBlock tid s3) (\<lambda>_ s4. Ok SUCCESS (unblock_signals s4)))
          else Faults OutOfRange)"

definition uthread_resume :: "int \<Rightarrow> ustate \<Rightarrow> int ures" where
  "uthread_resume tid s =
     (case om_find (threads s) tid of
        None \<Rightarrow> Ok FAIL (printError NOT_FOUND_ID THREAD_ERROR s)
      | Some th \<Rightarrow> if th \<in> set (blocked s) then resume_masked tid s else Ok FAIL s)"

definition uthread_get_tid :: "ustate \<Rightarrow> int ures" where
  "uthread_get_tid s =
     (case running s of None \<Rightarrow> Faults NullDeref | Some r \<Rightarrow> Ok (getId (heap s ! r)) s)"

definition uthread_get_total_quantums :: "ustate \<Rightarrow> int" where
  "uthread_get_total_quantums s = quantum_counter s"

definition uthread_get_quantums :: "int \<Rightarrow> ustate \<Rightarrow> int ures" where
  "uthread_get_quantums tid s =
     (let s1 = block_signals s in
      case om_find (threads s1) tid of
        None \<Rightarrow> Ok FAIL (unblock_signals (printError NOT_FOUND_ID THREAD_ERROR s1))
      | Some p \<Rightarrow> Ok (getQuantom (heap s1 ! p)) (unblock_signals s1))"

section \<open>Events\<close>

text \<open>
  What can happen to the library once it is initialised: the running thread calls a function of
  the interface, or the timer fires.
\<close>

datatype uevent =
    Spawn "64 word" priority
  | Terminate int
  | Suspend int
  | Resume int
  | GetTid
  | GetTotalQuantums
  | GetQuantums int
  | Timer

fun uexec :: "sys \<Rightarrow> uevent \<Rightarrow> ustate \<Rightarrow> control ures option" where
  "uexec env (Spawn f pr) s = return_int (uthread_spawn env f pr s)"
| "uexec env (Terminate tid) s = uthread_terminate env tid s"
| "uexec env (Suspend tid) s = uthread_suspend env tid s"
| "uexec env (Resume tid) s = return_int (uthread_resume tid s)"
| "uexec env GetTid s = return_int (uthread_get_tid s)"
| "uexec env GetTotalQuantums s = return_int (Ok (uthread_get_total_quantums s) s)"
| "uexec env (GetQuantums tid) s = return_int (uthread_get_quantums tid s)"
| "uexec env Timer s = timer_signal env s"

inductive ureachable :: "sys \<Rightarrow> ustate \<Rightarrow> bool" for env :: sys where
  init: "uthread_init env q initial_ustate = Ok SUCCESS s \<Longrightarrow> ureachable env s"
| step: "ureachable env s \<Longrightarrow> uexec env e s = Some (Ok c t) \<Longrightarrow> ureachable env t"

inductive_cases ureachableE: "ureachable env s"

end
