(* ===== verification/Uthreads_Inv.thy ===== *)
theory Uthreads_Inv
  imports Uthreads
begin

text \<open>
  The invariant of the thread library and the normal forms of its internal moves. Every live
  thread is in exactly one place (running, one of the three queues, blocked) and its state and
  priority agree with the place; the table's keys are the thread ids; the main thread is there
  and never blocked; the quantum counter is the sum of the threads' quanta and the number of
  times the timer was armed.
\<close>

section \<open>Views of the state\<close>

definition all_ready :: "ustate \<Rightarrow> ptr list" where
  "all_ready s = ready s RED_Q @ ready s ORANGE_Q @ ready s GREEN_Q"

definition live :: "ustate \<Rightarrow> ptr list" where
  "live s = map snd (threads s)"

fun queue_of :: "priority \<Rightarrow> nat" where
  "queue_of RED = RED_Q"
| "queue_of ORANGE = ORANGE_Q"
| "queue_of GREEN = GREEN_Q"

lemma queue_of_less [simp]: "queue_of pr < 3"
  by (cases pr) auto

lemma enum_value_queue_of: "enum_value pr = queue_of pr"
  by (cases pr) simp_all

lemma queue_of_mono [simp]:
  "queue_of a \<le> queue_of b \<longleftrightarrow> a \<le> b" "queue_of a < queue_of b \<longleftrightarrow> a < b"
  by (simp_all add: less_eq_priority_def less_priority_def enum_value_queue_of)

lemma translatePriority_queue_of:
  "translatePriority tid s =
     map_option (\<lambda>p. queue_of (t_pr (heap s ! p))) (om_find (threads s) tid)"
proof (cases "om_find (threads s) tid")
  case (Some p)
  then show ?thesis by (cases "t_pr (heap s ! p)") (simp_all add: translatePriority_def)
qed (simp add: translatePriority_def)

lemma addToReady_Some: "addToReady (Some p) s = push_ready (queue_of (t_pr (heap s ! p))) p s"
  by (simp split: priority.split)

lemma heap_upd_thread:
  "heap (upd_thread g p s) ! x = (if x = p \<and> p < length (heap s) then g (heap s ! p) else heap s ! x)"
  by (cases "p < length (heap s)")
    (auto simp: upd_thread_def nth_list_update list_update_beyond)

lemma heap_upd_field:
  "(\<And>th. f (g th) = f th) \<Longrightarrow> f (heap (upd_thread g p s) ! x) = f (heap s ! x)"
  by (simp add: heap_upd_thread)

lemma upd_thread_fields [simp]:
  "ready (upd_thread g p s) = ready s" "blocked (upd_thread g p s) = blocked s"
  "running (upd_thread g p s) = running s" "threads (upd_thread g p s) = threads s"
  "quantum_counter (upd_thread g p s) = quantum_counter s" "timer (upd_thread g p s) = timer s"
  "handler_set (upd_thread g p s) = handler_set s" "sa_mask (upd_thread g p s) = sa_mask s"
  "masked (upd_thread g p s) = masked s" "armed (upd_thread g p s) = armed s"
  "errlog (upd_thread g p s) = errlog s" "length (heap (upd_thread g p s)) = length (heap s)"
  by (simp_all add: upd_thread_def)

lemma push_ready_fields [simp]:
  "ready (push_ready q p s) = (ready s)(q := ready s q @ [p])" "blocked (push_ready q p s) = blocked s"
  "running (push_ready q p s) = running s" "threads (push_ready q p s) = threads s"
  "quantum_counter (push_ready q p s) = quantum_counter s" "timer (push_ready q p s) = timer s"
  "handler_set (push_ready q p s) = handler_set s" "sa_mask (push_ready q p s) = sa_mask s"
  "masked (push_ready q p s) = masked s" "armed (push_ready q p s) = armed s"
  "errlog (push_ready q p s) = errlog s" "heap (push_ready q p s) = heap s"
  by (simp_all add: push_ready_def)

lemma mask_fields [simp]:
  "ready (block_signals s) = ready s" "blocked (block_signals s) = blocked s"
  "running (block_signals s) = running s" "threads (block_signals s) = threads s"
  "heap (block_signals s) = heap s" "sa_mask (block_signals s) = sa_mask s"
  "masked (block_signals s) = (masked s \<or> sa_mask s)"
  "ready (unblock_signals s) = ready s" "blocked (unblock_signals s) = blocked s"
  "running (unblock_signals s) = running s" "threads (unblock_signals s) = threads s"
  "heap (unblock_signals s) = heap s" "sa_mask (unblock_signals s) = sa_mask s"
  "masked (unblock_signals s) = (masked s \<and> \<not> sa_mask s)"
  by (simp_all add: block_signals_def unblock_signals_def)

lemma printError_fields [simp]:
  "ready (printError e pre s) = ready s" "blocked (printError e pre s) = blocked s"
  "running (printError e pre s) = running s" "threads (printError e pre s) = threads s"
  "heap (printError e pre s) = heap s" "masked (printError e pre s) = masked s"
  by (simp_all add: printError_def)

section \<open>The invariant\<close>

text \<open>\<open>placed xs s\<close>: the live threads are those in hand (\<open>xs\<close>), ready or blocked, each once.\<close>

definition placed :: "ptr list \<Rightarrow> ustate \<Rightarrow> bool" where
  "placed xs s \<longleftrightarrow>
     mset (xs @ all_ready s @ blocked s) = mset (live s)"

definition queue_states :: "ustate \<Rightarrow> bool" where
  "queue_states s \<longleftrightarrow>
     (\<forall>q. \<forall>p \<in> set (ready s q). t_state (heap s ! p) = READY \<and> queue_of (t_pr (heap s ! p)) = q) \<and>
     (\<forall>p \<in> set (blocked s). t_state (heap s ! p) = BLOCK \<and> t_tid (heap s ! p) \<noteq> 0)"

lemma queue_statesD:
  assumes "queue_states s"
  shows "p \<in> set (ready s q) \<Longrightarrow> t_state (heap s ! p) = READY"
    and "p \<in> set (ready s q) \<Longrightarrow> queue_of (t_pr (heap s ! p)) = q"
    and "p \<in> set (blocked s) \<Longrightarrow> t_state (heap s ! p) = BLOCK"
    and "p \<in> set (blocked s) \<Longrightarrow> t_tid (heap s ! p) \<noteq> 0"
  using assms unfolding queue_states_def by blast+

definition table_ok :: "ustate \<Rightarrow> bool" where
  "table_ok s \<longleftrightarrow>
     om_ok (threads s) \<and>
     (\<forall>k p. om_find (threads s) k = Some p \<longrightarrow>
        0 \<le> k \<and> p < length (heap s) \<and> t_tid (heap s ! p) = k)"

definition main_ok :: "ustate \<Rightarrow> bool" where
  "main_ok s \<longleftrightarrow>
     (\<exists>m. om_find (threads s) 0 = Some m \<and>
          point (t_jmp_buf (heap s ! m)) \<noteq> AtSuspend \<and>
          (running s = Some m \<or> point (t_jmp_buf (heap s ! m)) = AtHandler))"

definition count_ok :: "ustate \<Rightarrow> bool" where
  "count_ok s \<longleftrightarrow>
     quantum_counter s = sum_list (map t_quantom (heap s)) \<and> quantum_counter s = int (armed s)"

definition buf_ok :: "thread \<Rightarrow> bool" where
  "buf_ok th \<longleftrightarrow>
     (case point (t_jmp_buf th) of
        AtEntry sp pc \<Rightarrow> \<not> saved_mask (t_jmp_buf th)
      | _ \<Rightarrow> saved_mask (t_jmp_buf th))"

definition uinv :: "ustate \<Rightarrow> bool" where
  "uinv s \<longleftrightarrow>
     (\<exists>r. running s = Some r \<and> placed [r] s \<and> t_state (heap s ! r) = RUNNING) \<and>
     queue_states s \<and> table_ok s \<and> main_ok s \<and> count_ok s \<and>
     (\<forall>th \<in> set (heap s). buf_ok th) \<and> sa_mask s \<and> handler_set s"

lemmas uinv_parts = queue_states_def table_ok_def main_ok_def count_ok_def placed_def

text \<open>Fields the invariant does not read.\<close>

lemma inv_frame [simp]:
  "all_ready (s\<lparr>masked := b\<rparr>) = all_ready s" "live (s\<lparr>masked := b\<rparr>) = live s"
  "uinv (s\<lparr>masked := b\<rparr>) = uinv s" "uinv (s\<lparr>errlog := l\<rparr>) = uinv s"
  "uinv (block_signals s) = uinv s" "uinv (unblock_signals s) = uinv s"
  "uinv (printError e pre s) = uinv s"
  by (simp_all add: uinv_def uinv_parts all_ready_def live_def block_signals_def
      unblock_signals_def printError_def)

lemma live_iff: "om_ok (threads s) \<Longrightarrow> p \<in> set (live s) \<longleftrightarrow> (\<exists>k. om_find (threads s) k = Some p)"
  by (force simp: live_def dest: om_find_in intro: om_in_find)

lemma table_live:
  assumes "table_ok s" and "p \<in> set (live s)"
  shows "p < length (heap s)" and "om_find (threads s) (t_tid (heap s ! p)) = Some p"
    and "0 \<le> t_tid (heap s ! p)"
  using assms by (auto simp: table_ok_def live_iff)

lemma distinct_live:
  assumes "table_ok s" shows "distinct (live s)"
proof -
  have "inj_on snd (set (threads s))"
  proof (rule inj_onI)
    fix x y assume "x \<in> set (threads s)" "y \<in> set (threads s)" "snd x = snd y"
    moreover from this assms have "om_find (threads s) (fst x) = Some (snd x)"
        "om_find (threads s) (fst y) = Some (snd x)"
      by (cases x; cases y; auto simp: table_ok_def intro: om_in_find)+
    ultimately show "x = y" using assms unfolding table_ok_def by (metis prod_eq_iff)
  qed
  moreover have "distinct (map fst (threads s))"
    using assms om.keys_distinct [of "threads s"] by (simp add: table_ok_def om_keys_def)
  ultimately show ?thesis by (simp add: live_def distinct_map)
qed

lemma placed_length:
  assumes "placed xs s"
  shows "length (threads s) = length xs + length (all_ready s) + length (blocked s)"
proof -
  have "length (xs @ all_ready s @ blocked s) = length (live s)"
    using assms unfolding placed_def by (rule mset_eq_length)
  then show ?thesis by (simp add: live_def)
qed

lemma placed_distinct:
  "placed xs s \<Longrightarrow> table_ok s \<Longrightarrow> distinct (xs @ all_ready s @ blocked s)"
  unfolding placed_def using distinct_live mset_eq_imp_distinct_iff by blast

lemma placed_set: "placed xs s \<Longrightarrow> set (xs @ all_ready s @ blocked s) = set (live s)"
  unfolding placed_def by (rule mset_eq_setD)

lemma ready_in_all: "queue_states s \<Longrightarrow> p \<in> set (ready s q) \<Longrightarrow> p \<in> set (all_ready s)"
  unfolding queue_states_def all_ready_def
  by (cases "t_pr (heap s ! p)") (auto dest!: spec [where x = q] bspec)

section \<open>Dispatching the next thread\<close>

text \<open>The thread \<open>p\<close> starts a quantum.\<close>

definition dispatch :: "ptr \<Rightarrow> ustate \<Rightarrow> ustate" where
  "dispatch p s =
     (upd_thread (increaseQuantom \<circ> setState RUNNING) p s)
       \<lparr>running := Some p, quantum_counter := quantum_counter s + 1, armed := Suc (armed s)\<rparr>"

definition first_queue :: "ustate \<Rightarrow> nat" where
  "first_queue s =
     (if ready s RED_Q \<noteq> [] then RED_Q else if ready s ORANGE_Q \<noteq> [] then ORANGE_Q else GREEN_Q)"

definition popped :: "ustate \<Rightarrow> ustate" where
  "popped s = s\<lparr>ready := (ready s)(first_queue s := tl (ready s (first_queue s)))\<rparr>"

lemma popped_fields [simp]:
  "blocked (popped s) = blocked s" "running (popped s) = running s"
  "threads (popped s) = threads s" "heap (popped s) = heap s" "masked (popped s) = masked s"
  "quantum_counter (popped s) = quantum_counter s" "armed (popped s) = armed s"
  "sa_mask (popped s) = sa_mask s" "handler_set (popped s) = handler_set s"
  by (simp_all add: popped_def)

lemma all_ready_popped [simp]:
  assumes "all_ready s \<noteq> []" shows "all_ready (popped s) = tl (all_ready s)"
  using assms
  by (cases "ready s RED_Q = []"; cases "ready s ORANGE_Q = []")
    (auto simp: all_ready_def popped_def first_queue_def)

lemma hd_all_ready: "all_ready s \<noteq> [] \<Longrightarrow> hd (all_ready s) = hd (ready s (first_queue s))"
  and first_queue_nonempty: "all_ready s \<noteq> [] \<Longrightarrow> ready s (first_queue s) \<noteq> []"
  by (auto simp: all_ready_def first_queue_def hd_append)

lemma popReady_some:
  assumes "length (threads s) > 1" and "all_ready s \<noteq> []"
  shows "popReady s = (Some (hd (all_ready s)), popped s)"
  using assms
  by (auto simp: popReady_def getReady_def popped_def first_queue_def all_ready_def hd_conv_nth
      nth_append)

lemma popReady_none:
  "length (threads s) > 1 \<Longrightarrow> all_ready s = [] \<Longrightarrow> popReady s = (None, s)"
  by (auto simp: popReady_def all_ready_def)

lemma setTime_cases:
  "setTime env s = Ok () (s\<lparr>armed := Suc (armed s)\<rparr>) \<or>
   (\<exists>t. setTime env s = Exits 1 t \<and> setitimer_ret env (armed s) = FAIL)"
  by (simp add: setTime_def Let_def)

lemma upd_thread_twice: "upd_thread g p (upd_thread h p s) = upd_thread (g \<circ> h) p s"
proof (cases "p < length (heap s)")
  case False
  then have "(heap s)[p := y] = heap s" for y by (simp add: list_update_beyond)
  then show ?thesis by (simp add: upd_thread_def)
qed (simp add: upd_thread_def)

lemma runThread_pick:
  assumes "popReady s = (tmp, s1)" and "(if tmp = None then running s1 else tmp) = Some p"
  shows "runThread env s = Ok () (dispatch p s1) \<or> (\<exists>t. runThread env s = Exits 1 t)"
proof -
  let ?s = "(upd_thread (increaseQuantom \<circ> setState RUNNING) p s1)
      \<lparr>running := Some p, quantum_counter := quantum_counter s1 + 1\<rparr>"
  have "(if tmp \<noteq> None then s1\<lparr>running := tmp\<rparr> else s1) = s1\<lparr>running := Some p\<rparr>"
    using assms(2) by (cases s1) (auto split: if_splits)
  then have "runThread env s = setTime env
      ((upd_thread (increaseQuantom \<circ> setState RUNNING) p (s1\<lparr>running := Some p\<rparr>))
        \<lparr>quantum_counter := quantum_counter s1 + 1\<rparr>)"
    by (simp only: runThread_def assms(1) Let_def prod.case upd_thread_twice) (simp add: upd_thread_twice)
  also have "\<dots> = setTime env ?s"
    by (cases s1) (simp add: upd_thread_def)
  finally have "runThread env s = setTime env ?s" .
  then show ?thesis using setTime_cases [of env ?s] by (auto simp: dispatch_def)
qed

section \<open>Keeping the invariant\<close>

text \<open>
  \<open>orderly xs p s\<close>: everything is in order while the threads \<open>xs\<close> are in hand, between two
  places, and \<open>p\<close> is the thread that runs or is about to. \<open>handover p s\<close>: \<open>p\<close> is the
  only thread in hand and can be dispatched.
\<close>

definition main_at :: "ptr \<Rightarrow> ustate \<Rightarrow> bool" where
  "main_at p s \<longleftrightarrow>
     (\<exists>m. om_find (threads s) 0 = Some m \<and>
          point (t_jmp_buf (heap s ! m)) \<noteq> AtSuspend \<and>
          (m = p \<or> point (t_jmp_buf (heap s ! m)) = AtHandler))"

definition orderly :: "ptr list \<Rightarrow> ptr \<Rightarrow> ustate \<Rightarrow> bool" where
  "orderly xs p s \<longleftrightarrow>
     placed xs s \<and> queue_states s \<and> table_ok s \<and> main_at p s \<and> count_ok s \<and>
     (\<forall>th \<in> set (heap s). buf_ok th) \<and> sa_mask s \<and> handler_set s"

abbreviation handover :: "ptr \<Rightarrow> ustate \<Rightarrow> bool" where
  "handover p s \<equiv> orderly [p] p s"

lemmas handover_def = orderly_def

lemma uinv_handover:
  "uinv s \<longleftrightarrow> (\<exists>r. running s = Some r \<and> handover r s \<and> t_state (heap s ! r) = RUNNING)"
  by (auto simp: uinv_def orderly_def main_ok_def main_at_def)

lemma orderly_frame [simp]:
  "orderly xs r (s\<lparr>masked := b\<rparr>) = orderly xs r s"
  "orderly xs r (block_signals s) = orderly xs r s"
  "orderly xs r (unblock_signals s) = orderly xs r s"
  by (simp_all add: orderly_def uinv_parts main_at_def block_signals_def unblock_signals_def
      all_ready_def live_def)

lemma views_upd [simp]:
  "all_ready (upd_thread g p s) = all_ready s" "live (upd_thread g p s) = live s"
  "placed xs (upd_thread g p s) = placed xs s"
  by (simp_all add: all_ready_def live_def placed_def)

lemma queue_states_upd:
  assumes "queue_states s" and "p \<notin> set (all_ready s)" and "p \<notin> set (blocked s)"
  shows "queue_states (upd_thread g p s)"
  using assms ready_in_all [OF assms(1), of p] unfolding queue_states_def
  by (auto simp: heap_upd_thread)

lemma table_ok_upd:
  "(\<And>th. t_tid (g th) = t_tid th) \<Longrightarrow> table_ok (upd_thread g p s) = table_ok s"
  by (simp add: table_ok_def heap_upd_field [where f = t_tid])

lemma main_at_upd:
  "(\<And>th. t_jmp_buf (g th) = t_jmp_buf th) \<Longrightarrow> main_at q (upd_thread g p s) = main_at q s"
  by (simp add: main_at_def heap_upd_field [where f = t_jmp_buf])

lemma sum_quanta_upd:
  assumes "p < length (heap s)"
  shows "sum_list (map t_quantom (heap (upd_thread g p s)))
    = sum_list (map t_quantom (heap s)) - t_quantom (heap s ! p) + t_quantom (g (heap s ! p))"
  unfolding upd_thread_def by (simp add: sum_list_map_update [OF assms])

lemma count_ok_upd:
  assumes "\<And>th. t_quantom (g th) = t_quantom th"
  shows "count_ok (upd_thread g p s) = count_ok s"
proof (cases "p < length (heap s)")
  case True
  then show ?thesis by (simp add: count_ok_def sum_quanta_upd assms)
next
  case False
  then have "upd_thread g p s = s" by (simp add: upd_thread_def list_update_beyond)
  then show ?thesis by simp
qed

lemma buf_ok_upd:
  assumes "\<forall>th \<in> set (heap s). buf_ok th" and "p < length (heap s) \<Longrightarrow> buf_ok (g (heap s ! p))"
  shows "\<forall>th \<in> set (heap (upd_thread g p s)). buf_ok th"
  using assms set_update_subset_insert [of "heap s" p "g (heap s ! p)"]
  by (cases "p < length (heap s)") (auto simp: upd_thread_def list_update_beyond)

lemma buf_ok_cong: "t_jmp_buf a = t_jmp_buf b \<Longrightarrow> buf_ok a = buf_ok b"
  by (cases "point (t_jmp_buf b)") (simp_all add: buf_ok_def)

lemma in_hand:
  assumes "placed (p # xs) s" and "table_ok s"
  shows "p \<notin> set (all_ready s)" and "p \<notin> set (blocked s)" and "p < length (heap s)"
    and "om_find (threads s) (t_tid (heap s ! p)) = Some p"
proof -
  show "p \<notin> set (all_ready s)" "p \<notin> set (blocked s)"
    using placed_distinct [OF assms] by auto
  have "p \<in> set (live s)" using placed_set [OF assms(1)] by auto
  then show "p < length (heap s)" "om_find (threads s) (t_tid (heap s ! p)) = Some p"
    using table_live [OF assms(2)] by auto
qed

lemma handover_dispatch:
  assumes "handover p s" shows "uinv (dispatch p s)"
proof -
  let ?g = "increaseQuantom \<circ> setState RUNNING"
  let ?s = "upd_thread ?g p s"
  have h: "placed [p] s" "queue_states s" "table_ok s" "main_at p s" "count_ok s"
      "\<forall>th \<in> set (heap s). buf_ok th" "sa_mask s" "handler_set s"
    using assms by (simp_all add: handover_def)
  note ih = in_hand [OF h(1,3)]
  have qs: "queue_states ?s" by (rule queue_states_upd [OF h(2) ih(1,2)])
  have tab: "table_ok ?s" using h(3) by (simp add: table_ok_upd)
  have main: "main_at p ?s" using h(4) by (simp add: main_at_upd)
  have bufs: "\<forall>th \<in> set (heap ?s). buf_ok th"
  proof (rule buf_ok_upd [OF h(6)])
    assume "p < length (heap s)"
    then have "buf_ok (heap s ! p)" using h(6) by simp
    then show "buf_ok (?g (heap s ! p))" by (subst buf_ok_cong [of _ "heap s ! p"]) simp_all
  qed
  have sum: "sum_list (map t_quantom (heap ?s)) = quantum_counter s + 1"
    using h(5) ih(3) by (simp add: sum_quanta_upd count_ok_def)
  have views: "all_ready (dispatch p s) = all_ready s" "live (dispatch p s) = live s"
      "threads (dispatch p s) = threads s" "heap (dispatch p s) = heap ?s"
      "ready (dispatch p s) = ready s" "blocked (dispatch p s) = blocked s"
      "running (dispatch p s) = Some p" "sa_mask (dispatch p s) = sa_mask s"
      "handler_set (dispatch p s) = handler_set s"
      "quantum_counter (dispatch p s) = quantum_counter s + 1" "armed (dispatch p s) = Suc (armed s)"
    by (simp_all add: dispatch_def all_ready_def live_def)
  have "handover p (dispatch p s)"
    unfolding handover_def placed_def queue_states_def table_ok_def main_at_def count_ok_def views
    using h qs tab main bufs sum
    by (simp add: placed_def queue_states_def table_ok_def main_at_def count_ok_def)
  moreover have "t_state (heap (dispatch p s) ! p) = RUNNING"
    using ih(3) by (simp add: views heap_upd_thread)
  ultimately show ?thesis using views(7) by (auto simp: uinv_handover)
qed

end
