(* ===== verification/Uthreads_Safe.thy ===== *)
theory Uthreads_Safe
  imports Uthreads_Inv
begin

text \<open>
  Every operation of the thread library keeps the invariant, returns or switches, and never
  faults. The moves between queues come first, then the two ways of giving up the processor,
  the context switch itself (whose loop over self-suspended threads ends because every round
  takes a thread out of the ready queues), and the library functions.
\<close>

section \<open>Moving pointers between the places\<close>

lemma mset_all_ready_push:
  "q < 3 \<Longrightarrow> mset (all_ready (push_ready q r s)) = add_mset r (mset (all_ready s))"
  by (auto simp: all_ready_def less_Suc_eq numeral_3_eq_3)

lemma placed_push:
  assumes "placed (xs @ r # ys) s" and "q < 3"
  shows "placed (xs @ ys) (push_ready q r s)"
  using assms(1) mset_all_ready_push [OF assms(2), of r s] by (simp add: placed_def live_def)

lemma placed_pop:
  assumes "placed xs s" and "all_ready s \<noteq> []"
  shows "placed (hd (all_ready s) # xs) (popped s)"
proof -
  have "mset (all_ready s) = add_mset (hd (all_ready s)) (mset (tl (all_ready s)))"
    using assms(2) by (cases "all_ready s") simp_all
  then show ?thesis using assms by (simp add: placed_def live_def)
qed

lemma queue_states_push:
  assumes "queue_states s" and "t_state (heap s ! r) = READY"
    and "queue_of (t_pr (heap s ! r)) = q"
  shows "queue_states (push_ready q r s)"
  using assms by (auto simp: queue_states_def)

lemma set_ready_popped: "set (ready (popped s) q) \<subseteq> set (ready s q)"
  by (cases "ready s (first_queue s)") (auto simp: popped_def)

lemma queue_states_popped: "queue_states s \<Longrightarrow> queue_states (popped s)"
  unfolding queue_states_def using set_ready_popped [of s] by (simp add: subset_iff) blast

lemma simple_frames [simp]:
  "table_ok (push_ready q r s) = table_ok s" "table_ok (popped s) = table_ok s"
  "main_at p (push_ready q r s) = main_at p s" "main_at p (popped s) = main_at p s"
  "count_ok (push_ready q r s) = count_ok s" "count_ok (popped s) = count_ok s"
  "live (push_ready q r s) = live s" "live (popped s) = live s"
  by (simp_all add: table_ok_def main_at_def count_ok_def live_def)

text \<open>The single moves on orderly states.\<close>

lemma main_at_other: "main_at r s \<Longrightarrow> (om_find (threads s) 0 = Some r \<Longrightarrow>
    point (t_jmp_buf (heap s ! r)) = AtHandler) \<Longrightarrow> main_at p s"
  by (auto simp: main_at_def)

lemma orderly_next: "orderly xs r s \<Longrightarrow> main_at p s \<Longrightarrow> orderly xs p s"
  by (simp add: orderly_def)

lemma orderly_perm: "orderly xs r s \<Longrightarrow> mset ys = mset xs \<Longrightarrow> orderly ys r s"
  by (simp add: orderly_def placed_def)

lemma orderly_in_hand:
  assumes "orderly (p # xs) r s"
  shows "p \<notin> set (all_ready s)" and "p \<notin> set (blocked s)" and "p < length (heap s)"
    and "om_find (threads s) (t_tid (heap s ! p)) = Some p" and "buf_ok (heap s ! p)"
  using in_hand [of p xs s] assms by (auto simp: orderly_def)

lemma orderly_setState:
  assumes "orderly (p # xs) r s" shows "orderly (p # xs) r (upd_thread (setState st) p s)"
proof -
  note ih = orderly_in_hand [OF assms]
  have "\<forall>th \<in> set (heap (upd_thread (setState st) p s)). buf_ok th"
    using assms ih(5) by (intro buf_ok_upd) (simp_all add: orderly_def buf_ok_cong [of "setState st _"])
  then show ?thesis
    using assms queue_states_upd [of s p "setState st"] ih(1,2)
    by (simp add: orderly_def table_ok_upd main_at_upd count_ok_upd)
qed

lemma orderly_push:
  assumes "orderly (p # xs) r s" and "t_state (heap s ! p) = READY"
  shows "orderly xs r (push_ready (queue_of (t_pr (heap s ! p))) p s)"
  using assms placed_push [of "[]" p xs s "queue_of (t_pr (heap s ! p))"]
    queue_states_push [of s p "queue_of (t_pr (heap s ! p))"]
  by (simp add: orderly_def)

lemma orderly_pop:
  assumes "orderly xs r s" and "all_ready s \<noteq> []"
  shows "orderly (hd (all_ready s) # xs) r (popped s)"
  using assms placed_pop [of xs s] queue_states_popped [of s] by (simp add: orderly_def)

lemma orderly_block:
  assumes "orderly (p # xs) r s" and "t_state (heap s ! p) = BLOCK" and "t_tid (heap s ! p) \<noteq> 0"
  shows "orderly xs r (s\<lparr>blocked := blocked s @ [p]\<rparr>)"
  using assms
  by (simp add: orderly_def placed_def queue_states_def table_ok_def main_at_def count_ok_def
      all_ready_def live_def)

lemma orderly_running [simp]: "orderly xs r (s\<lparr>running := x\<rparr>) = orderly xs r s"
  by (simp add: orderly_def placed_def queue_states_def table_ok_def main_at_def count_ok_def
      all_ready_def live_def)

lemma table_ok_erase:
  "table_ok s \<Longrightarrow> table_ok (s\<lparr>threads := om_erase k (threads s)\<rparr>)"
  using length_om_erase [of "threads s" k]
  by (cases "om_find (threads s) k = None")
    (auto simp: table_ok_def om.find_erase om.invar_erase om_erase_id split: if_splits)

lemma orderly_forget:
  assumes "orderly (p # xs) r s" and "t_tid (heap s ! p) \<noteq> 0"
  shows "orderly xs r (s\<lparr>threads := om_erase (t_tid (heap s ! p)) (threads s)\<rparr>)"
proof -
  let ?k = "t_tid (heap s ! p)"
  have "mset (map snd (threads s)) = add_mset p (mset (map snd (om_erase ?k (threads s))))"
    using mset_om_erase [OF orderly_in_hand(4) [OF assms(1)]]
    by (metis image_mset_add_mset mset_map snd_conv)
  moreover have "table_ok (s\<lparr>threads := om_erase ?k (threads s)\<rparr>)" "om_ok (threads s)"
    using assms(1) table_ok_erase [of s] by (simp_all add: orderly_def) (simp add: table_ok_def)
  ultimately show ?thesis
    using assms
    by (simp add: orderly_def placed_def queue_states_def main_at_def count_ok_def all_ready_def
        live_def om.find_erase)
qed

lemma addToReady_dispatch:
  "addToReady (Some r) (dispatch p t) = dispatch p (push_ready (queue_of (t_pr (heap t ! r))) r t)"
proof -
  have "t_pr (heap (dispatch p t) ! r) = t_pr (heap t ! r)"
    by (simp add: dispatch_def heap_upd_field [where f = t_pr])
  then show ?thesis
    unfolding addToReady_Some by (cases t) (simp add: dispatch_def push_ready_def upd_thread_def)
qed

section \<open>Giving up the processor\<close>

lemma handover_length:
  "handover r s \<Longrightarrow> length (threads s) = Suc (length (all_ready s) + length (blocked s))"
  using placed_length [of "[r]" s] by (simp add: handover_def)

lemma handover_in_hand:
  assumes "handover r s"
  shows "r \<notin> set (all_ready s)" and "r \<notin> set (blocked s)" and "r < length (heap s)"
    and "om_find (threads s) (t_tid (heap s ! r)) = Some r"
  using in_hand [of r "[]" s] assms by (simp_all add: handover_def)

text \<open>The processor moves from \<open>r\<close> to the first ready thread; \<open>r\<close> goes to the end of its queue.\<close>

definition requeued :: "ptr \<Rightarrow> ustate \<Rightarrow> ustate" where
  "requeued r s =
     push_ready (queue_of (t_pr (heap s ! r))) r (popped (upd_thread (setState READY) r s))"

lemma switch_some:
  assumes ho: "handover r s" and run: "running s = Some r" and ne: "all_ready s \<noteq> []"
  shows "switchThreads env s = Ok () (dispatch (hd (all_ready s)) (requeued r s)) \<or>
         (\<exists>t. switchThreads env s = Exits 1 t)"
proof -
  let ?s1 = "upd_thread (setState READY) r s"
  let ?p = "hd (all_ready s)"
  have len: "length (threads s) = Suc (length (all_ready s) + length (blocked s))"
    by (rule handover_length [OF ho])
  have pop: "popReady ?s1 = (Some ?p, popped ?s1)"
    using popReady_some [of ?s1] len ne by simp
  have gt: "int (length (threads s)) - 1 \<noteq> int (length (blocked s))"
    using len ne by simp
  have "t_pr (heap (popped ?s1) ! r) = t_pr (heap s ! r)"
    by (simp add: heap_upd_field [where f = t_pr])
  then have "addToReady (Some r) (dispatch ?p (popped ?s1)) = dispatch ?p (requeued r s)"
    unfolding addToReady_dispatch requeued_def by simp
  moreover have "threads (dispatch ?p (popped ?s1)) = threads s"
      "blocked (dispatch ?p (popped ?s1)) = blocked s"
    by (simp_all add: dispatch_def)
  ultimately show ?thesis
    using runThread_pick [OF pop, of ?p env] gt by (auto simp: switchThreads_def run Let_def)
qed

lemma switch_none:
  assumes ho: "handover r s" and run: "running s = Some r" and none: "all_ready s = []"
  shows "switchThreads env s = Ok () (dispatch r (upd_thread (setState READY) r s)) \<or>
         (\<exists>t. switchThreads env s = Exits 1 t)"
proof -
  let ?s1 = "upd_thread (setState READY) r s"
  have len: "length (threads s) = Suc (length (blocked s))"
    using handover_length [OF ho] none by simp
  obtain tmp where pop: "popReady ?s1 = (tmp, ?s1)"
      and tmp: "(if tmp = None then running ?s1 else tmp) = Some r"
  proof (cases "length (threads s) = 1")
    case True
    then obtain k p where th: "threads s = [(k, p)]" by (cases "threads s") auto
    moreover from ho none True len have "mset [r] = mset (live s)"
      by (simp add: handover_def placed_def)
    ultimately have "p = r" by (simp add: live_def)
    then show ?thesis using that [of "Some r"] th by (simp add: popReady_def)
  next
    case False
    with len have "length (threads s) > 1" by simp
    then show ?thesis using that [of None] popReady_none [of ?s1] none run by simp
  qed
  have "threads (dispatch r ?s1) = threads s" "blocked (dispatch r ?s1) = blocked s"
    by (simp_all add: dispatch_def)
  then show ?thesis
    using runThread_pick [OF pop tmp, of env] len by (auto simp: switchThreads_def run Let_def)
qed

lemma handover_requeued:
  assumes ho: "handover r s" and ne: "all_ready s \<noteq> []"
    and main: "om_find (threads s) 0 = Some r \<Longrightarrow> point (t_jmp_buf (heap s ! r)) = AtHandler"
  shows "handover (hd (all_ready s)) (requeued r s)"
proof -
  let ?p = "hd (all_ready s)" and ?s1 = "upd_thread (setState READY) r s"
  have st: "t_state (heap ?s1 ! r) = READY" and pr: "t_pr (heap ?s1 ! r) = t_pr (heap s ! r)"
    using handover_in_hand(3) [OF ho] by (simp_all add: heap_upd_thread)
  have "orderly [?p, r] r (popped ?s1)"
    using orderly_pop [OF orderly_setState [OF ho]] ne by simp
  then have "orderly [r, ?p] r (popped ?s1)" by (rule orderly_perm) simp
  then have "orderly [?p] r (requeued r s)"
    using orderly_push [of r "[?p]" r "popped ?s1"] st pr by (simp add: requeued_def)
  moreover have "main_at ?p s" using ho main by (auto simp: orderly_def intro: main_at_other)
  then have "main_at ?p (requeued r s)" by (simp add: requeued_def main_at_upd)
  ultimately show ?thesis by (rule orderly_next)
qed

text \<open>Someone else is ready whenever a thread other than the main one runs.\<close>

lemma main_is_ready:
  assumes "handover r s" and "t_tid (heap s ! r) \<noteq> 0"
  shows "all_ready s \<noteq> []" and "om_find (threads s) 0 \<noteq> Some r"
proof -
  have h: "placed [r] s" "queue_states s" "table_ok s" "main_at r s"
    using assms(1) by (simp_all add: handover_def)
  from h(4) obtain m where m: "om_find (threads s) 0 = Some m" by (auto simp: main_at_def)
  then have tid: "t_tid (heap s ! m) = 0" using h(3) by (simp add: table_ok_def)
  then show "om_find (threads s) 0 \<noteq> Some r" using m assms(2) by auto
  have "m \<in> set (live s)" using h(3) m live_iff [of s] by (auto simp: table_ok_def)
  then have "m \<in> set ([r] @ all_ready s @ blocked s)" using placed_set [OF h(1)] by simp
  moreover have "m \<noteq> r" using tid assms(2) by auto
  moreover have "m \<notin> set (blocked s)" using h(2) tid by (auto simp: queue_states_def)
  ultimately show "all_ready s \<noteq> []" by auto
qed

text \<open>The running thread \<open>r\<close> blocks and the first ready thread takes over.\<close>

definition parked :: "ptr \<Rightarrow> ustate \<Rightarrow> ustate" where
  "parked r s =
     popped ((upd_thread (setState BLOCK) r s)\<lparr>blocked := blocked s @ [r], running := None\<rparr>)"

lemma blocked_views [simp]:
  "all_ready (s\<lparr>blocked := b, running := x\<rparr>) = all_ready s"
  "live (s\<lparr>blocked := b, running := x\<rparr>) = live s"
  by (simp_all add: all_ready_def live_def)

lemma suspend_self_step:
  assumes ho: "handover r s" and run: "running s = Some r" and tid: "t_tid (heap s ! r) \<noteq> 0"
  shows "suspend_self env s = Ok () (dispatch (hd (all_ready s)) (parked r s)) \<or>
         (\<exists>t. suspend_self env s = Exits 1 t)"
    and "handover (hd (all_ready s)) (parked r s)"
proof -
  let ?s1 = "upd_thread (setState BLOCK) r s" and ?p = "hd (all_ready s)"
  let ?s2 = "?s1\<lparr>blocked := blocked s @ [r], running := None\<rparr>"
  note ne = main_is_ready(1) [OF ho tid] and nm = main_is_ready(2) [OF ho tid]
  have "length (threads ?s2) > 1" using handover_length [OF ho] ne by simp
  then have pop: "popReady ?s2 = (Some ?p, parked r s)"
    using popReady_some [of ?s2] ne by (simp add: parked_def)
  then show "suspend_self env s = Ok () (dispatch ?p (parked r s)) \<or>
         (\<exists>t. suspend_self env s = Exits 1 t)"
    using runThread_pick [OF pop, of ?p env] by (auto simp: suspend_self_def run Let_def)
  have st: "t_state (heap ?s1 ! r) = BLOCK" "t_tid (heap ?s1 ! r) \<noteq> 0"
    using handover_in_hand(3) [OF ho] tid by (simp_all add: heap_upd_thread)
  have "orderly [] r (?s1\<lparr>blocked := blocked ?s1 @ [r]\<rparr>)"
    by (rule orderly_block [OF orderly_setState [OF ho] st])
  then have "orderly [] r ?s2" by simp
  then have "orderly [?p] r (parked r s)"
    using orderly_pop [of "[]" r ?s2] ne by (simp add: parked_def)
  moreover have "main_at ?p ?s1"
    using ho nm by (auto simp: orderly_def main_at_upd intro: main_at_other)
  then have "main_at ?p (parked r s)" by (simp add: parked_def main_at_def)
  ultimately show "handover ?p (parked r s)" by (rule orderly_next)
qed

text \<open>The running thread \<open>r\<close> leaves the table for good.\<close>

definition departed :: "ptr \<Rightarrow> ustate \<Rightarrow> ustate" where
  "departed r s =
     popped ((upd_thread (setState READY) r s)
       \<lparr>threads := om_erase (t_tid (heap s ! r)) (threads s)\<rparr>)"

lemma departed_handover:
  assumes ho: "handover r s" and tid: "t_tid (heap s ! r) \<noteq> 0"
  shows "handover (hd (all_ready s)) (departed r s)"
proof -
  let ?s1 = "upd_thread (setState READY) r s" and ?p = "hd (all_ready s)"
  let ?s2 = "?s1\<lparr>threads := om_erase (t_tid (heap s ! r)) (threads s)\<rparr>"
  note ne = main_is_ready(1) [OF ho tid] and nm = main_is_ready(2) [OF ho tid]
  have k: "t_tid (heap ?s1 ! r) = t_tid (heap s ! r)" by (simp add: heap_upd_field [where f = t_tid])
  have "orderly [] r ?s2"
    using orderly_forget [OF orderly_setState [OF ho, of READY]] tid k by simp
  moreover have "all_ready ?s2 = all_ready s" by (simp add: all_ready_def)
  ultimately have "orderly [?p] r (departed r s)"
    using orderly_pop [of "[]" r ?s2] ne by (simp add: departed_def)
  moreover have "main_at ?p ?s1"
    using ho nm by (auto simp: orderly_def main_at_upd intro: main_at_other)
  then have "main_at ?p (departed r s)"
    using ho tid by (simp add: departed_def main_at_def om.find_erase orderly_def table_ok_def)
  ultimately show ?thesis by (rule orderly_next)
qed

lemma terminate_self_step:
  assumes ho: "handover r s" and run: "running s = Some r" and tid: "t_tid (heap s ! r) \<noteq> 0"
  shows "terminate_self env (t_tid (heap s ! r)) r s = Ok () (dispatch (hd (all_ready s)) (departed r s)) \<or>
         (\<exists>t. terminate_self env (t_tid (heap s ! r)) r s = Exits 1 t)"
proof -
  let ?p = "hd (all_ready s)" and ?q = "queue_of (t_pr (heap s ! r))"
  let ?s1 = "upd_thread (setState READY) r s"
  let ?s3 = "dispatch ?p (requeued r s)" and ?s4 = "dispatch ?p (popped ?s1)"
  note ne = main_is_ready(1) [OF ho tid] and ih = handover_in_hand [OF ho]
  have fields: "threads ?s3 = threads s" "blocked ?s3 = blocked s"
      "ready ?s3 = (ready (popped ?s1))(?q := ready (popped ?s1) ?q @ [r])"
      "t_pr (heap ?s3 ! r) = t_pr (heap s ! r)"
    by (simp_all add: dispatch_def requeued_def heap_upd_field [where f = t_pr])
  have "r \<notin> set (ready ?s1 ?q)"
    using ih(1) ready_in_all [of s r ?q] ho by (auto simp: handover_def)
  then have notin: "r \<notin> set (ready (popped ?s1) ?q)" using set_ready_popped by blast
  have restored: "?s3\<lparr>ready := (ready ?s3)(?q := ready (popped ?s1) ?q)\<rparr> = ?s4"
    unfolding fields(3) by (cases "popped ?s1") (simp add: dispatch_def requeued_def push_ready_def upd_thread_def)
  have "removeFromReady (t_tid (heap s ! r)) ?s3 = Ok SUCCESS ?s4"
    unfolding removeFromReady_def translatePriority_queue_of fields(1) ih(4)
    using notin restored by (simp add: fields(3,4) remove1_append)
  moreover have "removeFromBlock (t_tid (heap s ! r)) ?s4 = Ok () ?s4"
  proof -
    have b: "blocked ?s4 = blocked s" "threads ?s4 = threads s" by (simp_all add: dispatch_def)
    have "?s4\<lparr>blocked := blocked s\<rparr> = ?s4" by (cases "popped ?s1") (auto simp: dispatch_def upd_thread_def simp flip: b(1))
    then show ?thesis using ih(2,4) by (simp add: removeFromBlock_def b remove1_idem)
  qed
  moreover have "?s4\<lparr>threads := om_erase (getId (heap ?s4 ! r)) (threads ?s4)\<rparr> = dispatch ?p (departed r s)"
  proof -
    have "t_tid (heap ?s4 ! r) = t_tid (heap s ! r)" "threads ?s4 = threads s"
      by (simp_all add: dispatch_def heap_upd_field [where f = t_tid])
    then show ?thesis
      by (cases s) (simp add: dispatch_def departed_def popped_def first_queue_def upd_thread_def)
  qed
  ultimately show ?thesis
    using switch_some [OF ho run ne, of env] by (auto simp: terminate_self_def)
qed

section \<open>The context switch\<close>

lemma all_ready_parked:
  assumes "all_ready s \<noteq> []"
  shows "length (all_ready (dispatch p (parked r s))) < length (all_ready s)"
proof -
  have "all_ready (dispatch p (parked r s)) = all_ready (parked r s)"
    by (simp add: dispatch_def all_ready_def)
  then show ?thesis using assms by (simp add: parked_def)
qed

definition switched_ok :: "control ures option \<Rightarrow> bool" where
  "switched_ok x \<longleftrightarrow>
     (\<exists>t. x = Some (Ok Switched t) \<and> uinv t \<and> \<not> masked t) \<or> (\<exists>t. x = Some (Exits 1 t))"

lemma loadBuf_ok: "uinv s \<Longrightarrow> switched_ok (loadBuf env s)"
proof (induction "length (all_ready s)" arbitrary: s rule: less_induct)
  case less
  obtain r where run: "running s = Some r" and ho: "handover r s"
    using less.prems by (auto simp: uinv_handover)
  let ?buf = "t_jmp_buf (heap s ! r)"
  let ?s1 = "s\<lparr>masked := saved_mask ?buf\<rparr>"
  have buf: "buf_ok (heap s ! r)" using ho handover_in_hand(3) [OF ho] by (simp add: handover_def)
  show ?case
  proof (cases "point ?buf")
    case (AtEntry sp pc)
    then have "loadBuf env s = Some (Ok Switched ?s1)" by (simp add: loadBuf.simps run Let_def)
    then show ?thesis using less.prems AtEntry buf by (simp add: switched_ok_def buf_ok_def)
  next
    case AtHandler
    then have "loadBuf env s = Some (Ok Switched (?s1\<lparr>masked := False\<rparr>))"
      by (simp add: loadBuf.simps run Let_def)
    then show ?thesis using less.prems by (simp add: switched_ok_def)
  next
    case AtSuspend
    have "handover r ?s1" and "running ?s1 = Some r" using ho run by simp_all
    moreover have tid: "t_tid (heap ?s1 ! r) \<noteq> 0"
    proof
      assume "t_tid (heap ?s1 ! r) = 0"
      then have "om_find (threads s) 0 = Some r" using handover_in_hand(4) [OF ho] by simp
      then show False using ho AtSuspend by (auto simp: handover_def main_at_def)
    qed
    ultimately have step: "suspend_self env ?s1 = Ok () (dispatch (hd (all_ready ?s1)) (parked r ?s1)) \<or>
         (\<exists>t. suspend_self env ?s1 = Exits 1 t)"
      and ho2: "handover (hd (all_ready ?s1)) (parked r ?s1)" and ne: "all_ready ?s1 \<noteq> []"
      using suspend_self_step(1) [of r ?s1 env] suspend_self_step(2) [of r ?s1] main_is_ready(1) [of r ?s1] by auto
    show ?thesis
    proof (cases "\<exists>t. suspend_self env ?s1 = Exits 1 t")
      case True
      then show ?thesis by (auto simp: loadBuf.simps [of env s] run Let_def AtSuspend switched_ok_def)
    next
      case False
      let ?t = "dispatch (hd (all_ready ?s1)) (parked r ?s1)"
      have "switched_ok (loadBuf env ?t)"
        using all_ready_parked [OF ne] handover_dispatch [OF ho2] by (intro less.hyps) auto
      then show ?thesis
        using step False by (simp add: loadBuf.simps [of env s] run Let_def AtSuspend)
    qed
  qed
qed

end
