(* ===== verification/Uthreads_Ops.thy ===== *)
theory Uthreads_Ops
  imports Uthreads_Safe
begin

text \<open>
  The library functions and the timer handler over the moves of \<open>Uthreads_Safe\<close>: each keeps
  the invariant, comes back or switches with the signal unblocked, and never faults. The
  theory provides the two contracts of the prelude: the library is an event system, and
  \<open>getNextId\<close> is an allocator of the smallest free id.
\<close>

definition step_ok :: "control ures option \<Rightarrow> bool" where
  "step_ok x \<longleftrightarrow>
     (\<exists>c t. x = Some (Ok c t) \<and> uinv t \<and> \<not> masked t) \<or> (\<exists>c t. x = Some (Exits c t))"

lemma switched_step: "switched_ok x \<Longrightarrow> step_ok x"
  by (auto simp: switched_ok_def step_ok_def)

lemma step_ok_return:
  "uinv t \<Longrightarrow> \<not> masked t \<Longrightarrow> step_ok (return_int (Ok v t))"
  by (simp add: step_ok_def return_int_def)

lemma and_load_ok:
  assumes "m = Ok () t \<or> (\<exists>u. m = Exits 1 u)" and "uinv t"
  shows "switched_ok (and_load env m)"
  using assms loadBuf_ok [of t env] by (auto simp: and_load_def switched_ok_def)

section \<open>The allocator of ids\<close>

definition ids_ok :: "ustate \<Rightarrow> bool" where
  "ids_ok s \<longleftrightarrow> om_ok (threads s) \<and> (\<forall>k \<in> set (om_keys (threads s)). 0 \<le> k)"

interpretation tids: id_allocator getNextId "\<lambda>s. set (om_keys (threads s))" ids_ok
proof unfold_locales
  fix s k assume ok: "ids_ok s"
  then show "getNextId s \<notin> set (om_keys (threads s))"
    unfolding getNextId_def by (intro first_gap_notin) (simp_all add: ids_ok_def om_ok_def)
  show "0 \<le> getNextId s" unfolding getNextId_def by (rule first_gap_ge)
  assume "0 \<le> k" "k < getNextId s"
  then show "k \<in> set (om_keys (threads s))" unfolding getNextId_def by (rule first_gap_below)
qed

lemma table_ids_ok: "table_ok s \<Longrightarrow> ids_ok s"
  by (auto simp: table_ok_def ids_ok_def om.keys_find)

section \<open>The timer handler\<close>

lemma orderly_saveBuf:
  assumes "orderly (r # xs) r s" and "pt = AtHandler \<or> pt = AtSuspend \<and> t_tid (heap s ! r) \<noteq> 0"
  shows "orderly (r # xs) r (upd_thread (saveBuf pt True) r s)"
proof -
  let ?s = "upd_thread (saveBuf pt True) r s"
  note ih = orderly_in_hand [OF assms(1)]
  have "\<forall>th \<in> set (heap ?s). buf_ok th"
    using assms by (intro buf_ok_upd) (auto simp: orderly_def buf_ok_def)
  moreover have "main_at r ?s"
  proof -
    obtain m where m: "om_find (threads s) 0 = Some m" "point (t_jmp_buf (heap s ! m)) \<noteq> AtSuspend"
        "m = r \<or> point (t_jmp_buf (heap s ! m)) = AtHandler"
      using assms(1) by (auto simp: orderly_def main_at_def)
    moreover have "t_tid (heap s ! m) = 0" using assms(1) m(1) by (simp add: orderly_def table_ok_def)
    ultimately show ?thesis using assms(2) by (auto simp: main_at_def heap_upd_thread)
  qed
  ultimately show ?thesis
    using assms(1) queue_states_upd [of s r "saveBuf pt True"] ih(1,2)
    by (simp add: orderly_def table_ok_upd count_ok_upd)
qed

text \<open>The state in which the handler hands the processor over.\<close>

definition preempted :: "ptr \<Rightarrow> ustate \<Rightarrow> ustate" where
  "preempted r s = upd_thread (saveBuf AtHandler True) r (s\<lparr>masked := True\<rparr>)"

lemma preempted_handover: "handover r s \<Longrightarrow> handover r (preempted r s)"
  unfolding preempted_def by (rule orderly_saveBuf) simp_all

lemma preempted_fields [simp]:
  "running (preempted r s) = running s" "all_ready (preempted r s) = all_ready s"
  "ready (preempted r s) = ready s" "blocked (preempted r s) = blocked s"
  "threads (preempted r s) = threads s"
  by (simp_all add: preempted_def)

text \<open>Who runs after a timer tick, and in which state control is handed over.\<close>

definition tick_target :: "ptr \<Rightarrow> ustate \<Rightarrow> ustate" where
  "tick_target r s =
     (if all_ready s = [] then dispatch r (upd_thread (setState READY) r (preempted r s))
      else dispatch (hd (all_ready s)) (requeued r (preempted r s)))"

lemma tick_cases:
  assumes ho: "handover r s" and run: "running s = Some r"
  shows "switchThreads env (preempted r s) = Ok () (tick_target r s) \<or>
         (\<exists>t. switchThreads env (preempted r s) = Exits 1 t)"
    and "uinv (tick_target r s)"
proof -
  note hp = preempted_handover [OF ho]
  show "switchThreads env (preempted r s) = Ok () (tick_target r s) \<or>
         (\<exists>t. switchThreads env (preempted r s) = Exits 1 t)"
    using switch_none [OF hp, of env] switch_some [OF hp, of env] run
    by (auto simp: tick_target_def)
  have "point (t_jmp_buf (heap (preempted r s) ! r)) = AtHandler"
    using handover_in_hand(3) [OF ho] by (simp add: preempted_def heap_upd_thread)
  then show "uinv (tick_target r s)"
    using handover_dispatch [OF orderly_setState [OF hp]] handover_dispatch [OF handover_requeued [OF hp]]
    by (simp add: tick_target_def)
qed

lemma timer_signal_eq:
  assumes "uinv s" and "\<not> masked s" and "running s = Some r"
  shows "timer_signal env s = and_load env (switchThreads env (preempted r s))"
  using assms by (simp add: timer_signal_def timeHandler_def preempted_def uinv_def)

lemma timer_signal_ok: "uinv s \<Longrightarrow> \<not> masked s \<Longrightarrow> switched_ok (timer_signal env s)"
  using timer_signal_eq [of s _ env] tick_cases [of _ s] and_load_ok
  by (metis uinv_handover)

section \<open>Functions that only read\<close>

lemma read_ops_ok:
  assumes "uinv s" and "\<not> masked s"
  shows "step_ok (return_int (uthread_get_tid s))"
    and "step_ok (return_int (Ok (uthread_get_total_quantums s) s))"
    and "step_ok (return_int (uthread_get_quantums tid s))"
  using assms
  by (auto simp: uthread_get_tid_def uthread_get_quantums_def Let_def uinv_def [of s] printError_def
      step_ok_return split: option.splits)

section \<open>Moves of another thread\<close>

definition unready :: "ptr \<Rightarrow> ustate \<Rightarrow> ustate" where
  "unready p s =
     (let q = queue_of (t_pr (heap s ! p)) in s\<lparr>ready := (ready s)(q := remove1 p (ready s q))\<rparr>)"

definition unblocked :: "ptr \<Rightarrow> ustate \<Rightarrow> ustate" where
  "unblocked p s = s\<lparr>blocked := remove1 p (blocked s)\<rparr>"

lemma move_fields [simp]:
  "threads (unready p s) = threads s" "heap (unready p s) = heap s" "running (unready p s) = running s"
  "blocked (unready p s) = blocked s" "masked (unready p s) = masked s" "sa_mask (unready p s) = sa_mask s"
  "threads (unblocked p s) = threads s" "heap (unblocked p s) = heap s" "running (unblocked p s) = running s"
  "ready (unblocked p s) = ready s" "masked (unblocked p s) = masked s" "sa_mask (unblocked p s) = sa_mask s"
  by (simp_all add: unready_def unblocked_def Let_def)

lemma ready_iff:
  assumes "queue_states s"
  shows "p \<in> set (all_ready s) \<longleftrightarrow> p \<in> set (ready s (queue_of (t_pr (heap s ! p))))"
  using assms ready_in_all [OF assms] by (auto simp: all_ready_def queue_states_def)

lemma removeFromReady_eq:
  assumes "om_find (threads s) tid = Some p" and "queue_states s"
  shows "removeFromReady tid s =
    (if p \<in> set (all_ready s) then Ok SUCCESS (unready p s) else Ok FAIL s)"
  using assms ready_iff [OF assms(2)]
  by (simp add: removeFromReady_def translatePriority_queue_of unready_def Let_def)

lemma removeFromBlock_eq:
  assumes "om_find (threads s) tid = Some p"
  shows "removeFromBlock tid s = Ok () (unblocked p s)"
  using assms by (cases s) (simp add: removeFromBlock_def unblocked_def)

lemma queue_states_less:
  assumes "queue_states s" and "\<And>q. set (ready t q) \<subseteq> set (ready s q)"
    and "set (blocked t) \<subseteq> set (blocked s)" and "heap t = heap s"
  shows "queue_states t"
  using assms(1) unfolding queue_states_def assms(4) by (meson assms(2,3) subsetD)

lemma orderly_unready:
  assumes "orderly xs r s" and "p \<in> set (all_ready s)"
  shows "orderly (p # xs) r (unready p s)"
proof -
  have qs: "queue_states s" using assms(1) by (simp add: orderly_def)
  let ?q = "queue_of (t_pr (heap s ! p))"
  have "p \<in> set (ready s ?q)" using assms(2) ready_iff [OF qs] by simp
  then have "mset (ready s ?q) = add_mset p (mset (remove1 p (ready s ?q)))" by simp
  then have "mset (all_ready s) = add_mset p (mset (all_ready (unready p s)))"
    by (cases "t_pr (heap s ! p)") (simp_all add: all_ready_def unready_def)
  moreover have "queue_states (unready p s)"
    by (rule queue_states_less [OF qs]) (simp_all, simp add: unready_def Let_def set_remove1_subset)
  ultimately show ?thesis
    using assms(1) by (simp add: orderly_def placed_def live_def table_ok_def main_at_def count_ok_def)
      (simp add: unready_def Let_def)
qed

lemma orderly_unblocked:
  assumes "orderly xs r s" and "p \<in> set (blocked s)"
  shows "orderly (p # xs) r (unblocked p s)"
proof -
  have "mset (blocked s) = add_mset p (mset (blocked (unblocked p s)))"
    using assms(2) by (simp add: unblocked_def)
  moreover have "queue_states s" using assms(1) by (simp add: orderly_def)
  then have "queue_states (unblocked p s)"
    by (rule queue_states_less) (simp_all, simp add: unblocked_def set_remove1_subset)
  moreover have "all_ready (unblocked p s) = all_ready s" by (simp add: all_ready_def)
  ultimately show ?thesis
    using assms(1) by (simp add: orderly_def placed_def live_def table_ok_def main_at_def count_ok_def)
      (simp add: unblocked_def)
qed

text \<open>A live thread that does not run is ready or blocked, and its state says which.\<close>

lemma other_thread:
  assumes ho: "handover r s" and find: "om_find (threads s) tid = Some p"
    and other: "tid \<noteq> t_tid (heap s ! r)"
  shows "p \<noteq> r" and "p \<in> set (all_ready s) \<or> p \<in> set (blocked s)"
    and "t_tid (heap s ! p) = tid" and "p < length (heap s)"
    and "t_state (heap s ! p) = READY \<longleftrightarrow> p \<in> set (all_ready s)"
    and "p \<in> set (blocked s) \<Longrightarrow> p \<notin> set (all_ready s)"
proof -
  have h: "placed [r] s" "queue_states s" "table_ok s" using ho by (simp_all add: orderly_def)
  show tid: "t_tid (heap s ! p) = tid" and "p < length (heap s)"
    using h(3) find by (simp_all add: table_ok_def)
  show "p \<noteq> r" using tid other by auto
  moreover have "p \<in> set (live s)" using h(3) find live_iff [of s] by (auto simp: table_ok_def)
  ultimately show pl: "p \<in> set (all_ready s) \<or> p \<in> set (blocked s)"
    using placed_set [OF h(1)] by auto
  show "p \<in> set (blocked s) \<Longrightarrow> p \<notin> set (all_ready s)"
    using placed_distinct [OF h(1,3)] by auto
  show "t_state (heap s ! p) = READY \<longleftrightarrow> p \<in> set (all_ready s)"
    using pl h(2) ready_iff [OF h(2), of p] by (auto simp: queue_states_def)
qed

text \<open>The thread is taken out of the place it is in.\<close>

definition withdrawn :: "ptr \<Rightarrow> ustate \<Rightarrow> ustate" where
  "withdrawn p s = (if p \<in> set (all_ready s) then unready p s else unblocked p s)"

lemma withdrawn_fields [simp]:
  "threads (withdrawn p s) = threads s" "heap (withdrawn p s) = heap s"
  "running (withdrawn p s) = running s" "masked (withdrawn p s) = masked s"
  "sa_mask (withdrawn p s) = sa_mask s"
  by (simp_all add: withdrawn_def)

lemma orderly_withdrawn:
  assumes "orderly xs r s" and "p \<in> set (all_ready s) \<or> p \<in> set (blocked s)"
  shows "orderly (p # xs) r (withdrawn p s)"
  using assms orderly_unready [of xs r s p] orderly_unblocked [of xs r s p]
  by (auto simp: withdrawn_def)

lemma all_ready_block_signals [simp]: "all_ready (block_signals s) = all_ready s"
  by (simp add: all_ready_def)

section \<open>Termination\<close>

lemma uinv_orderly:
  assumes "orderly [r] r t" and "running t = Some r" and "t_state (heap t ! r) = RUNNING"
  shows "uinv t"
  using assms by (auto simp: uinv_handover)

lemma terminate_other_eq:
  assumes ho: "handover r s" and run: "running s = Some r" and find: "om_find (threads s) tid = Some p"
    and tid: "tid \<noteq> 0" and other: "tid \<noteq> t_tid (heap s ! r)"
  shows "uthread_terminate env tid s = return_int (Ok SUCCESS (unblock_signals
    ((withdrawn p (block_signals s))\<lparr>threads := om_erase tid (threads s)\<rparr>)))"
proof -
  have find1: "om_find (threads (block_signals s)) tid = Some p" using find by simp
  have "queue_states (block_signals s)"
    using ho by (simp add: orderly_def queue_states_def)
  then have "removeFromReady tid (block_signals s) =
      (if p \<in> set (all_ready s) then Ok SUCCESS (unready p (block_signals s)) else Ok FAIL (block_signals s))"
    using removeFromReady_eq [OF find1] by simp
  then show ?thesis
    using tid other find run other_thread(5) [OF ho find other] removeFromBlock_eq [OF find1]
    by (simp add: uthread_terminate_def terminate_masked_def withdrawn_def Let_def)
qed

lemma uthread_terminate_ok:
  assumes inv: "uinv s" and nm: "\<not> masked s" shows "step_ok (uthread_terminate env tid s)"
proof -
  obtain r where run: "running s = Some r" and ho: "handover r s" and st: "t_state (heap s ! r) = RUNNING"
    using inv by (auto simp: uinv_handover)
  consider "tid = 0" | "tid \<noteq> 0" "om_find (threads s) tid = None"
    | p where "tid \<noteq> 0" "om_find (threads s) tid = Some p" "tid = t_tid (heap s ! r)"
    | p where "tid \<noteq> 0" "om_find (threads s) tid = Some p" "tid \<noteq> t_tid (heap s ! r)"
    by (cases "om_find (threads s) tid") auto
  then show ?thesis
  proof cases
    case 1
    then show ?thesis by (simp add: uthread_terminate_def terminate_masked_def step_ok_def)
  next
    case 2
    then show ?thesis
      using inv nm by (simp add: uthread_terminate_def terminate_masked_def step_ok_return)
  next
    case 3
    have hb: "handover r (block_signals s)" and rb: "running (block_signals s) = Some r"
      and tb: "t_tid (heap (block_signals s) ! r) \<noteq> 0" using ho run 3 by simp_all
    have "switched_ok (and_load env (terminate_self env tid r (block_signals s)))"
      using terminate_self_step [OF hb rb tb, of env] 3
      by (intro and_load_ok [OF _ handover_dispatch [OF departed_handover [OF hb tb]]]) simp
    then show ?thesis using 3 run by (simp add: uthread_terminate_def terminate_masked_def Let_def switched_step)
  next
    case 4
    note o = other_thread [OF ho 4(2,3)]
    let ?t = "(withdrawn p (block_signals s))\<lparr>threads := om_erase tid (threads s)\<rparr>"
    have "orderly [p, r] r (withdrawn p (block_signals s))"
      using orderly_withdrawn [of "[r]" r "block_signals s" p] ho o(2) by simp
    then have "orderly [r] r ?t"
      using orderly_forget [of p "[r]" r "withdrawn p (block_signals s)"] o(3) 4(1) by simp
    then have "uinv (unblock_signals ?t)" using run st by (simp add: uinv_orderly [of r])
    moreover have "sa_mask s" using ho by (simp add: orderly_def)
    then have "\<not> masked (unblock_signals ?t)" by simp
    ultimately show ?thesis
      using terminate_other_eq [OF ho run 4(2,1,3), of env] step_ok_return by (simp only:)
  qed
qed

section \<open>Suspending and resuming\<close>

lemma suspend_other_eq:
  assumes ho: "handover r s" and run: "running s = Some r" and find: "om_find (threads s) tid = Some p"
    and tid: "tid \<noteq> 0" and other: "tid \<noteq> t_tid (heap s ! r)"
  shows "uthread_suspend env tid s = return_int
    (if p \<in> set (all_ready s)
     then let t = upd_thread (setState BLOCK) p (unready p (block_signals s))
          in Ok SUCCESS (unblock_signals (t\<lparr>blocked := blocked t @ [p]\<rparr>))
     else Ok FAIL (unblock_signals (block_signals s)))"
proof -
  have "queue_states (block_signals s)"
    using ho by (simp add: orderly_def queue_states_def)
  then have "removeFromReady (t_tid (heap s ! p)) (block_signals s) =
      (if p \<in> set (all_ready s) then Ok SUCCESS (unready p (block_signals s)) else Ok FAIL (block_signals s))"
    using removeFromReady_eq [of "block_signals s"] find other_thread(3) [OF ho find other] by simp
  then show ?thesis using tid other find run by (simp add: uthread_suspend_def suspend_masked_def Let_def)
qed

lemma orderly_suspended:
  assumes ho: "handover r s" and find: "om_find (threads s) tid = Some p"
    and tid: "tid \<noteq> 0" and other: "tid \<noteq> t_tid (heap s ! r)" and rdy: "p \<in> set (all_ready s)"
  defines "t \<equiv> upd_thread (setState BLOCK) p (unready p s)"
  shows "handover r (t\<lparr>blocked := blocked t @ [p]\<rparr>)"
proof (rule orderly_block)
  note o = other_thread [OF ho find other]
  show "orderly (p # [r]) r t"
    unfolding t_def by (rule orderly_setState [OF orderly_unready [OF ho rdy]])
  show "t_state (heap t ! p) = BLOCK" "t_tid (heap t ! p) \<noteq> 0"
    using o(3,4) tid by (simp_all add: t_def heap_upd_thread)
qed

lemma uthread_suspend_ok:
  assumes inv: "uinv s" and nm: "\<not> masked s" shows "step_ok (uthread_suspend env tid s)"
proof -
  obtain r where run: "running s = Some r" and ho: "handover r s" and st: "t_state (heap s ! r) = RUNNING"
    using inv by (auto simp: uinv_handover)
  have sa: "sa_mask s" using ho by (simp add: orderly_def)
  consider "tid = 0 \<or> om_find (threads s) tid = None"
    | p where "tid \<noteq> 0" "om_find (threads s) tid = Some p" "tid = t_tid (heap s ! r)"
    | p where "tid \<noteq> 0" "om_find (threads s) tid = Some p" "tid \<noteq> t_tid (heap s ! r)"
    by (cases "om_find (threads s) tid") auto
  then show ?thesis
  proof cases
    case 1
    then show ?thesis using inv nm
      by (cases "tid = 0") (simp_all add: uthread_suspend_def suspend_masked_def step_ok_return)
  next
    case 2
    let ?s1 = "upd_thread (saveBuf AtSuspend True) r (block_signals s)"
    have hs: "handover r ?s1" and tid: "t_tid (heap ?s1 ! r) \<noteq> 0" and rs: "running ?s1 = Some r"
      using orderly_saveBuf [of r "[]" "block_signals s" AtSuspend] ho 2 run
      by (simp_all add: heap_upd_field [where f = t_tid])
    have "switched_ok (and_load env (suspend_self env ?s1))"
      by (rule and_load_ok [OF suspend_self_step(1) [OF hs rs tid]
            handover_dispatch [OF suspend_self_step(2) [OF hs rs tid]]])
    then show ?thesis using 2 run sa by (simp add: uthread_suspend_def suspend_masked_def Let_def switched_step)
  next
    case 3
    let ?t = "upd_thread (setState BLOCK) p (unready p (block_signals s))"
    have "uinv (unblock_signals (?t\<lparr>blocked := blocked ?t @ [p]\<rparr>))" if "p \<in> set (all_ready s)"
    proof -
      have "handover r (?t\<lparr>blocked := blocked ?t @ [p]\<rparr>)"
        using orderly_suspended [of r "block_signals s" tid p] ho 3 that by simp
      then show ?thesis
        using run st other_thread(1) [OF ho 3(2,3)] by (simp add: uinv_orderly [of r] heap_upd_thread)
    qed
    then show ?thesis
      using suspend_other_eq [OF ho run 3(2,1,3), of env] inv nm sa
      by (simp add: step_ok_return Let_def)
  qed
qed

text \<open>A blocked thread goes to the end of the queue of its priority.\<close>

definition awakened :: "ptr \<Rightarrow> ustate \<Rightarrow> ustate" where
  "awakened p s =
     unblocked p (push_ready (queue_of (t_pr (heap s ! p))) p (upd_thread (setState READY) p s))"

lemma resume_blocked_eq:
  assumes find: "om_find (threads s) tid = Some p" and bl: "p \<in> set (blocked s)"
  shows "uthread_resume tid s = Ok SUCCESS (unblock_signals (awakened p (block_signals s)))"
proof -
  let ?s3 = "addToReady (Some p) (upd_thread (setState READY) p (block_signals s))"
  have "?s3 = push_ready (queue_of (t_pr (heap s ! p))) p (upd_thread (setState READY) p (block_signals s))"
    unfolding addToReady_Some by (simp add: heap_upd_field [where f = t_pr])
  moreover from this have "removeFromBlock tid ?s3 = Ok () (unblocked p ?s3)"
    using find by (intro removeFromBlock_eq) simp
  ultimately show ?thesis
    using find bl by (simp add: uthread_resume_def resume_masked_def Let_def awakened_def del: addToReady.simps)
qed

lemma awakened_swap:
  "awakened p s =
     push_ready (queue_of (t_pr (heap s ! p))) p (upd_thread (setState READY) p (unblocked p s))"
  by (cases s) (simp add: awakened_def unblocked_def push_ready_def upd_thread_def)

lemma orderly_awakened:
  assumes ho: "orderly xs r s" and bl: "p \<in> set (blocked s)"
  shows "orderly xs r (awakened p s)"
proof -
  let ?t = "upd_thread (setState READY) p (unblocked p s)"
  have t: "orderly (p # xs) r ?t" by (rule orderly_setState [OF orderly_unblocked [OF ho bl]])
  have "t_state (heap ?t ! p) = READY" "t_pr (heap ?t ! p) = t_pr (heap s ! p)"
    using orderly_in_hand(3) [OF t] by (simp_all add: heap_upd_thread)
  then show ?thesis using orderly_push [OF t] by (simp add: awakened_swap)
qed

lemma uthread_resume_ok:
  assumes inv: "uinv s" and nm: "\<not> masked s" shows "step_ok (return_int (uthread_resume tid s))"
proof -
  obtain r where run: "running s = Some r" and ho: "handover r s" and st: "t_state (heap s ! r) = RUNNING"
    using inv by (auto simp: uinv_handover)
  show ?thesis
  proof (cases "\<exists>p. om_find (threads s) tid = Some p \<and> p \<in> set (blocked s)")
    case True
    then obtain p where p: "om_find (threads s) tid = Some p" "p \<in> set (blocked s)" by blast
    let ?t = "awakened p (block_signals s)"
    have "p \<noteq> r" using handover_in_hand(2) [OF ho] p(2) by auto
    then have "t_state (heap ?t ! r) = RUNNING" "running ?t = Some r" "sa_mask ?t"
      using st run ho by (simp_all add: awakened_def heap_upd_thread orderly_def)
    moreover have "handover r ?t" using orderly_awakened [of "[r]" r "block_signals s" p] ho p(2) by simp
    ultimately show ?thesis
      using resume_blocked_eq [OF p] by (simp add: step_ok_return uinv_orderly [of r])
  next
    case False
    then show ?thesis using inv nm
      by (cases "om_find (threads s) tid") (auto simp: uthread_resume_def resume_masked_def step_ok_return)
  qed
qed

section \<open>Spawning\<close>

lemma queue_states_cong:
  assumes qs: "queue_states s" and views: "ready t = ready s" "blocked t = blocked s"
    and same: "\<And>p q. p \<in> set (ready s q) \<or> p \<in> set (blocked s) \<Longrightarrow> heap t ! p = heap s ! p"
  shows "queue_states t"
  unfolding queue_states_def views
proof (intro conjI allI ballI)
  fix q p assume p: "p \<in> set (ready s q)"
  then have "heap t ! p = heap s ! p" by (blast intro: same)
  then show "t_state (heap t ! p) = READY" "queue_of (t_pr (heap t ! p)) = q"
    using qs p by (auto simp: queue_states_def)
next
  fix p assume p: "p \<in> set (blocked s)"
  then have "heap t ! p = heap s ! p" by (blast intro: same)
  then show "t_state (heap t ! p) = BLOCK" "t_tid (heap t ! p) \<noteq> 0"
    using qs p by (auto simp: queue_states_def)
qed

text \<open>A new thread object is allocated and entered in the table.\<close>

definition enrolled :: "sys \<Rightarrow> 64 word \<Rightarrow> priority \<Rightarrow> ustate \<Rightarrow> ustate" where
  "enrolled env f pr s =
     s\<lparr>heap := heap s @ [new_thread (guard env) (stack_at env (length (heap s))) (getNextId s) pr f READY],
       threads := om_insert (getNextId s) (length (heap s)) (threads s)\<rparr>"

lemma spawn_masked_eq:
  assumes "running s \<noteq> None"
  shows "spawn_masked env f pr s = Ok (getNextId s)
    (unblock_signals (push_ready (queue_of pr) (length (heap s)) (enrolled env f pr (block_signals s))))"
proof -
  have "getNextId (block_signals s) = getNextId s" by (simp add: getNextId_def)
  then show ?thesis
    using assms by (auto simp: spawn_masked_def Let_def enrolled_def addToReady_Some simp del: addToReady.simps)
qed

lemma spawn_eq:
  assumes "running s \<noteq> None" and "length (threads s) \<noteq> MAX_THREAD_NUM"
  shows "uthread_spawn env f pr s = Ok (getNextId s)
    (unblock_signals (push_ready (queue_of pr) (length (heap s)) (enrolled env f pr (block_signals s))))"
  using assms by (simp add: uthread_spawn_def spawn_masked_eq)

lemma orderly_enrolled:
  assumes ord: "orderly xs r s"
  shows "orderly (length (heap s) # xs) r (enrolled env f pr s)"
proof -
  let ?t = "enrolled env f pr s" and ?n = "length (heap s)"
  have h: "placed xs s" "queue_states s" "table_ok s" "main_at r s"
    using ord by (simp_all add: orderly_def)
  have ok: "om_ok (threads s)" using h(3) by (simp add: table_ok_def)
  have "getNextId s \<notin> set (om_keys (threads s))" by (rule tids.next_fresh [OF table_ids_ok [OF h(3)]])
  then have fresh: "om_find (threads s) (getNextId s) = None" using om.keys_find [OF ok] by simp
  have old: "p \<in> set (live s) \<Longrightarrow> heap ?t ! p = heap s ! p" for p
    using table_live(1) [OF h(3)] by (simp add: enrolled_def nth_append)
  have new: "heap ?t ! ?n = new_thread (guard env) (stack_at env ?n) (getNextId s) pr f READY"
    by (simp add: enrolled_def)
  have views: "ready ?t = ready s" "blocked ?t = blocked s" "all_ready ?t = all_ready s"
    by (simp_all add: enrolled_def all_ready_def)
  have "placed (?n # xs) ?t"
    using h(1) arg_cong [OF mset_om_insert [OF fresh, of ?n], of "image_mset snd"]
    by (simp add: placed_def views) (simp add: live_def enrolled_def)
  moreover have "queue_states ?t"
  proof -
    have "heap ?t ! p = heap s ! p" if "p \<in> set (ready s q) \<or> p \<in> set (blocked s)" for p q
      using that ready_in_all [OF h(2)] placed_set [OF h(1)] by (intro old) auto
    then show ?thesis by (intro queue_states_cong [OF h(2) views(1,2)])
  qed
  moreover have "table_ok ?t"
  proof -
    have "om_find (threads ?t) k = Some p \<longleftrightarrow>
        (k = getNextId s \<and> p = ?n \<or> om_find (threads s) k = Some p)" for k p
      using fresh by (auto simp: enrolled_def om.find_ins_new [OF ok])
    moreover have "om_find (threads s) k = Some p \<Longrightarrow> p \<in> set (live s)" for k p
      using live_iff [OF ok] by blast
    moreover have "0 \<le> getNextId s" by (rule tids.next_nonneg [OF table_ids_ok [OF h(3)]])
    ultimately show ?thesis
      using h(3) old new by (auto simp: table_ok_def om.invar_ins enrolled_def intro: less_SucI)
  qed
  moreover have "main_at r ?t"
  proof -
    from h(4) obtain m where m: "om_find (threads s) 0 = Some m" by (auto simp: main_at_def)
    then have "heap ?t ! m = heap s ! m" using live_iff [OF ok] old by blast
    moreover have "om_find (threads ?t) 0 = Some m"
      using m fresh by (auto simp: enrolled_def om.find_ins_new [OF ok])
    ultimately show ?thesis using h(4) m by (simp add: main_at_def)
  qed
  ultimately show ?thesis
    using ord by (simp add: orderly_def) (simp add: enrolled_def count_ok_def buf_ok_def)
qed

lemma spawn_masked_ok:
  assumes inv: "uinv s" and nm: "\<not> masked s" shows "step_ok (return_int (spawn_masked env f pr s))"
proof -
  obtain r where run: "running s = Some r" and ho: "handover r s" and st: "t_state (heap s ! r) = RUNNING"
    using inv by (auto simp: uinv_handover)
  let ?n = "length (heap s)" and ?e = "enrolled env f pr (block_signals s)"
  have e: "orderly [?n, r] r ?e" using orderly_enrolled [of "[r]" r "block_signals s"] ho by simp
  have new: "t_state (heap ?e ! ?n) = READY" "t_pr (heap ?e ! ?n) = pr"
    by (simp_all add: enrolled_def)
  have "handover r (push_ready (queue_of pr) ?n ?e)" using orderly_push [OF e] new by simp
  moreover have "heap ?e ! r = heap s ! r"
    using handover_in_hand(3) [OF ho] by (simp add: enrolled_def nth_append)
  moreover have "running ?e = running s" "masked ?e = sa_mask s" "sa_mask ?e" using ho nm
    by (simp_all add: enrolled_def orderly_def)
  ultimately show ?thesis
    using spawn_masked_eq [of s env f pr] run st by (simp add: step_ok_return uinv_orderly [of r])
qed

lemma uthread_spawn_ok:
  assumes "uinv s" and "\<not> masked s" shows "step_ok (return_int (uthread_spawn env f pr s))"
  using assms spawn_masked_ok [OF assms] by (simp add: uthread_spawn_def step_ok_return)

section \<open>Initialisation and the contract of the library\<close>

text \<open>The state after a successful initialisation.\<close>

definition started :: "sys \<Rightarrow> int \<Rightarrow> ustate" where
  "started env q =
     \<lparr>ready = (\<lambda>_. []), blocked = [], running = Some 0, threads = [(0, 0)], quantum_counter = 1,
      timer = \<lparr>value_sec = q div MICRO_TO_SECOND, value_usec = q mod MICRO_TO_SECOND,
               interval_sec = q div MICRO_TO_SECOND, interval_usec = q mod MICRO_TO_SECOND\<rparr>,
      handler_set = True, sa_mask = True, masked = False, armed = 1, errlog = [],
      heap = [increaseQuantom (setState RUNNING
                (new_thread (guard env) (stack_at env 0) 0 ORANGE 0 READY))]\<rparr>"

lemma uthread_init_started:
  assumes "q > 0" and "sigemptyset_ret env \<noteq> FAIL" and "sigaddset_ret env = 0"
    and "sigaction_ret env \<noteq> FAIL" and "setitimer_ret env 0 \<noteq> FAIL"
  shows "uthread_init env q initial_ustate = Ok SUCCESS (started env q)"
  using assms
  by (simp add: uthread_init_def initial_ustate_def started_def setTime_def upd_thread_def)

lemma uthread_init_success:
  assumes "uthread_init env q initial_ustate = Ok SUCCESS s"
  shows "s = started env q"
proof -
  have q: "\<not> q \<le> 0" using assms by (auto simp: uthread_init_def)
  have e1: "sigemptyset_ret env \<noteq> FAIL" using assms q by (auto simp: uthread_init_def)
  have e2: "sigaddset_ret env = 0"
    using assms q e1 by (cases "sigaddset_ret env = 0") (simp_all add: uthread_init_def Let_def)
  have e3: "sigaction_ret env \<noteq> FAIL"
    using assms q e1 e2 by (cases "sigaction_ret env = FAIL") (simp_all add: uthread_init_def Let_def)
  have e4: "setitimer_ret env 0 \<noteq> FAIL"
    using assms q e1 e2 e3 by (cases "setitimer_ret env 0 = FAIL")
      (simp_all add: uthread_init_def setTime_def upd_thread_def initial_ustate_def)
  have "uthread_init env q initial_ustate = Ok SUCCESS (started env q)"
    by (rule uthread_init_started) (use q e1 e2 e3 e4 in simp_all)
  then show ?thesis using assms by simp
qed

lemma uinv_started: "uinv (started env q)" "\<not> masked (started env q)"
  by (simp_all add: started_def uinv_def placed_def live_def all_ready_def queue_states_def
      table_ok_def MAX_THREAD_NUM_def main_ok_def count_ok_def buf_ok_def)

lemma uexec_ok: "uinv s \<Longrightarrow> \<not> masked s \<Longrightarrow> step_ok (uexec env e s)"
  by (cases e) (simp_all add: uthread_spawn_ok uthread_terminate_ok uthread_suspend_ok
      uthread_resume_ok read_ops_ok switched_step timer_signal_ok)

interpretation uth: event_system "uexec env" "\<lambda>s. uinv s \<and> \<not> masked s" "\<lambda>_. True" for env
proof unfold_locales
  fix s e assume "uinv s \<and> \<not> masked s"
  then have ok: "step_ok (uexec env e s)" by (simp add: uexec_ok)
  then show "\<exists>x. uexec env e s = Some x" by (auto simp: step_ok_def)
  show "\<not> is_fault x" if "uexec env e s = Some x" for x using ok that by (auto simp: step_ok_def)
  show "uinv t \<and> \<not> masked t" if "uexec env e s = Some (Ok c t)" for c t
    using ok that by (auto simp: step_ok_def)
qed

lemma ureachable_ok: "ureachable env s \<Longrightarrow> uinv s \<and> \<not> masked s"
proof (induction rule: ureachable.induct)
  case (init q s)
  then show ?case using uthread_init_success uinv_started by metis
next
  case (step s e c t)
  show ?case by (rule uth.exec_invar [OF step.IH TrueI step.hyps(2)])
qed

end
