(* ===== verification/Uthreads_Sched.thy ===== *)
theory Uthreads_Sched
  imports Uthreads_Ops
begin

text \<open>
  What the scheduler does, tick by tick, and the demonstration runs the witnesses use. The
  facts are about states that satisfy the invariant; \<open>timer_works\<close> is the one assumption about
  the operating system: \<open>setitimer\<close> does not fail. (It is called with a microsecond part below
  a million, the only argument error it has.)
\<close>

definition timer_works :: "sys \<Rightarrow> bool" where
  "timer_works env \<longleftrightarrow> (\<forall>n. setitimer_ret env n \<noteq> FAIL)"

section \<open>With a working timer nothing exits\<close>

lemma setTime_works [simp]:
  "timer_works env \<Longrightarrow> setTime env s = Ok () (s\<lparr>armed := Suc (armed s)\<rparr>)"
  by (simp add: setTime_def timer_works_def)

lemma runThread_no_exit: "timer_works env \<Longrightarrow> runThread env s \<noteq> Exits c t"
  by (auto simp: runThread_def Let_def split: prod.splits option.splits)

lemma switchThreads_no_exit: "timer_works env \<Longrightarrow> switchThreads env s \<noteq> Exits c t"
  using runThread_no_exit [of env] by (auto simp: switchThreads_def Let_def and_then_eq_Exits_iff)

lemma suspend_self_no_exit: "timer_works env \<Longrightarrow> suspend_self env s \<noteq> Exits c t"
  using runThread_no_exit [of env] by (auto simp: suspend_self_def Let_def split: option.splits)

lemma loadBuf_no_exit:
  assumes works: "timer_works env" and ret: "loadBuf env s = Some x"
  shows "\<forall>c t. x \<noteq> Exits c t"
proof (rule loadBuf.raw_induct [where P = "\<lambda>env s x. timer_works env \<longrightarrow> (\<forall>c t. x \<noteq> Exits c t)",
      OF _ ret, THEN mp, OF _ works])
  fix f env s and x :: "control ures"
  assume IH: "\<And>env s x. f env s = Some x \<Longrightarrow> timer_works env \<longrightarrow> (\<forall>c t. x \<noteq> Exits c t)"
    and eq: "(case running s of
        None \<Rightarrow> Some (Faults NullDeref)
      | Some r \<Rightarrow>
          (let buf = t_jmp_buf (heap s ! r); s1 = s\<lparr>masked := saved_mask buf\<rparr>
           in case point buf of
                AtEntry sp pc \<Rightarrow> Some (Ok Switched s1)
              | AtHandler \<Rightarrow> Some (Ok Switched (s1\<lparr>masked := False\<rparr>))
              | AtSuspend \<Rightarrow>
                  (case suspend_self env s1 of
                     Ok u s2 \<Rightarrow> f env s2
                   | Exits c s2 \<Rightarrow> Some (Exits c s2)
                   | Faults e \<Rightarrow> Some (Faults e)))) = Some x"
  then show "timer_works env \<longrightarrow> (\<forall>c t. x \<noteq> Exits c t)"
    using suspend_self_no_exit [of env]
    by (auto simp: Let_def split: option.splits point.splits outcome.splits)
qed

lemma and_load_no_exit:
  assumes "timer_works env" and "\<And>c t. m \<noteq> Exits c t"
  shows "and_load env m \<noteq> Some (Exits c t)"
  using assms(2) by (cases m) (auto simp: and_load_def dest!: loadBuf_no_exit [OF assms(1)])

lemma removal_no_exit: "removeFromReady tid s \<noteq> Exits c t" "removeFromBlock tid s \<noteq> Exits c' t'"
  by (auto simp: removeFromReady_def removeFromBlock_def Let_def split: option.splits)

lemma terminate_self_no_exit: "timer_works env \<Longrightarrow> terminate_self env tid r s \<noteq> Exits c t"
  using switchThreads_no_exit [of env]
  by (auto simp: terminate_self_def and_then_eq_Exits_iff removal_no_exit)

lemma return_int_no_exit: "(\<And>c t. m \<noteq> Exits c t) \<Longrightarrow> return_int m \<noteq> Some (Exits c t)"
  by (auto simp: return_int_def and_then_eq_Exits_iff)

lemma uexec_no_exit:
  assumes works: "timer_works env" and e: "e \<noteq> Terminate 0"
  shows "uexec env e s \<noteq> Some (Exits c t)"
proof (cases e)
  case (Spawn f pr)
  then show ?thesis using runThread_no_exit [OF works]
    by (auto simp: uthread_spawn_def spawn_masked_def Let_def and_then_eq_Exits_iff intro!: return_int_no_exit)
next
  case (Terminate tid)
  then show ?thesis
    using e and_load_no_exit [OF works] terminate_self_no_exit [OF works]
    by (auto simp: uthread_terminate_def terminate_masked_def Let_def and_then_eq_Exits_iff removal_no_exit
        intro!: return_int_no_exit split: option.splits)
next
  case (Suspend tid)
  then show ?thesis
    using and_load_no_exit [OF works] suspend_self_no_exit [OF works]
    by (auto simp: uthread_suspend_def suspend_masked_def Let_def and_then_eq_Exits_iff removal_no_exit
        intro!: return_int_no_exit split: option.splits if_splits)
next
  case (Resume tid)
  then show ?thesis
    by (auto simp: uthread_resume_def resume_masked_def Let_def and_then_eq_Exits_iff removal_no_exit
        intro!: return_int_no_exit split: option.splits)
next
  case Timer
  then show ?thesis
    using and_load_no_exit [OF works] switchThreads_no_exit [OF works]
    by (auto simp: timer_signal_def timeHandler_def split: option.splits)
qed (auto simp: uthread_get_tid_def uthread_get_quantums_def Let_def
    intro!: return_int_no_exit split: option.splits)

section \<open>One tick\<close>

lemma loadBuf_direct:
  assumes "running s = Some r" and "buf_ok (heap s ! r)"
    and "point (t_jmp_buf (heap s ! r)) \<noteq> AtSuspend"
  shows "loadBuf env s = Some (Ok Switched (s\<lparr>masked := False\<rparr>))"
  using assms by (cases "point (t_jmp_buf (heap s ! r))") (auto simp: loadBuf.simps buf_ok_def Let_def)

lemma loadBuf_suspended:
  assumes "running s = Some r" and "point (t_jmp_buf (heap s ! r)) = AtSuspend"
    and "suspend_self env (s\<lparr>masked := saved_mask (t_jmp_buf (heap s ! r))\<rparr>) = Ok () t"
  shows "loadBuf env s = loadBuf env t"
  using assms by (simp add: loadBuf.simps [of env s] Let_def)

text \<open>The queues after the processor has moved from \<open>r\<close> to the first ready thread.\<close>

definition rotated :: "ptr \<Rightarrow> ustate \<Rightarrow> nat \<Rightarrow> ptr list" where
  "rotated r s =
     (let rest = (ready s)(first_queue s := tl (ready s (first_queue s)));
          q = queue_of (t_pr (heap s ! r))
      in rest(q := rest q @ [r]))"

lemma tick_target_fields:
  assumes "all_ready s \<noteq> []"
  shows "running (tick_target r s) = Some (hd (all_ready s))"
    and "ready (tick_target r s) = rotated r s"
    and "blocked (tick_target r s) = blocked s"
    and "threads (tick_target r s) = threads s"
    and "quantum_counter (tick_target r s) = quantum_counter s + 1"
  using assms
  by (simp_all add: tick_target_def dispatch_def requeued_def rotated_def Let_def popped_def first_queue_def
      heap_upd_field [where f = t_pr] preempted_def)

lemma tick_target_heap:
  fixes f :: "thread \<Rightarrow> 'a"
  assumes "\<And>th. f (increaseQuantom th) = f th" and "\<And>st th. f (setState st th) = f th"
    and "\<And>pt m th. f (saveBuf pt m th) = f th"
  shows "f (heap (tick_target r s) ! p) = f (heap s ! p)"
  using assms
  by (simp add: tick_target_def dispatch_def requeued_def preempted_def heap_upd_field [where f = f])

lemma tick_target_point:
  assumes "p \<noteq> r"
  shows "t_jmp_buf (heap (tick_target r s) ! p) = t_jmp_buf (heap s ! p)"
  using assms
  by (simp add: tick_target_def dispatch_def requeued_def preempted_def
      heap_upd_field [where f = t_jmp_buf] heap_upd_thread)

lemma tick_target_point_self:
  assumes "r < length (heap s)"
  shows "point (t_jmp_buf (heap (tick_target r s) ! r)) = AtHandler"
  using assms
  by (simp add: tick_target_def dispatch_def requeued_def preempted_def
      heap_upd_field [where f = t_jmp_buf] heap_upd_thread)

lemma tick_target_quantum:
  assumes "handover r s" and "all_ready s \<noteq> []"
  shows "t_quantom (heap (tick_target r s) ! hd (all_ready s)) = t_quantom (heap s ! hd (all_ready s)) + 1"
proof -
  have "hd (all_ready s) \<in> set (live s)"
    using assms placed_set [of "[r]" s] by (cases "all_ready s") (auto simp: orderly_def)
  then have "hd (all_ready s) < length (heap s)"
    using assms(1) table_live(1) by (auto simp: orderly_def)
  then show ?thesis
    using assms(2) by (simp add: tick_target_def dispatch_def requeued_def preempted_def heap_upd_thread
        heap_upd_field [where f = t_quantom])
qed

lemma tick_step:
  assumes inv: "uinv s" "\<not> masked s" and works: "timer_works env"
    and run: "running s = Some r" and ne: "all_ready s \<noteq> []"
    and pt: "point (t_jmp_buf (heap s ! hd (all_ready s))) \<noteq> AtSuspend"
  shows "uexec env Timer s = Some (Ok Switched ((tick_target r s)\<lparr>masked := False\<rparr>))"
proof -
  have ho: "handover r s" using inv(1) run by (auto simp: uinv_handover)
  let ?t = "tick_target r s" and ?p = "hd (all_ready s)"
  have sw: "switchThreads env (preempted r s) = Ok () ?t"
    using tick_cases(1) [OF ho run, of env] switchThreads_no_exit [OF works] by auto
  have t: "uinv ?t" by (rule tick_cases(2) [OF ho run])
  have rt: "running ?t = Some ?p" by (rule tick_target_fields [OF ne])
  have "?p \<noteq> r" using handover_in_hand(1) [OF ho] ne hd_in_set by metis
  then have "point (t_jmp_buf (heap ?t ! ?p)) \<noteq> AtSuspend" using pt by (simp add: tick_target_point)
  moreover have "buf_ok (heap ?t ! ?p)"
    using t rt handover_in_hand(3) [of ?p ?t] by (auto simp: uinv_handover orderly_def)
  ultimately have "loadBuf env ?t = Some (Ok Switched (?t\<lparr>masked := False\<rparr>))"
    by (intro loadBuf_direct [OF rt])
  then show ?thesis
    using timer_signal_eq [OF inv run, of env] by (simp add: sw and_load_def)
qed

text \<open>Nobody else is ready: the running thread gets another quantum.\<close>

lemma tick_alone:
  assumes inv: "uinv s" "\<not> masked s" and works: "timer_works env"
    and run: "running s = Some r" and none: "all_ready s = []"
  shows "uexec env Timer s = Some (Ok Switched ((tick_target r s)\<lparr>masked := False\<rparr>))"
    and "running (tick_target r s) = Some r"
    and "ready (tick_target r s) = ready s" and "blocked (tick_target r s) = blocked s"
    and "quantum_counter (tick_target r s) = quantum_counter s + 1"
proof -
  have ho: "handover r s" using inv(1) run by (auto simp: uinv_handover)
  let ?t = "tick_target r s"
  have sw: "switchThreads env (preempted r s) = Ok () ?t"
    using tick_cases(1) [OF ho run, of env] switchThreads_no_exit [OF works] by auto
  have t: "uinv ?t" by (rule tick_cases(2) [OF ho run])
  show rt: "running ?t = Some r" and "ready ?t = ready s" and "blocked ?t = blocked s"
    and "quantum_counter ?t = quantum_counter s + 1"
    using none by (simp_all add: tick_target_def dispatch_def) (simp add: preempted_def)
  have "point (t_jmp_buf (heap ?t ! r)) \<noteq> AtSuspend"
    using tick_target_point_self handover_in_hand(3) [OF ho] by simp
  moreover have "buf_ok (heap ?t ! r)"
    using t rt handover_in_hand(3) [of r ?t] by (auto simp: uinv_handover orderly_def)
  ultimately have "loadBuf env ?t = Some (Ok Switched (?t\<lparr>masked := False\<rparr>))"
    by (intro loadBuf_direct [OF rt])
  then show "uexec env Timer s = Some (Ok Switched (?t\<lparr>masked := False\<rparr>))"
    using timer_signal_eq [OF inv run, of env] by (simp add: sw and_load_def)
qed

section \<open>Where a thread continues\<close>

text \<open>
  Only \<open>saveBuf\<close> writes a jump buffer, and it writes the running thread's. What follows tracks
  the buffers of all threads through every operation.
\<close>

definition same_bufs :: "ustate \<Rightarrow> ustate \<Rightarrow> bool" where
  "same_bufs s t \<longleftrightarrow>
     length (heap s) \<le> length (heap t) \<and>
     (\<forall>p < length (heap s). t_jmp_buf (heap t ! p) = t_jmp_buf (heap s ! p))"

lemma same_bufs_trans: "same_bufs s t \<Longrightarrow> same_bufs t u \<Longrightarrow> same_bufs s u"
  by (auto simp: same_bufs_def)

lemma same_bufs_heap: "heap t = heap s \<Longrightarrow> same_bufs s t"
  by (simp add: same_bufs_def)

lemma same_bufs_upd:
  "(\<And>th. t_jmp_buf (g th) = t_jmp_buf th) \<Longrightarrow> same_bufs s (upd_thread g p s)"
  by (simp add: same_bufs_def heap_upd_field [where f = t_jmp_buf])

lemma popReady_heap: "heap (snd (popReady s)) = heap s" "blocked (snd (popReady s)) = blocked s"
  by (simp_all add: popReady_def getReady_def)

lemma setTime_Ok: "setTime env s = Ok u t \<Longrightarrow> t = s\<lparr>armed := Suc (armed s)\<rparr>"
  by (simp add: setTime_def Let_def split: if_splits)

lemma runThread_bufs:
  assumes "runThread env s = Ok u t"
  shows "same_bufs s t" and "blocked t = blocked s"
proof -
  obtain tmp s1 where pop: "popReady s = (tmp, s1)" by (cases "popReady s")
  let ?s2 = "if tmp \<noteq> None then s1\<lparr>running := tmp\<rparr> else s1"
  have h: "heap ?s2 = heap s" "blocked ?s2 = blocked s" using pop popReady_heap [of s] by simp_all
  obtain r where t: "t = (upd_thread (increaseQuantom \<circ> setState RUNNING) r ?s2)
      \<lparr>quantum_counter := quantum_counter ?s2 + 1, armed := Suc (armed ?s2)\<rparr>"
    using assms unfolding runThread_def pop Let_def prod.case upd_thread_twice
    by (auto dest!: setTime_Ok split: option.splits)
  show "blocked t = blocked s" using h by (simp add: t)
  show "same_bufs s t" unfolding same_bufs_def t
    using h(1) by (simp add: heap_upd_field [where f = t_jmp_buf])
qed

lemma addToReady_bufs: "same_bufs s (addToReady tmp s)"
  by (cases tmp) (simp_all add: same_bufs_heap addToReady_Some del: addToReady.simps(2))

lemma switchThreads_bufs:
  assumes "switchThreads env s = Ok u t" shows "same_bufs s t"
proof -
  let ?s1 = "case running s of None \<Rightarrow> s | Some p \<Rightarrow> upd_thread (setState READY) p s"
  have s1: "same_bufs s ?s1"
    by (simp add: same_bufs_heap same_bufs_upd split: option.split)
  obtain s2 where run: "runThread env ?s1 = Ok () s2" and t: "t = s2 \<or> t = addToReady (running s) s2"
    using assms by (auto simp: switchThreads_def Let_def and_then_eq_Ok_iff split: if_splits)
  have "same_bufs s2 t" using t addToReady_bufs same_bufs_heap by auto
  then show ?thesis using s1 runThread_bufs(1) [OF run] same_bufs_trans by blast
qed

lemma suspend_self_bufs:
  assumes "suspend_self env s = Ok u t"
  shows "same_bufs s t" and "set (blocked s) \<subseteq> set (blocked t)"
    and "running s = Some r \<Longrightarrow> r \<in> set (blocked t)"
proof -
  obtain r' where r': "running s = Some r'" using assms by (auto simp: suspend_self_def split: option.splits)
  let ?s2 = "(upd_thread (setState BLOCK) r' s)\<lparr>blocked := blocked s @ [r'], running := None\<rparr>"
  have run: "runThread env ?s2 = Ok u t" using assms by (simp add: suspend_self_def r' Let_def)
  have "same_bufs s ?s2" using same_bufs_upd [of "setState BLOCK" s r'] by (simp add: same_bufs_def)
  then show "same_bufs s t" using runThread_bufs(1) [OF run] by (rule same_bufs_trans)
  show "set (blocked s) \<subseteq> set (blocked t)" "running s = Some r \<Longrightarrow> r \<in> set (blocked t)"
    using runThread_bufs(2) [OF run] r' by auto
qed

text \<open>
  After a context switch every buffer is as before, whoever was blocked still is, and the
  thread that runs did not suspend itself.
\<close>

definition resumes_well :: "ustate \<Rightarrow> ustate \<Rightarrow> bool" where
  "resumes_well s t \<longleftrightarrow>
     same_bufs s t \<and> set (blocked s) \<subseteq> set (blocked t) \<and>
     (\<exists>r. running t = Some r \<and> point (t_jmp_buf (heap t ! r)) \<noteq> AtSuspend)"

lemma loadBuf_bufs:
  assumes ret: "loadBuf env s = Some x"
  shows "\<forall>c t. x = Ok c t \<longrightarrow> resumes_well s t"
proof (rule loadBuf.raw_induct [where P = "\<lambda>env s x. \<forall>c t. x = Ok c t \<longrightarrow> resumes_well s t", OF _ ret])
  fix f env s and x :: "control ures"
  assume IH: "\<And>env s x. f env s = Some x \<Longrightarrow> \<forall>c t. x = Ok c t \<longrightarrow> resumes_well s t"
    and eq: "(case running s of
        None \<Rightarrow> Some (Faults NullDeref)
      | Some r \<Rightarrow>
          (let buf = t_jmp_buf (heap s ! r); s1 = s\<lparr>masked := saved_mask buf\<rparr>
           in case point buf of
                AtEntry sp pc \<Rightarrow> Some (Ok Switched s1)
              | AtHandler \<Rightarrow> Some (Ok Switched (s1\<lparr>masked := False\<rparr>))
              | AtSuspend \<Rightarrow>
                  (case suspend_self env s1 of
                     Ok u s2 \<Rightarrow> f env s2
                   | Exits c s2 \<Rightarrow> Some (Exits c s2)
                   | Faults e \<Rightarrow> Some (Faults e)))) = Some x"
  show "\<forall>c t. x = Ok c t \<longrightarrow> resumes_well s t"
  proof (intro allI impI)
    fix c t assume x: "x = Ok c t"
    obtain r where r: "running s = Some r" using eq x by (auto split: option.splits)
    let ?s1 = "s\<lparr>masked := saved_mask (t_jmp_buf (heap s ! r))\<rparr>"
    show "resumes_well s t"
    proof (cases "point (t_jmp_buf (heap s ! r))")
      case AtSuspend
      then obtain u s2 where s2: "suspend_self env ?s1 = Ok u s2" "f env s2 = Some (Ok c t)"
        using eq x r by (auto simp: Let_def split: outcome.splits)
      have "resumes_well s2 t" using IH [OF s2(2)] by simp
      moreover have "same_bufs s ?s1" by (simp add: same_bufs_heap)
      ultimately show ?thesis
        using suspend_self_bufs(1,2) [OF s2(1)]
        by (auto simp: resumes_well_def intro: same_bufs_trans)
    qed (use eq x r in \<open>auto simp: Let_def resumes_well_def same_bufs_def\<close>)
  qed
qed

lemma and_load_bufs:
  assumes "and_load env m = Some (Ok c t)"
  obtains s where "m = Ok () s" and "resumes_well s t"
  using assms loadBuf_bufs by (cases m) (auto simp: and_load_def)

text \<open>A switch of context is no return to the caller.\<close>

lemma loadBuf_switched:
  assumes ret: "loadBuf env s = Some x"
  shows "\<forall>c t. x = Ok c t \<longrightarrow> c = Switched"
  by (rule loadBuf.raw_induct [where P = "\<lambda>env s x. \<forall>c t. x = Ok c t \<longrightarrow> c = Switched", OF _ ret])
    (auto simp: Let_def split: option.splits point.splits outcome.splits)

lemma and_load_switched: "and_load env m = Some (Ok c t) \<Longrightarrow> c = Switched"
  using loadBuf_switched by (auto simp: and_load_def split: outcome.splits)

lemma removal_heap:
  "removeFromReady tid s = Ok v t \<Longrightarrow> heap t = heap s"
  "removeFromBlock tid s = Ok u t \<Longrightarrow> heap t = heap s"
  by (auto simp: removeFromReady_def removeFromBlock_def Let_def split: option.splits if_splits)

lemma terminate_self_bufs:
  assumes "terminate_self env tid r s = Ok u t" shows "same_bufs s t"
proof -
  obtain s2 where "switchThreads env s = Ok () s2" and "heap t = heap s2"
    using assms removal_heap by (fastforce simp: terminate_self_def and_then_eq_Ok_iff)
  then show ?thesis using switchThreads_bufs same_bufs_def by metis
qed

text \<open>\<open>keeps_suspended s t\<close>: a thread that suspended itself is still there in \<open>t\<close>.\<close>

definition keeps_suspended :: "ustate \<Rightarrow> ustate \<Rightarrow> bool" where
  "keeps_suspended s t \<longleftrightarrow>
     length (heap s) \<le> length (heap t) \<and>
     (\<forall>p < length (heap s). point (t_jmp_buf (heap s ! p)) = AtSuspend \<longrightarrow>
        point (t_jmp_buf (heap t ! p)) = AtSuspend)"

definition runs_outside :: "ustate \<Rightarrow> bool" where
  "runs_outside s \<longleftrightarrow> (\<exists>r. running s = Some r \<and> point (t_jmp_buf (heap s ! r)) \<noteq> AtSuspend)"

lemma keeps_suspended_trans: "keeps_suspended s t \<Longrightarrow> keeps_suspended t u \<Longrightarrow> keeps_suspended s u"
  by (auto simp: keeps_suspended_def)

lemma keeps_suspended_bufs: "same_bufs s t \<Longrightarrow> keeps_suspended s t"
  by (simp add: same_bufs_def keeps_suspended_def)

lemma switched_keeps:
  assumes "and_load env m = Some (Ok c t)" and "\<And>u. m = Ok () u \<Longrightarrow> keeps_suspended s u"
  shows "keeps_suspended s t \<and> runs_outside t"
  using assms(1)
proof (rule and_load_bufs)
  fix u assume "m = Ok () u" and "resumes_well u t"
  then show ?thesis
    using assms(2) keeps_suspended_bufs keeps_suspended_trans
    by (auto simp: resumes_well_def runs_outside_def)
qed

lemma returned_keeps:
  assumes "return_int m = Some (Ok c t)" and "runs_outside s" and "uinv s"
    and "\<And>v. m = Ok v t \<Longrightarrow> same_bufs s t \<and> running t = running s"
  shows "keeps_suspended s t \<and> runs_outside t"
proof -
  have sb: "same_bufs s t" and run: "running t = running s"
    using assms by (auto simp: return_int_def and_then_eq_Ok_iff)
  obtain r where r: "running s = Some r" and ho: "handover r s" using assms(3) by (auto simp: uinv_handover)
  then have "t_jmp_buf (heap t ! r) = t_jmp_buf (heap s ! r)"
    using sb handover_in_hand(3) [OF ho] by (simp add: same_bufs_def)
  then show ?thesis using assms(2) sb run r by (auto simp: runs_outside_def keeps_suspended_bufs)
qed

lemma saveBuf_keeps:
  assumes "runs_outside s" and "running s = Some r"
  shows "keeps_suspended s (upd_thread (saveBuf pt m) r s)"
  using assms by (auto simp: keeps_suspended_def runs_outside_def heap_upd_thread)

lemma keeps_suspended_heap: "heap t = heap s \<Longrightarrow> keeps_suspended s t"
  by (simp add: keeps_suspended_def)

lemma spawn_keeps:
  assumes inv: "uinv s" and out: "runs_outside s" and ex: "uexec env (Spawn f pr) s = Some (Ok c t)"
  shows "keeps_suspended s t \<and> runs_outside t"
proof (rule returned_keeps [OF _ out inv])
  show "return_int (uthread_spawn env f pr s) = Some (Ok c t)" using ex by simp
  fix v assume sp: "uthread_spawn env f pr s = Ok v t"
  show "same_bufs s t \<and> running t = running s"
  proof (cases "length (threads s) = MAX_THREAD_NUM")
    case True
    then show ?thesis using sp by (auto simp: uthread_spawn_def spawn_masked_def same_bufs_heap)
  next
    case False
    then have "t = unblock_signals (push_ready (queue_of pr) (length (heap s))
        (enrolled env f pr (block_signals s)))" using spawn_eq inv sp by (auto simp: uinv_def)
    then show ?thesis by (simp add: same_bufs_def enrolled_def nth_append)
  qed
qed

lemma terminate_keeps:
  assumes inv: "uinv s" and out: "runs_outside s" and ex: "uexec env (Terminate tid) s = Some (Ok c t)"
  shows "keeps_suspended s t \<and> runs_outside t"
proof -
  obtain r where run: "running s = Some r" and ho: "handover r s" using inv by (auto simp: uinv_handover)
  have nz: "tid \<noteq> 0" using ex by (auto simp: uthread_terminate_def terminate_masked_def)
  consider "om_find (threads s) tid = None" | "om_find (threads s) tid \<noteq> None" "tid = t_tid (heap s ! r)"
    | p where "om_find (threads s) tid = Some p" "tid \<noteq> t_tid (heap s ! r)" by fastforce
  then show ?thesis
  proof cases
    case 1
    then have "return_int (Ok FAIL (printError NOT_FOUND_ID THREAD_ERROR s)) = Some (Ok c t)"
      using ex nz by (simp add: uthread_terminate_def terminate_masked_def)
    then show ?thesis by (rule returned_keeps [OF _ out inv]) (auto simp: same_bufs_heap)
  next
    case 2
    then have "and_load env (terminate_self env tid r (block_signals s)) = Some (Ok c t)"
      using ex nz run by (auto simp: uthread_terminate_def terminate_masked_def Let_def)
    then show ?thesis
    proof (rule switched_keeps)
      fix u assume "terminate_self env tid r (block_signals s) = Ok () u"
      then have "same_bufs (block_signals s) u" by (rule terminate_self_bufs)
      then show "keeps_suspended s u" by (auto intro!: keeps_suspended_bufs simp: same_bufs_def)
    qed
  next
    case 3
    show ?thesis
    proof (rule returned_keeps [OF _ out inv])
      show "return_int (Ok SUCCESS (unblock_signals
          ((withdrawn p (block_signals s))\<lparr>threads := om_erase tid (threads s)\<rparr>))) = Some (Ok c t)"
        using ex terminate_other_eq [OF ho run 3(1) nz 3(2), of env] by simp
    qed (auto simp: same_bufs_heap)
  qed
qed

lemma suspend_keeps:
  assumes inv: "uinv s" and out: "runs_outside s" and ex: "uexec env (Suspend tid) s = Some (Ok c t)"
  shows "keeps_suspended s t \<and> runs_outside t"
proof -
  obtain r where run: "running s = Some r" and ho: "handover r s" using inv by (auto simp: uinv_handover)
  consider "tid = 0 \<or> om_find (threads s) tid = None"
    | "tid \<noteq> 0" "om_find (threads s) tid \<noteq> None" "tid = t_tid (heap s ! r)"
    | p where "tid \<noteq> 0" "om_find (threads s) tid = Some p" "tid \<noteq> t_tid (heap s ! r)" by fastforce
  then show ?thesis
  proof cases
    case 1
    then obtain e where "return_int (Ok FAIL (printError e THREAD_ERROR s)) = Some (Ok c t)"
      using ex by (cases "tid = 0") (auto simp: uthread_suspend_def suspend_masked_def)
    then show ?thesis by (rule returned_keeps [OF _ out inv]) (auto simp: same_bufs_heap)
  next
    case 2
    let ?s1 = "upd_thread (saveBuf AtSuspend (masked (block_signals s))) r (block_signals s)"
    have "and_load env (suspend_self env ?s1) = Some (Ok c t)"
      using ex 2 run by (auto simp: uthread_suspend_def suspend_masked_def Let_def)
    then show ?thesis
    proof (rule switched_keeps)
      fix u assume "suspend_self env ?s1 = Ok () u"
      then have "keeps_suspended ?s1 u" by (intro keeps_suspended_bufs suspend_self_bufs(1))
      moreover have "keeps_suspended (block_signals s) ?s1"
        using out run by (intro saveBuf_keeps) (simp_all add: runs_outside_def)
      then have "keeps_suspended s ?s1" by (simp add: keeps_suspended_def)
      ultimately show "keeps_suspended s u" by (rule keeps_suspended_trans [rotated])
    qed
  next
    case 3
    let ?t = "upd_thread (setState BLOCK) p (unready p (block_signals s))"
    let ?m = "if p \<in> set (all_ready s) then Ok SUCCESS (unblock_signals (?t\<lparr>blocked := blocked ?t @ [p]\<rparr>))
        else Ok FAIL (unblock_signals (block_signals s))"
    show ?thesis
    proof (rule returned_keeps [OF _ out inv])
      show "return_int ?m = Some (Ok c t)"
        using ex suspend_other_eq [OF ho run 3(2,1,3), of env] unfolding Let_def
        by (auto split: if_splits)
      show "same_bufs s t \<and> running t = running s" if "?m = Ok v t" for v
        using that by (cases "p \<in> set (all_ready s)")
          (auto simp: same_bufs_def heap_upd_field [where f = t_jmp_buf])
    qed
  qed
qed

lemma resume_keeps:
  assumes inv: "uinv s" and out: "runs_outside s" and ex: "uexec env (Resume tid) s = Some (Ok c t)"
  shows "keeps_suspended s t \<and> runs_outside t"
proof (rule returned_keeps [OF _ out inv])
  show "return_int (uthread_resume tid s) = Some (Ok c t)" using ex by simp
  fix v assume re: "uthread_resume tid s = Ok v t"
  show "same_bufs s t \<and> running t = running s"
  proof (cases "\<exists>p. om_find (threads s) tid = Some p \<and> p \<in> set (blocked s)")
    case True
    then show ?thesis
      using re resume_blocked_eq
      by (auto simp: awakened_def same_bufs_def heap_upd_field [where f = t_jmp_buf])
  next
    case False
    then show ?thesis
      using re by (auto simp: uthread_resume_def resume_masked_def same_bufs_heap split: option.splits)
  qed
qed

lemma timer_keeps:
  assumes inv: "uinv s" "\<not> masked s" and out: "runs_outside s" and ex: "uexec env Timer s = Some (Ok c t)"
  shows "keeps_suspended s t \<and> runs_outside t"
proof -
  obtain r where run: "running s = Some r" using inv(1) by (auto simp: uinv_def)
  have "and_load env (switchThreads env (preempted r s)) = Some (Ok c t)"
    using timer_signal_eq [OF inv run, of env] ex by simp
  then show ?thesis
  proof (rule switched_keeps)
    fix u assume "switchThreads env (preempted r s) = Ok () u"
    then have "keeps_suspended (preempted r s) u"
      by (intro keeps_suspended_bufs switchThreads_bufs)
    moreover have "keeps_suspended (s\<lparr>masked := True\<rparr>) (preempted r s)"
      unfolding preempted_def using out run by (intro saveBuf_keeps) (simp_all add: runs_outside_def)
    then have "keeps_suspended s (preempted r s)" by (simp add: keeps_suspended_def)
    ultimately show "keeps_suspended s u" by (rule keeps_suspended_trans [rotated])
  qed
qed

lemma uexec_keeps:
  assumes inv: "uinv s" "\<not> masked s" and out: "runs_outside s" and ex: "uexec env e s = Some (Ok c t)"
  shows "keeps_suspended s t \<and> runs_outside t"
proof (cases e)
  case GetTid
  then show ?thesis using ex out
    by (auto simp: return_int_def uthread_get_tid_def keeps_suspended_heap split: option.splits)
next
  case GetTotalQuantums
  then show ?thesis using ex out by (auto simp: return_int_def keeps_suspended_heap)
next
  case (GetQuantums tid)
  then show ?thesis using ex out
    by (auto simp: return_int_def uthread_get_quantums_def Let_def keeps_suspended_heap runs_outside_def
        split: option.splits)
next
  case (Spawn f pr)
  then show ?thesis using spawn_keeps [OF inv(1) out] ex by simp
next
  case (Terminate tid)
  then show ?thesis using terminate_keeps [OF inv(1) out] ex by simp
next
  case (Suspend tid)
  then show ?thesis using suspend_keeps [OF inv(1) out] ex by simp
next
  case (Resume tid)
  then show ?thesis using resume_keeps [OF inv(1) out] ex by simp
next
  case Timer
  then show ?thesis using timer_keeps [OF inv out] ex by simp
qed

lemma run_keeps:
  assumes "uinv s" "\<not> masked s" "runs_outside s" and "run_events (uexec env) es s = Some (Ok cs t)"
  shows "keeps_suspended s t \<and> runs_outside t"
  using assms
proof (induction es arbitrary: s cs)
  case Nil
  then show ?case by (simp add: keeps_suspended_heap)
next
  case (Cons e es)
  from Cons.prems(4) obtain c u cs' where e: "uexec env e s = Some (Ok c u)"
    and es: "run_events (uexec env) es u = Some (Ok cs' t)"
    by (auto split: option.splits outcome.splits)
  have k: "keeps_suspended s u \<and> runs_outside u" by (rule uexec_keeps [OF Cons.prems(1-3) e])
  moreover have "uinv u \<and> \<not> masked u" using uth.exec_invar [OF _ TrueI e] Cons.prems by simp
  ultimately have "keeps_suspended u t \<and> runs_outside t" using Cons.IH es by blast
  then show ?case using k keeps_suspended_trans by blast
qed

lemma ureachable_runs_outside: "ureachable env s \<Longrightarrow> runs_outside s"
proof (induction rule: ureachable.induct)
  case (init q s)
  then have "s = started env q" by (rule uthread_init_success)
  then show ?case by (simp add: runs_outside_def started_def)
next
  case (step s e c t)
  then show ?case using uexec_keeps ureachable_ok by blast
qed

section \<open>The limit on the number of threads\<close>

definition within_limit :: "ustate \<Rightarrow> bool" where
  "within_limit s \<longleftrightarrow> length (threads s) \<le> MAX_THREAD_NUM"

lemma runThread_threads: "runThread env s = Ok u t \<Longrightarrow> threads t = threads s"
  by (auto simp: runThread_def popReady_def getReady_def Let_def dest!: setTime_Ok
      split: prod.splits option.splits if_splits)

lemma addToReady_threads [simp]: "threads (addToReady tmp s) = threads s"
  by (cases tmp) (simp_all add: addToReady_Some del: addToReady.simps(2))

lemma switchThreads_threads: "switchThreads env s = Ok u t \<Longrightarrow> threads t = threads s"
  by (auto simp: switchThreads_def Let_def and_then_eq_Ok_iff simp del: addToReady.simps
      dest!: runThread_threads split: option.splits if_splits)

lemma suspend_self_threads: "suspend_self env s = Ok u t \<Longrightarrow> threads t = threads s"
  by (auto simp: suspend_self_def Let_def dest!: runThread_threads split: option.splits)

lemma loadBuf_threads:
  assumes ret: "loadBuf env s = Some x"
  shows "\<forall>c t. x = Ok c t \<longrightarrow> threads t = threads s"
  by (rule loadBuf.raw_induct [where P = "\<lambda>env s x. \<forall>c t. x = Ok c t \<longrightarrow> threads t = threads s", OF _ ret])
    (auto simp: Let_def dest: suspend_self_threads split: option.splits point.splits outcome.splits)

lemma and_load_threads:
  assumes "and_load env m = Some (Ok c t)"
  obtains u where "m = Ok () u" and "threads t = threads u"
  using assms loadBuf_threads by (cases m) (auto simp: and_load_def)

lemma length_erase_le: "length (om_erase k m) \<le> length m"
  by (induction k m rule: om_erase.induct) auto

lemma removal_threads:
  "removeFromReady tid s = Ok v t \<Longrightarrow> threads t = threads s"
  "removeFromBlock tid s = Ok u t' \<Longrightarrow> threads t' = threads s"
  by (auto simp: removeFromReady_def removeFromBlock_def Let_def split: option.splits if_splits)

lemma terminate_self_threads:
  assumes "terminate_self env tid r s = Ok u t" shows "length (threads t) \<le> length (threads s)"
  using assms length_erase_le
  by (auto simp: terminate_self_def and_then_eq_Ok_iff dest!: removal_threads switchThreads_threads)

lemma return_int_Ok: "return_int m = Some (Ok c t) \<longleftrightarrow> (\<exists>v. m = Ok v t \<and> c = Returned v)"
  by (auto simp: return_int_def and_then_eq_Ok_iff)

lemma terminate_masked_threads:
  "terminate_masked env tid s = Some (Ok c t) \<Longrightarrow> length (threads t) \<le> length (threads s)"
  using length_erase_le
  by (auto simp: terminate_masked_def Let_def return_int_Ok and_then_eq_Ok_iff elim!: and_load_threads
      dest!: terminate_self_threads removal_threads split: option.splits if_splits)

lemma suspend_masked_threads:
  "suspend_masked env tid s = Some (Ok c t) \<Longrightarrow> threads t = threads s"
  by (auto simp: suspend_masked_def Let_def return_int_Ok and_then_eq_Ok_iff elim!: and_load_threads
      dest!: suspend_self_threads removal_threads split: option.splits if_splits)

lemma resume_masked_threads: "resume_masked tid s = Ok v t \<Longrightarrow> threads t = threads s"
  by (auto simp: resume_masked_def Let_def and_then_eq_Ok_iff simp del: addToReady.simps
      dest!: removal_threads split: option.splits if_splits)

lemma timer_signal_threads: "timer_signal env s = Some (Ok c t) \<Longrightarrow> threads t = threads s"
  by (auto simp: timer_signal_def timeHandler_def elim!: and_load_threads
      dest!: switchThreads_threads split: option.splits if_splits)

lemma uexec_within_limit:
  assumes inv: "uinv s" and lim: "within_limit s" and ex: "uexec env e s = Some (Ok c t)"
  shows "within_limit t"
proof (cases e)
  case (Spawn f pr)
  show ?thesis
  proof (cases "length (threads s) = MAX_THREAD_NUM")
    case True
    then show ?thesis using ex Spawn lim by (auto simp: within_limit_def return_int_Ok uthread_spawn_def)
  next
    case False
    have tab: "table_ok s" and "running s \<noteq> None" using inv by (auto simp: uinv_def)
    then have "t = unblock_signals (push_ready (queue_of pr) (length (heap s)) (enrolled env f pr (block_signals s)))"
      using ex Spawn spawn_eq [of s env f pr] False by (simp add: return_int_Ok)
    moreover have "getNextId (block_signals s) = getNextId s" by (simp add: getNextId_def)
    moreover have "om_find (threads s) (getNextId s) = None"
      using tids.next_fresh [OF table_ids_ok [OF tab]] om.keys_find [of "threads s"] tab
      by (simp add: table_ok_def)
    ultimately show ?thesis using lim False by (simp add: within_limit_def enrolled_def length_om_insert)
  qed
next
  case (Terminate tid)
  then show ?thesis using ex lim terminate_masked_threads [of env tid s c t]
    by (auto simp: within_limit_def uthread_terminate_def return_int_Ok split: if_splits)
next
  case (Suspend tid)
  then show ?thesis using ex lim suspend_masked_threads [of env tid s c t]
    by (auto simp: within_limit_def uthread_suspend_def return_int_Ok split: if_splits)
next
  case (Resume tid)
  then show ?thesis using ex lim resume_masked_threads [of tid s _ t]
    by (auto simp: within_limit_def uthread_resume_def return_int_Ok split: option.splits if_splits)
next
  case Timer
  then show ?thesis using ex lim timer_signal_threads [of env s c t] by (auto simp: within_limit_def)
qed (use ex lim in \<open>auto simp: within_limit_def return_int_Ok uthread_get_tid_def uthread_get_quantums_def
      Let_def split: option.splits\<close>)

lemma ureachable_within_limit: "ureachable env s \<Longrightarrow> within_limit s"
proof (induction rule: ureachable.induct)
  case (init q s)
  then have "s = started env q" by (rule uthread_init_success)
  then show ?case by (simp add: within_limit_def started_def MAX_THREAD_NUM_def)
next
  case (step s e c t)
  then show ?case using uexec_within_limit ureachable_ok by blast
qed

end
