(* ===== verification/Uthreads_Spec.thy ===== *)
theory Uthreads_Spec
  imports Uthreads_Sched
begin

text \<open>
  What the thread library promises, over thread ids alone: no thread objects, pointers, jump
  buffers, queues per priority or signal masks. \<open>sched_step\<close> is the specification;
  \<open>sched_of\<close> reads an abstract state off a state of the library; every call and every timer
  signal is a step of the specification (interpretation \<open>usched\<close> of \<open>event_refinement\<close>).
\<close>

section \<open>The abstract scheduler\<close>

record tinfo =
  i_pr :: priority
  i_quanta :: int
  i_stuck :: bool          \<comment> \<open>suspended itself: gives its turn up whenever it is scheduled\<close>

record sched =
  s_run :: int
  s_queue :: "int list"    \<comment> \<open>the ready threads in the order in which they are to run\<close>
  s_blocked :: "int set"
  s_info :: "int \<rightharpoonup> tinfo"  \<comment> \<open>the live threads\<close>
  s_total :: int

definition sched_init :: sched where
  "sched_init = \<lparr>s_run = 0, s_queue = [], s_blocked = {},
     s_info = [0 \<mapsto> \<lparr>i_pr = ORANGE, i_quanta = 1, i_stuck = False\<rparr>], s_total = 1\<rparr>"

definition rank :: "sched \<Rightarrow> int \<Rightarrow> priority" where
  "rank A k = i_pr (the (s_info A k))"

definition stuck :: "sched \<Rightarrow> int \<Rightarrow> bool" where
  "stuck A k \<longleftrightarrow> i_stuck (the (s_info A k))"

text \<open>A thread enters the queue behind those of its own and of higher priority.\<close>

definition enqueue :: "int \<Rightarrow> sched \<Rightarrow> sched" where
  "enqueue k A = A\<lparr>s_queue := filter (\<lambda>j. rank A j \<le> rank A k) (s_queue A) @ [k] @
     filter (\<lambda>j. rank A k < rank A j) (s_queue A)\<rparr>"

definition start_quantum :: "int \<Rightarrow> sched \<Rightarrow> sched" where
  "start_quantum k A = A\<lparr>s_run := k, s_total := s_total A + 1,
     s_info := (s_info A)(k := map_option (i_quanta_update (\<lambda>n. n + 1)) (s_info A k))\<rparr>"

definition block :: "int \<Rightarrow> sched \<Rightarrow> sched" where
  "block k A = A\<lparr>s_blocked := insert k (s_blocked A)\<rparr>"

definition unqueue :: "int \<Rightarrow> sched \<Rightarrow> sched" where
  "unqueue k A = A\<lparr>s_queue := remove1 k (s_queue A)\<rparr>"

definition unblock :: "int \<Rightarrow> sched \<Rightarrow> sched" where
  "unblock k A = A\<lparr>s_blocked := s_blocked A - {k}\<rparr>"

definition forget :: "int \<Rightarrow> sched \<Rightarrow> sched" where
  "forget k A = A\<lparr>s_info := (s_info A)(k := None)\<rparr>"

definition mark_stuck :: "int \<Rightarrow> sched \<Rightarrow> sched" where
  "mark_stuck k A = A\<lparr>s_info := (s_info A)(k := map_option (i_stuck_update (\<lambda>_. True)) (s_info A k))\<rparr>"

text \<open>The processor goes down the queue to the first thread that does not give its turn up.\<close>

fun hand_over :: "int list \<Rightarrow> sched \<Rightarrow> sched" where
  "hand_over [] A = A"
| "hand_over (k # ks) A =
     (let B = start_quantum k (A\<lparr>s_queue := ks\<rparr>)
      in if stuck A k then hand_over ks (block k B) else B)"

definition yield_cpu :: "sched \<Rightarrow> sched" where
  "yield_cpu A = hand_over (s_queue A) A"

definition tick :: "sched \<Rightarrow> sched" where
  "tick A =
     (case s_queue A of
        [] \<Rightarrow> start_quantum (s_run A) A
      | k # ks \<Rightarrow>
          (let B = enqueue (s_run A) (A\<lparr>s_queue := ks\<rparr>) in hand_over (k # s_queue B) B))"

inductive sched_step :: "sched \<Rightarrow> uevent \<Rightarrow> control \<Rightarrow> sched \<Rightarrow> bool" where
  Tick: "sched_step A Timer Switched (tick A)"
| Spawn_full: "card (dom (s_info A)) = MAX_THREAD_NUM \<Longrightarrow> sched_step A (Spawn f pr) (Returned FAIL) A"
| Spawn: "card (dom (s_info A)) < MAX_THREAD_NUM \<Longrightarrow> 0 \<le> k \<Longrightarrow> k \<notin> dom (s_info A) \<Longrightarrow>
    {0..<k} \<subseteq> dom (s_info A) \<Longrightarrow>
    sched_step A (Spawn f pr) (Returned k)
      (enqueue k (A\<lparr>s_info := (s_info A)(k \<mapsto> \<lparr>i_pr = pr, i_quanta = 0, i_stuck = False\<rparr>)\<rparr>))"
| Terminate_unknown: "k \<notin> dom (s_info A) \<Longrightarrow> sched_step A (Terminate k) (Returned FAIL) A"
| Terminate_self: "k \<noteq> 0 \<Longrightarrow> k = s_run A \<Longrightarrow> k \<in> dom (s_info A) \<Longrightarrow>
    sched_step A (Terminate k) Switched (yield_cpu (forget k A))"
| Terminate_other: "k \<noteq> 0 \<Longrightarrow> k \<noteq> s_run A \<Longrightarrow> k \<in> dom (s_info A) \<Longrightarrow>
    sched_step A (Terminate k) (Returned SUCCESS) (forget k (unqueue k (unblock k A)))"
| Suspend_refused: "k = 0 \<or> k \<noteq> s_run A \<and> k \<notin> set (s_queue A) \<Longrightarrow>
    sched_step A (Suspend k) (Returned FAIL) A"
| Suspend_self: "k \<noteq> 0 \<Longrightarrow> k = s_run A \<Longrightarrow>
    sched_step A (Suspend k) Switched (yield_cpu (block k (mark_stuck k A)))"
| Suspend_other: "k \<noteq> 0 \<Longrightarrow> k \<noteq> s_run A \<Longrightarrow> k \<in> set (s_queue A) \<Longrightarrow>
    sched_step A (Suspend k) (Returned SUCCESS) (block k (unqueue k A))"
| Resume: "k \<in> s_blocked A \<Longrightarrow> sched_step A (Resume k) (Returned SUCCESS) (enqueue k (unblock k A))"
| Resume_refused: "k \<notin> s_blocked A \<Longrightarrow> sched_step A (Resume k) (Returned FAIL) A"
| Get_tid: "sched_step A GetTid (Returned (s_run A)) A"
| Get_total: "sched_step A GetTotalQuantums (Returned (s_total A)) A"
| Get_quanta: "s_info A k = Some i \<Longrightarrow> sched_step A (GetQuantums k) (Returned (i_quanta i)) A"
| Get_quanta_unknown: "k \<notin> dom (s_info A) \<Longrightarrow> sched_step A (GetQuantums k) (Returned FAIL) A"

inductive_cases sched_stepE:
  "sched_step A (Spawn f pr) c B" "sched_step A (Terminate k) c B" "sched_step A (Suspend k) c B"
  "sched_step A (Resume k) c B" "sched_step A GetTid c B" "sched_step A GetTotalQuantums c B"
  "sched_step A (GetQuantums k) c B" "sched_step A Timer c B"

text \<open>The specification leaves no choice: state and event determine the answer and the next state.\<close>

lemma least_free_unique:
  fixes j k :: int
  assumes "0 \<le> j" "j \<notin> D" "{0..<j} \<subseteq> D" and "0 \<le> k" "k \<notin> D" "{0..<k} \<subseteq> D"
  shows "j = k"
  using assms by (metis atLeastLessThan_iff linorder_neqE subsetD)

lemma sched_step_unique:
  assumes "sched_step A e c B" and "sched_step A e c' B'"
  shows "c = c' \<and> B = B'"
proof (cases e)
  case (Spawn f pr)
  show ?thesis using assms unfolding Spawn
    by (elim sched_stepE(1)) (simp_all, metis least_free_unique)
next
  case (Terminate k)
  then show ?thesis using assms by (auto elim!: sched_stepE(2))
next
  case (Suspend k)
  then show ?thesis using assms by (auto elim!: sched_stepE(3))
next
  case (Resume k)
  then show ?thesis using assms by (auto elim!: sched_stepE(4))
qed (use assms in \<open>auto elim!: sched_stepE\<close>)

lemma sched_run_unique:
  assumes "spec_run sched_step A es as B" and "spec_run sched_step A es bs C"
  shows "as = bs \<and> B = C"
  by (rule spec_run_unique [OF _ assms]) (rule sched_step_unique)

section \<open>Reading the abstract state off a state of the library\<close>

definition tinfo_of :: "thread \<Rightarrow> tinfo" where
  "tinfo_of th = \<lparr>i_pr = t_pr th, i_quanta = t_quantom th,
     i_stuck = (point (t_jmp_buf th) = AtSuspend)\<rparr>"

text \<open>\<open>view r s\<close> takes \<open>r\<close> for the running thread: between two threads \<open>running\<close> is no guide.\<close>

definition view :: "ptr \<Rightarrow> ustate \<Rightarrow> sched" where
  "view r s =
     \<lparr>s_run = t_tid (heap s ! r),
      s_queue = map (\<lambda>p. t_tid (heap s ! p)) (all_ready s),
      s_blocked = (\<lambda>p. t_tid (heap s ! p)) ` set (blocked s),
      s_info = (\<lambda>k. map_option (\<lambda>p. tinfo_of (heap s ! p)) (om_find (threads s) k)),
      s_total = quantum_counter s\<rparr>"

definition sched_of :: "ustate \<Rightarrow> sched" where
  "sched_of s = view (the (running s)) s"

lemma view_fields [simp]:
  "s_run (view r s) = t_tid (heap s ! r)"
  "s_queue (view r s) = map (\<lambda>p. t_tid (heap s ! p)) (all_ready s)"
  "s_blocked (view r s) = (\<lambda>p. t_tid (heap s ! p)) ` set (blocked s)"
  "s_info (view r s) = (\<lambda>k. map_option (\<lambda>p. tinfo_of (heap s ! p)) (om_find (threads s) k))"
  "s_total (view r s) = quantum_counter s"
  by (simp_all add: view_def)

lemma dom_view: "dom (s_info (view r s)) = {k. om_find (threads s) k \<noteq> None}"
  by (auto simp: dom_def)

lemma view_frame [simp]:
  "view r (s\<lparr>masked := b\<rparr>) = view r s" "view r (block_signals s) = view r s"
  "view r (unblock_signals s) = view r s" "view r (printError e pre s) = view r s"
  "view r (s\<lparr>running := x\<rparr>) = view r s"
  by (simp_all add: view_def all_ready_def block_signals_def unblock_signals_def printError_def)

section \<open>The single moves\<close>

lemma view_upd:
  assumes ord: "orderly xs r s" and find: "om_find (threads s) (t_tid (heap s ! p)) = Some p"
    and tid: "\<And>th. t_tid (g th) = t_tid th"
  shows "view r (upd_thread g p s) =
    (view r s)\<lparr>s_info := (s_info (view r s))(t_tid (heap s ! p) \<mapsto> tinfo_of (g (heap s ! p)))\<rparr>"
proof -
  have tab: "table_ok s" using ord by (simp add: orderly_def)
  then have p: "p < length (heap s)" using find by (simp add: table_ok_def)
  have "map_option (\<lambda>q. tinfo_of (heap (upd_thread g p s) ! q)) (om_find (threads s) k) =
      ((s_info (view r s))(t_tid (heap s ! p) \<mapsto> tinfo_of (g (heap s ! p)))) k" for k
  proof (cases "om_find (threads s) k")
    case (Some q)
    then have "t_tid (heap s ! q) = k" using tab by (simp add: table_ok_def)
    then show ?thesis using Some p find by (auto simp: heap_upd_thread)
  qed (use find in auto)
  then show ?thesis
    by (simp add: view_def heap_upd_field [where f = t_tid, OF tid] fun_eq_iff)
qed

lemma view_upd_same:
  assumes ord: "orderly xs r s" and find: "om_find (threads s) (t_tid (heap s ! p)) = Some p"
    and tid: "\<And>th. t_tid (g th) = t_tid th" and same: "tinfo_of (g (heap s ! p)) = tinfo_of (heap s ! p)"
  shows "view r (upd_thread g p s) = view r s"
proof -
  have "(s_info (view r s))(t_tid (heap s ! p) \<mapsto> tinfo_of (heap s ! p)) = s_info (view r s)"
    using find by (simp add: fun_eq_iff)
  then show ?thesis unfolding view_upd [OF ord find tid] same by simp
qed

lemma tinfo_of_setState [simp]: "tinfo_of (setState st th) = tinfo_of th"
  by (simp add: tinfo_of_def)

lemma view_dispatch:
  assumes "orderly (p # xs) r s"
  shows "view p (dispatch p s) = start_quantum (t_tid (heap s ! p)) (view r s)"
proof -
  note p = orderly_in_hand(4) [OF assms]
  let ?g = "increaseQuantom \<circ> setState RUNNING"
  have "view p (dispatch p s) = (view r (upd_thread ?g p s))
      \<lparr>s_run := t_tid (heap s ! p), s_total := quantum_counter s + 1\<rparr>"
    by (simp add: view_def dispatch_def all_ready_def heap_upd_field [where f = t_tid])
  moreover have "view r (upd_thread ?g p s) = (view r s)\<lparr>s_info :=
      (s_info (view r s))(t_tid (heap s ! p) \<mapsto> tinfo_of (?g (heap s ! p)))\<rparr>"
    by (rule view_upd [OF assms p]) simp
  moreover have "tinfo_of (?g (heap s ! p)) = i_quanta_update (\<lambda>n. n + 1) (tinfo_of (heap s ! p))"
    by (simp add: tinfo_of_def)
  ultimately show ?thesis using p by (simp add: start_quantum_def)
qed

lemma view_popped:
  "all_ready s \<noteq> [] \<Longrightarrow> view r (popped s) = (view r s)\<lparr>s_queue := tl (s_queue (view r s))\<rparr>"
  by (simp add: view_def map_tl)

text \<open>Three queues in order of priority are one queue in that order.\<close>

lemma all_ready_push:
  fixes s :: ustate and pr :: priority
  assumes qs: "queue_states s"
  defines "rk \<equiv> \<lambda>x. t_pr (heap s ! x)"
  shows "all_ready (push_ready (queue_of pr) p s) =
    filter (\<lambda>x. rk x \<le> pr) (all_ready s) @ [p] @ filter (\<lambda>x. pr < rk x) (all_ready s)"
proof -
  have all: "filter P (ready s i) = (if P' then ready s i else [])"
    if "\<And>x. queue_of (rk x) = i \<Longrightarrow> P x = P'" for P P' i
    using queue_statesD(2) [OF qs] that by (auto simp: rk_def filter_id_conv filter_empty_conv)
  show ?thesis
    by (cases pr) (auto simp: all_ready_def less_eq_priority_def less_priority_def enum_value_queue_of
        all [where P' = True] all [where P' = False])
qed

lemma view_push:
  assumes "orderly (p # xs) r s"
  shows "view r (push_ready (queue_of (t_pr (heap s ! p))) p s) =
    enqueue (t_tid (heap s ! p)) (view r s)"
proof -
  have qs: "queue_states s" and tab: "table_ok s" and pl: "placed (p # xs) s"
    using assms by (simp_all add: orderly_def)
  have "om_find (threads s) (t_tid (heap s ! x)) = Some x" if "x \<in> set (all_ready s)" for x
    using table_live(2) [OF tab] placed_set [OF pl] that by auto
  then have "rank (view r s) (t_tid (heap s ! x)) = t_pr (heap s ! x)"
      if "x \<in> set (all_ready s) \<or> x = p" for x
    using that orderly_in_hand(4) [OF assms] by (auto simp: rank_def tinfo_of_def)
  then have "filter (\<lambda>k. R (rank (view r s) k)) (map (\<lambda>x. t_tid (heap s ! x)) (all_ready s)) =
      map (\<lambda>x. t_tid (heap s ! x)) (filter (\<lambda>x. R (t_pr (heap s ! x))) (all_ready s))"
    and "rank (view r s) (t_tid (heap s ! p)) = t_pr (heap s ! p)" for R
    by (auto simp: filter_map o_def cong: filter_cong)
  note f = this
  show ?thesis
    unfolding enqueue_def f(2)
    using f(1) [of "\<lambda>pr. pr \<le> t_pr (heap s ! p)"] f(1) [of "\<lambda>pr. t_pr (heap s ! p) < pr"]
    by (simp add: view_def all_ready_push [OF qs])
qed

section \<open>The context switch\<close>

definition settle :: "sched \<Rightarrow> sched" where
  "settle A = (if stuck A (s_run A) then hand_over (s_queue A) (block (s_run A) A) else A)"

lemma stuck_start_quantum [simp]: "stuck (start_quantum k A) j = stuck A j"
  by (cases "s_info A k") (simp_all add: stuck_def start_quantum_def)

lemma hand_over_settle: "hand_over (k # ks) A = settle (start_quantum k (A\<lparr>s_queue := ks\<rparr>))"
proof -
  have "stuck (A\<lparr>s_queue := ks\<rparr>) k = stuck A k" by (simp add: stuck_def)
  moreover have "s_queue (start_quantum k (A\<lparr>s_queue := ks\<rparr>)) = ks" "s_run (start_quantum k (A\<lparr>s_queue := ks\<rparr>)) = k"
    by (simp_all add: start_quantum_def)
  ultimately show ?thesis by (simp add: settle_def Let_def)
qed

text \<open>The move with which each way of giving up the processor ends.\<close>

lemma sched_dispatch:
  assumes ho: "handover p s" and B: "view r s = B\<lparr>s_queue := ks\<rparr>" and q: "t_tid (heap s ! p) = k"
  shows "settle (sched_of (dispatch p s)) = hand_over (k # ks) B"
proof -
  have "sched_of (dispatch p s) = view p (dispatch p s)"
    by (simp add: sched_of_def) (simp add: dispatch_def)
  also have "\<dots> = start_quantum k (view p s)" using view_dispatch [OF ho] q by simp
  also have "\<dots> = start_quantum k (view r s)" by (simp add: start_quantum_def view_def)
  finally show ?thesis unfolding B hand_over_settle by simp
qed

lemma stuck_view:
  "om_find (threads s) (t_tid (heap s ! r)) = Some r \<Longrightarrow>
   stuck (view r' s) (t_tid (heap s ! r)) \<longleftrightarrow> point (t_jmp_buf (heap s ! r)) = AtSuspend"
  by (simp add: stuck_def tinfo_of_def)

lemma view_parked:
  assumes ho: "handover r s" and ne: "all_ready s \<noteq> []"
  shows "view r (parked r s) = (block (t_tid (heap s ! r)) (view r s))\<lparr>s_queue := tl (s_queue (view r s))\<rparr>"
proof -
  let ?s1 = "upd_thread (setState BLOCK) r s"
  have "view r ?s1 = view r s"
    by (rule view_upd_same [OF ho handover_in_hand(4) [OF ho]]) simp_all
  moreover have "view r (?s1\<lparr>blocked := blocked s @ [r], running := None\<rparr>) = block (t_tid (heap s ! r)) (view r ?s1)"
    by (simp add: view_def block_def heap_upd_field [where f = t_tid])
  ultimately show ?thesis
    using view_popped [of "?s1\<lparr>blocked := blocked s @ [r], running := None\<rparr>" r] ne
    by (simp add: parked_def block_def)
qed

lemma loadBuf_refines:
  assumes "uinv s" and "loadBuf env s = Some (Ok c t)"
  shows "sched_of t = settle (sched_of s)"
  using assms
proof (induction "length (all_ready s)" arbitrary: s rule: less_induct)
  case less
  obtain r where run: "running s = Some r" and ho: "handover r s"
    using less.prems(1) by (auto simp: uinv_handover)
  have sched: "sched_of s = view r s" by (simp add: sched_of_def run)
  have buf: "buf_ok (heap s ! r)" using ho handover_in_hand(3) [OF ho] by (simp add: orderly_def)
  note find = handover_in_hand(4) [OF ho]
  show ?case
  proof (cases "point (t_jmp_buf (heap s ! r)) = AtSuspend")
    case False
    then have "t = s\<lparr>masked := False\<rparr>" using loadBuf_direct [OF run buf] less.prems(2) by simp
    then show ?thesis using False find run by (simp add: settle_def sched stuck_view) (simp add: sched_of_def)
  next
    case True
    let ?s1 = "s\<lparr>masked := saved_mask (t_jmp_buf (heap s ! r))\<rparr>"
    have ho1: "handover r ?s1" "running ?s1 = Some r" using ho run by simp_all
    have tid: "t_tid (heap ?s1 ! r) \<noteq> 0"
    proof
      assume "t_tid (heap ?s1 ! r) = 0"
      then have "om_find (threads s) 0 = Some r" using find by simp
      then show False using ho True by (auto simp: orderly_def main_at_def)
    qed
    note ne = main_is_ready(1) [OF ho1(1) tid] and step = suspend_self_step [OF ho1 tid]
    let ?p = "hd (all_ready ?s1)"
    let ?u = "dispatch ?p (parked r ?s1)"
    obtain v u where u: "suspend_self env ?s1 = Ok v u"
      using less.prems(2) run True by (auto simp: loadBuf.simps [of env s] Let_def split: outcome.splits)
    then have "suspend_self env ?s1 = Ok () ?u" using step(1) [of env] by auto
    then have "loadBuf env ?u = Some (Ok c t)"
      using loadBuf_suspended [OF run True] less.prems(2) by simp
    then have "sched_of t = settle (sched_of ?u)"
      using all_ready_parked [OF ne] handover_dispatch [OF step(2)] by (intro less.hyps) auto
    also have "\<dots> = hand_over (t_tid (heap s ! ?p) # tl (s_queue (view r s))) (block (t_tid (heap s ! r)) (view r s))"
      using view_parked [OF ho1(1) ne]
      by (intro sched_dispatch [OF step(2)])
        (simp_all add: parked_def heap_upd_field [where f = t_tid])
    also have "\<dots> = settle (sched_of s)"
      using ne True by (cases "all_ready s") (simp_all add: settle_def sched stuck_view [OF find])
    finally show ?thesis .
  qed
qed

lemma and_load_refines:
  assumes "and_load env m = Some (Ok c t)" and "m = Ok () u \<or> (\<exists>v. m = Exits 1 v)" and "uinv u"
  shows "c = Switched" and "sched_of t = settle (sched_of u)"
proof -
  show "c = Switched" by (rule and_load_switched [OF assms(1)])
  have "m = Ok () u" using assms(1,2) by (auto simp: and_load_def)
  then have "loadBuf env u = Some (Ok c t)" using assms(1) by (simp add: and_load_def)
  then show "sched_of t = settle (sched_of u)" by (rule loadBuf_refines [OF assms(3)])
qed

section \<open>Every event\<close>

text \<open>The abstract state of a state with the invariant, and who its ids stand for.\<close>

lemma sched_tid:
  assumes "handover r s" and "om_find (threads s) k = Some p" and "x \<in> set (r # all_ready s @ blocked s)"
  shows "t_tid (heap s ! x) = k \<longleftrightarrow> x = p"
proof -
  have h: "placed [r] s" "table_ok s" using assms(1) by (simp_all add: orderly_def)
  have "om_find (threads s) (t_tid (heap s ! x)) = Some x"
    using table_live(2) [OF h(2)] placed_set [OF h(1)] assms(3) by simp
  moreover have "t_tid (heap s ! p) = k" using h(2) assms(2) by (simp add: table_ok_def)
  ultimately show ?thesis using assms(2) by (metis option.inject)
qed

lemma sched_id_iff:
  assumes "handover r s" and "om_find (threads s) k = Some p"
  shows "k = t_tid (heap s ! r) \<longleftrightarrow> p = r"
    and "k \<in> set (s_queue (view r s)) \<longleftrightarrow> p \<in> set (all_ready s)"
    and "k \<in> s_blocked (view r s) \<longleftrightarrow> p \<in> set (blocked s)"
    and "t_tid (heap s ! p) = k"
proof -
  have "table_ok s" using assms(1) by (simp add: orderly_def)
  then show "t_tid (heap s ! p) = k" using assms(2) by (simp add: table_ok_def)
  note tid = sched_tid [OF assms]
  have "t_tid (heap s ! r) = k \<longleftrightarrow> r = p" using tid [of r] by simp
  then show "k = t_tid (heap s ! r) \<longleftrightarrow> p = r" by metis
  have "t_tid (heap s ! x) = k \<longleftrightarrow> x = p" if "x \<in> set (all_ready s)" for x using tid that by simp
  then show "k \<in> set (s_queue (view r s)) \<longleftrightarrow> p \<in> set (all_ready s)"
    unfolding view_fields set_map by blast
  have "t_tid (heap s ! x) = k \<longleftrightarrow> x = p" if "x \<in> set (blocked s)" for x using tid that by simp
  then show "k \<in> s_blocked (view r s) \<longleftrightarrow> p \<in> set (blocked s)"
    unfolding view_fields by blast
qed

lemma sched_known:
  assumes "handover r s" and "k \<in> set (s_queue (view r s)) \<or> k \<in> s_blocked (view r s)"
  obtains p where "om_find (threads s) k = Some p"
proof -
  have h: "placed [r] s" "table_ok s" using assms(1) by (simp_all add: orderly_def)
  obtain x where "k = t_tid (heap s ! x)" "x \<in> set (r # all_ready s @ blocked s)" using assms(2) by auto
  moreover from this have "x \<in> set (live s)" using placed_set [OF h(1)] by auto
  ultimately show ?thesis using table_live(2) [OF h(2)] that by blast
qed

lemma timer_refines:
  assumes inv: "uinv s" "\<not> masked s" and out: "runs_outside s" and ex: "uexec env Timer s = Some (Ok c t)"
  shows "sched_step (sched_of s) Timer c (sched_of t)"
proof -
  obtain r where run: "running s = Some r" and ho: "handover r s" using inv by (auto simp: uinv_handover)
  have ctx: "point (t_jmp_buf (heap s ! r)) \<noteq> AtSuspend" using out run by (simp add: runs_outside_def)
  have sched: "sched_of s = view r s" by (simp add: sched_of_def run)
  note find = handover_in_hand(4) [OF ho] and hp = preempted_handover [OF ho]
  have "and_load env (switchThreads env (preempted r s)) = Some (Ok c t)"
    using timer_signal_eq [OF inv run, of env] ex by simp
  note load = and_load_refines [OF this, of "tick_target r s"]
  have c: "c = Switched" and t: "sched_of t = settle (sched_of (tick_target r s))"
    using load tick_cases [OF ho run] by auto
  have same: "view r (upd_thread (setState READY) r (preempted r s)) = view r s"
  proof -
    have "view r (upd_thread (setState READY) r (preempted r s)) = view r (preempted r s)"
      by (rule view_upd_same [OF hp handover_in_hand(4) [OF hp]]) simp_all
    also have "\<dots> = view r s"
      using view_upd_same [of "[r]" r "s\<lparr>masked := True\<rparr>" r "saveBuf AtHandler True"] ho find ctx
      by (simp add: preempted_def tinfo_of_def)
    finally show ?thesis .
  qed
  let ?s1 = "upd_thread (setState READY) r (preempted r s)"
  have tids: "t_tid (heap ?s1 ! p) = t_tid (heap s ! p)" for p
    by (simp add: preempted_def heap_upd_field [where f = t_tid])
  have "settle (sched_of (tick_target r s)) = tick (view r s)"
  proof (cases "all_ready s")
    case Nil
    have "sched_of (tick_target r s) = start_quantum (t_tid (heap s ! r)) (view r s)"
      using view_dispatch [OF orderly_setState [OF hp, of READY]] Nil same tids
      by (simp add: sched_of_def tick_target_def) (simp add: dispatch_def)
    moreover have "s_run (start_quantum (t_tid (heap s ! r)) (view r s)) = t_tid (heap s ! r)"
      by (simp add: start_quantum_def)
    ultimately show ?thesis using Nil ctx find
      by (simp add: tick_def settle_def stuck_view)
  next
    case (Cons p ps)
    let ?A = "(view r s)\<lparr>s_queue := map (\<lambda>p. t_tid (heap s ! p)) ps\<rparr>"
    have "t_pr (heap (popped ?s1) ! r) = t_pr (heap (preempted r s) ! r)"
      by (simp add: heap_upd_field [where f = t_pr])
    then have req: "requeued r (preempted r s) =
        push_ready (queue_of (t_pr (heap (popped ?s1) ! r))) r (popped ?s1)"
      by (simp add: requeued_def)
    have "orderly [p, r] r (popped ?s1)"
      using orderly_pop [OF orderly_setState [OF hp, of READY]] Cons by simp
    then have "orderly [r, p] r (popped ?s1)" by (rule orderly_perm) simp
    then have "view r (requeued r (preempted r s)) = enqueue (t_tid (heap s ! r)) (view r (popped ?s1))"
      using view_push [of r "[p]" r "popped ?s1"] tids unfolding req by simp
    also have "view r (popped ?s1) = ?A" using view_popped [of ?s1 r] same Cons tids by simp
    finally have B: "view r (requeued r (preempted r s)) = enqueue (t_tid (heap s ! r)) ?A" .
    have main: "point (t_jmp_buf (heap (preempted r s) ! r)) = AtHandler"
      using handover_in_hand(3) [OF ho] by (simp add: preempted_def heap_upd_thread)
    have "handover p (requeued r (preempted r s))"
      using handover_requeued [OF hp] main Cons by simp
    moreover have "t_tid (heap (requeued r (preempted r s)) ! p) = t_tid (heap s ! p)"
      using tids by (simp add: requeued_def)
    ultimately have "settle (sched_of (dispatch p (requeued r (preempted r s)))) =
        hand_over (t_tid (heap s ! p) # s_queue (enqueue (t_tid (heap s ! r)) ?A)) (enqueue (t_tid (heap s ! r)) ?A)"
      using B by (intro sched_dispatch) simp_all
    then show ?thesis using Cons by (simp add: tick_def tick_target_def Let_def)
  qed
  then show ?thesis using c t sched sched_step.Tick by simp
qed

lemma card_view:
  assumes "table_ok s" shows "card (dom (s_info (view r s))) = length (threads s)"
proof -
  have ok: "om_ok (threads s)" using assms by (simp add: table_ok_def)
  have "dom (s_info (view r s)) = set (om_keys (threads s))"
    using om.keys_find [OF ok] by (auto simp: dom_view)
  then show ?thesis using om.length_keys [OF ok] by simp
qed

lemma view_enrolled:
  assumes ord: "orderly xs r s" and r: "r \<in> set xs"
  shows "view r (enrolled env f pr s) = (view r s)\<lparr>s_info :=
    (s_info (view r s))(getNextId s \<mapsto> \<lparr>i_pr = pr, i_quanta = 0, i_stuck = False\<rparr>)\<rparr>"
proof -
  have h: "placed xs s" "table_ok s" using ord by (simp_all add: orderly_def)
  have ok: "om_ok (threads s)" using h(2) by (simp add: table_ok_def)
  have "getNextId s \<notin> set (om_keys (threads s))" by (rule tids.next_fresh [OF table_ids_ok [OF h(2)]])
  then have fresh: "om_find (threads s) (getNextId s) = None" using om.keys_find [OF ok] by simp
  let ?th = "new_thread (guard env) (stack_at env (length (heap s))) (getNextId s) pr f READY"
  have heap: "heap (enrolled env f pr s) = heap s @ [?th]" by (simp add: enrolled_def)
  have old: "heap (enrolled env f pr s) ! p = heap s ! p" if "p \<in> set (xs @ all_ready s @ blocked s)" for p
    using table_live(1) [OF h(2)] placed_set [OF h(1)] that by (simp add: heap nth_append)
  have "map_option (\<lambda>p. tinfo_of (heap (enrolled env f pr s) ! p))
      (om_find (threads (enrolled env f pr s)) k) = ((s_info (view r s))(getNextId s \<mapsto> tinfo_of ?th)) k" for k
    using h(2) by (cases "om_find (threads s) k")
      (auto simp: heap nth_append enrolled_def om.find_ins_new [OF ok fresh] table_ok_def)
  moreover have "tinfo_of ?th = \<lparr>i_pr = pr, i_quanta = 0, i_stuck = False\<rparr>" by (simp add: tinfo_of_def)
  moreover have "map (\<lambda>p. t_tid (heap (enrolled env f pr s) ! p)) (all_ready s)
      = map (\<lambda>p. t_tid (heap s ! p)) (all_ready s)"
    and "(\<lambda>p. t_tid (heap (enrolled env f pr s) ! p)) ` set (blocked s)
      = (\<lambda>p. t_tid (heap s ! p)) ` set (blocked s)"
    and "heap (enrolled env f pr s) ! r = heap s ! r"
    using old r by auto
  moreover have "all_ready (enrolled env f pr s) = all_ready s" "blocked (enrolled env f pr s) = blocked s"
    "quantum_counter (enrolled env f pr s) = quantum_counter s"
    by (simp_all add: enrolled_def all_ready_def)
  ultimately show ?thesis by (simp add: view_def fun_eq_iff)
qed

lemma spawn_refines:
  assumes inv: "uinv s" "\<not> masked s" and lim: "within_limit s" and ex: "uexec env (Spawn f pr) s = Some (Ok c t)"
  shows "sched_step (sched_of s) (Spawn f pr) c (sched_of t)"
proof -
  obtain r where run: "running s = Some r" and ho: "handover r s" using inv by (auto simp: uinv_handover)
  have sched: "sched_of s = view r s" by (simp add: sched_of_def run)
  have tab: "table_ok s" using ho by (simp add: orderly_def)
  show ?thesis
  proof (cases "length (threads s) = MAX_THREAD_NUM")
    case True
    then have "c = Returned FAIL" "sched_of t = sched_of s"
      using ex by (auto simp: uthread_spawn_def spawn_masked_def return_int_def sched_of_def)
    then show ?thesis using True card_view [OF tab] by (simp add: sched sched_step.Spawn_full)
  next
    case False
    let ?s = "block_signals s" and ?k = "getNextId s" and ?n = "length (heap s)"
    let ?e = "enrolled env f pr ?s"
    have k: "getNextId ?s = ?k" by (simp add: getNextId_def)
    have c: "c = Returned ?k" and t: "t = unblock_signals (push_ready (queue_of pr) ?n ?e)"
      using ex spawn_eq [of s env f pr] False run by (auto simp: return_int_def)
    have e: "orderly [?n, r] r ?e" using orderly_enrolled [of "[r]" r ?s] ho by simp
    have new: "t_pr (heap ?e ! ?n) = pr" "t_tid (heap ?e ! ?n) = ?k" by (simp_all add: enrolled_def k)
    have "sched_of t = view r (push_ready (queue_of pr) ?n ?e)"
      using run by (simp add: sched_of_def t) (simp add: enrolled_def)
    also have "\<dots> = enqueue ?k (view r ?e)" using view_push [OF e] new by simp
    also have "view r ?e = (view r s)\<lparr>s_info :=
        (s_info (view r s))(?k \<mapsto> \<lparr>i_pr = pr, i_quanta = 0, i_stuck = False\<rparr>)\<rparr>"
      using view_enrolled [of "[r]" r ?s env f pr] ho by (simp add: k)
    finally have t: "sched_of t = enqueue ?k \<dots>" .
    have ok: "om_ok (threads s)" using tab by (simp add: table_ok_def)
    have "card (dom (s_info (view r s))) < MAX_THREAD_NUM" using False lim card_view [OF tab] by (simp add: within_limit_def)
    moreover note ids = table_ids_ok [OF tab]
    have "0 \<le> ?k" by (rule tids.next_nonneg [OF ids])
    moreover have "?k \<notin> dom (s_info (view r s))"
      unfolding dom_view using tids.next_fresh [OF ids] om.keys_find [OF ok] by simp
    moreover have "{0..<?k} \<subseteq> dom (s_info (view r s))"
      unfolding dom_view using tids.next_least [OF ids] om.keys_find [OF ok] by auto
    ultimately show ?thesis unfolding c t sched by (rule sched_step.Spawn)
  qed
qed

lemma view_unready:
  assumes "handover r s" and "om_find (threads s) k = Some p" and "p \<in> set (all_ready s)"
  shows "view r (unready p s) = unqueue k (view r s)"
proof -
  let ?tid = "\<lambda>x. t_tid (heap s ! x)"
  have qs: "queue_states s" using assms(1) by (simp add: orderly_def)
  have k: "?tid p = k" by (rule sched_id_iff(4) [OF assms(1,2)])
  have inj: "?tid x = ?tid p \<longleftrightarrow> x = p" if "x \<in> set (all_ready s)" for x
    using sched_tid [OF assms(1,2), of x] that k by simp
  have "map ?tid (remove1 p (all_ready s)) = remove1 (?tid p) (map ?tid (all_ready s))"
    by (rule map_remove1) (rule inj)
  moreover have "all_ready (unready p s) = remove1 p (all_ready s)"
  proof -
    have "p \<in> set (ready s q) \<longleftrightarrow> q = queue_of (t_pr (heap s ! p))" for q
      using assms(3) ready_iff [OF qs, of p] queue_statesD(2) [OF qs, of p q] by metis
    then show ?thesis
      by (cases "t_pr (heap s ! p)") (simp_all add: all_ready_def unready_def remove1_append Let_def)
  qed
  moreover have "quantum_counter (unready p s) = quantum_counter s" by (simp add: unready_def Let_def)
  ultimately show ?thesis by (simp add: view_def unqueue_def k)
qed

lemma view_unblocked:
  assumes "handover r s" and "om_find (threads s) k = Some p"
  shows "view r (unblocked p s) = unblock k (view r s)"
proof -
  let ?tid = "\<lambda>x. t_tid (heap s ! x)"
  have h: "placed [r] s" "table_ok s" using assms(1) by (simp_all add: orderly_def)
  have k: "?tid p = k" by (rule sched_id_iff(4) [OF assms])
  have d: "distinct (blocked s)" using placed_distinct [OF h] by simp
  have "?tid x = k \<longleftrightarrow> x = p" if "x \<in> set (blocked s)" for x
    using sched_tid [OF assms, of x] that by simp
  then have "?tid ` (set (blocked s) - {p}) = ?tid ` set (blocked s) - {k}" by auto
  moreover have "all_ready (unblocked p s) = all_ready s" by (simp add: all_ready_def)
  ultimately show ?thesis
    using d by (simp add: view_def unblock_def) (simp add: unblocked_def set_remove1_eq)
qed

lemma view_erase:
  assumes "om_ok (threads s)"
  shows "view r (s\<lparr>threads := om_erase k (threads s)\<rparr>) = forget k (view r s)"
  using assms by (simp add: view_def forget_def om.find_erase fun_eq_iff) (simp add: all_ready_def)

text \<open>Giving the processor up for good: the first thread of the queue is dispatched and loaded.\<close>

lemma yield_refines:
  assumes load: "and_load env m = Some (Ok c t)"
    and m: "m = Ok () (dispatch p u) \<or> (\<exists>v. m = Exits 1 v)" and ho: "handover p u"
    and B: "view r u = B\<lparr>s_queue := tl (s_queue B)\<rparr>" "s_queue B \<noteq> []" "hd (s_queue B) = t_tid (heap u ! p)"
  shows "c = Switched \<and> sched_of t = yield_cpu B"
proof -
  note r = and_load_refines [OF load m handover_dispatch [OF ho]]
  have "settle (sched_of (dispatch p u)) = hand_over (hd (s_queue B) # tl (s_queue B)) B"
    by (rule sched_dispatch [OF ho B(1)]) (simp add: B(3))
  then show ?thesis using r B(2) by (simp add: yield_cpu_def)
qed

lemma head_view: "all_ready s \<noteq> [] \<Longrightarrow> hd (s_queue (view r s)) = t_tid (heap s ! hd (all_ready s))"
  by (simp add: hd_map)

lemma terminate_self_refines:
  assumes ho: "handover r s" and run: "running s = Some r" and tid: "t_tid (heap s ! r) \<noteq> 0"
    and ex: "uexec env (Terminate (t_tid (heap s ! r))) s = Some (Ok c t)"
  shows "c = Switched \<and> sched_of t = yield_cpu (forget (t_tid (heap s ! r)) (view r s))"
proof -
  let ?s = "block_signals s" and ?k = "t_tid (heap s ! r)"
  let ?s1 = "upd_thread (setState READY) r ?s"
  let ?s2 = "?s1\<lparr>threads := om_erase ?k (threads s)\<rparr>"
  have hb: "handover r ?s" "running ?s = Some r" "t_tid (heap ?s ! r) \<noteq> 0" using ho run tid by simp_all
  note ne = main_is_ready(1) [OF ho tid] and dep = departed_handover [OF hb(1,3)]
  have "and_load env (terminate_self env ?k r ?s) = Some (Ok c t)"
    using ex tid run handover_in_hand(4) [OF ho] by (simp add: uthread_terminate_def terminate_masked_def Let_def)
  moreover have "terminate_self env ?k r ?s = Ok () (dispatch (hd (all_ready ?s)) (departed r ?s)) \<or>
      (\<exists>v. terminate_self env ?k r ?s = Exits 1 v)"
    using terminate_self_step [OF hb, of env] by simp
  moreover have "view r ?s1 = view r s"
    using view_upd_same [OF hb(1) handover_in_hand(4) [OF hb(1)], of "setState READY"] by simp
  then have s2: "view r ?s2 = forget ?k (view r s)"
    using view_erase [of ?s1 r ?k] ho by (simp add: orderly_def table_ok_def)
  have "all_ready ?s2 = all_ready s" by (simp add: all_ready_def)
  then have "view r (departed r ?s) = (forget ?k (view r s))\<lparr>s_queue := tl (s_queue (forget ?k (view r s)))\<rparr>"
    using view_popped [of ?s2 r] ne by (simp add: departed_def s2)
  ultimately show ?thesis
    using ne head_view [OF ne, of r]
    by (intro yield_refines [OF _ _ dep])
      (simp_all add: forget_def departed_def heap_upd_field [where f = t_tid] hd_map)
qed

lemma suspend_self_refines:
  assumes ho: "handover r s" and run: "running s = Some r" and tid: "t_tid (heap s ! r) \<noteq> 0"
    and ex: "uexec env (Suspend (t_tid (heap s ! r))) s = Some (Ok c t)"
  shows "c = Switched \<and>
    sched_of t = yield_cpu (block (t_tid (heap s ! r)) (mark_stuck (t_tid (heap s ! r)) (view r s)))"
proof -
  let ?s = "block_signals s" and ?k = "t_tid (heap s ! r)"
  let ?s1 = "upd_thread (saveBuf AtSuspend True) r ?s"
  have sa: "masked ?s" using ho by (simp add: orderly_def)
  have hb: "handover r ?s1" "running ?s1 = Some r" "t_tid (heap ?s1 ! r) \<noteq> 0"
    using orderly_saveBuf [of r "[]" ?s AtSuspend] ho run tid
    by (simp_all add: heap_upd_field [where f = t_tid])
  note ne = main_is_ready(1) [OF ho tid] and step = suspend_self_step [OF hb]
  have "and_load env (suspend_self env ?s1) = Some (Ok c t)"
    using ex tid run sa handover_in_hand(4) [OF ho] by (simp add: uthread_suspend_def suspend_masked_def Let_def)
  moreover have s1: "view r ?s1 = mark_stuck ?k (view r s)"
  proof -
    have "tinfo_of (saveBuf AtSuspend True (heap s ! r)) = (tinfo_of (heap s ! r))\<lparr>i_stuck := True\<rparr>"
      by (simp add: tinfo_of_def)
    moreover have "handover r ?s" using ho by simp
    ultimately show ?thesis
      using view_upd [of "[r]" r ?s r "saveBuf AtSuspend True"] handover_in_hand(4) [OF ho]
      by (simp add: mark_stuck_def)
  qed
  have "view r (parked r ?s1) = (block ?k (mark_stuck ?k (view r s)))
      \<lparr>s_queue := tl (s_queue (block ?k (mark_stuck ?k (view r s))))\<rparr>"
    using view_parked [OF hb(1)] ne unfolding s1
    by (simp add: heap_upd_field [where f = t_tid] block_def mark_stuck_def)
  ultimately show ?thesis
    using ne head_view [OF ne, of r]
    by (intro yield_refines [OF _ step(1) step(2)])
      (simp_all add: block_def mark_stuck_def parked_def heap_upd_field [where f = t_tid] hd_map)
qed

lemma refused_refines:
  assumes "return_int (Ok v (printError e pre s)) = Some (Ok c t)"
  shows "c = Returned v" "sched_of t = sched_of s"
  using assms by (auto simp: return_int_def sched_of_def)

lemma terminate_refines:
  assumes inv: "uinv s" and ex: "uexec env (Terminate k) s = Some (Ok c t)"
  shows "sched_step (sched_of s) (Terminate k) c (sched_of t)"
proof -
  obtain r where run: "running s = Some r" and ho: "handover r s" using inv by (auto simp: uinv_handover)
  have sched: "sched_of s = view r s" by (simp add: sched_of_def run)
  have nz: "k \<noteq> 0" using ex by (auto simp: uthread_terminate_def terminate_masked_def)
  consider "om_find (threads s) k = None" | "k = t_tid (heap s ! r)"
    | p where "om_find (threads s) k = Some p" "k \<noteq> t_tid (heap s ! r)" by fastforce
  then show ?thesis
  proof cases
    case 1
    then have "return_int (Ok FAIL (printError NOT_FOUND_ID THREAD_ERROR s)) = Some (Ok c t)"
      using ex nz by (simp add: uthread_terminate_def terminate_masked_def)
    note refused_refines [OF this]
    moreover have "k \<notin> dom (s_info (view r s))" unfolding dom_view using 1 by simp
    ultimately show ?thesis by (simp only: sched) (rule sched_step.Terminate_unknown)
  next
    case 2
    then have "c = Switched \<and> sched_of t = yield_cpu (forget k (view r s))"
      using terminate_self_refines [OF ho run] ex nz by simp
    moreover have "k \<in> dom (s_info (view r s))"
      unfolding dom_view using 2 handover_in_hand(4) [OF ho] by simp
    ultimately show ?thesis
      using nz 2 sched_step.Terminate_self [of k "view r s"] by (simp add: sched del: view_fields(4))
  next
    case 3
    let ?s = "block_signals s"
    have hb: "handover r ?s" and fb: "om_find (threads ?s) k = Some p" using ho 3 by simp_all
    let ?t = "unblock_signals ((withdrawn p ?s)\<lparr>threads := om_erase k (threads s)\<rparr>)"
    have c: "c = Returned SUCCESS" and t: "t = ?t"
      using ex terminate_other_eq [OF ho run 3(1) nz 3(2), of env] by (simp_all add: return_int_def)
    have "sched_of t = view r ((withdrawn p ?s)\<lparr>threads := om_erase k (threads (withdrawn p ?s))\<rparr>)"
      using run by (simp add: sched_of_def t)
    also have "\<dots> = forget k (view r (withdrawn p ?s))"
      using ho by (intro view_erase) (simp add: orderly_def table_ok_def)
    also have "view r (withdrawn p ?s) = unqueue k (unblock k (view r s))"
    proof (cases "p \<in> set (all_ready s)")
      case True
      then have "k \<notin> s_blocked (view r s)"
        using sched_id_iff(3) [OF ho 3(1)] other_thread(6) [OF ho 3] by blast
      then have "unblock k (view r s) = view r s" by (simp add: unblock_def)
      then show ?thesis using True view_unready [OF hb fb] by (simp add: withdrawn_def)
    next
      case False
      then have "k \<notin> set (s_queue (view r s))" using sched_id_iff(2) [OF ho 3(1)] by blast
      then have "unqueue k (unblock k (view r s)) = unblock k (view r s)"
        by (simp add: unqueue_def unblock_def remove1_idem)
      then show ?thesis using False view_unblocked [OF hb fb] by (simp add: withdrawn_def)
    qed
    finally have "sched_of t = forget k (unqueue k (unblock k (view r s)))" .
    moreover have "k \<in> dom (s_info (view r s))" unfolding dom_view using 3 by simp
    ultimately show ?thesis
      using nz 3(2) sched_step.Terminate_other [of k "view r s"] by (simp add: sched c del: view_fields(2-4))
  qed
qed

lemma suspend_refines:
  assumes inv: "uinv s" "\<not> masked s" and ex: "uexec env (Suspend k) s = Some (Ok c t)"
  shows "sched_step (sched_of s) (Suspend k) c (sched_of t)"
proof -
  obtain r where run: "running s = Some r" and ho: "handover r s" using inv by (auto simp: uinv_handover)
  have sched: "sched_of s = view r s" by (simp add: sched_of_def run)
  consider "k = 0 \<or> om_find (threads s) k = None" | "k \<noteq> 0" "k = t_tid (heap s ! r)"
    | p where "k \<noteq> 0" "om_find (threads s) k = Some p" "k \<noteq> t_tid (heap s ! r)" by fastforce
  then show ?thesis
  proof cases
    case 1
    then obtain e where "return_int (Ok FAIL (printError e THREAD_ERROR s)) = Some (Ok c t)"
      using ex by (cases "k = 0") (auto simp: uthread_suspend_def suspend_masked_def)
    note refused_refines [OF this]
    moreover have "k = 0 \<or> k \<noteq> s_run (view r s) \<and> k \<notin> set (s_queue (view r s))"
      using 1 sched_known [OF ho, of k] handover_in_hand(4) [OF ho]
      by (metis option.distinct(1) view_fields(1))
    ultimately show ?thesis by (simp only: sched) (rule sched_step.Suspend_refused)
  next
    case 2
    then have "c = Switched \<and> sched_of t = yield_cpu (block k (mark_stuck k (view r s)))"
      using suspend_self_refines [OF ho run] ex by simp
    then show ?thesis using 2 sched_step.Suspend_self [of k "view r s"] by (simp add: sched)
  next
    case 3
    note ids = sched_id_iff [OF ho 3(2)] and o = other_thread [OF ho 3(2,3)]
    note eq = suspend_other_eq [OF ho run 3(2,1,3), of env]
    show ?thesis
    proof (cases "p \<in> set (all_ready s)")
      case False
      then have "k \<notin> set (s_queue (view r s))" using ids(2) by blast
      moreover have "k \<noteq> s_run (view r s)" using 3(3) by simp
      ultimately have "sched_step (view r s) (Suspend k) (Returned FAIL) (view r s)"
        by (intro sched_step.Suspend_refused) blast
      moreover have "c = Returned FAIL" "sched_of t = view r s"
        using ex eq False run by (auto simp: return_int_def sched_of_def)
      ultimately show ?thesis by (simp only: sched)
    next
      case True
      let ?s = "block_signals s"
      let ?u = "upd_thread (setState BLOCK) p (unready p ?s)"
      have hb: "handover r ?s" and fb: "om_find (threads ?s) k = Some p" using ho 3 by simp_all
      have c: "c = Returned SUCCESS" and t: "t = unblock_signals (?u\<lparr>blocked := blocked ?u @ [p]\<rparr>)"
        using ex eq True by (simp_all add: return_int_def Let_def)
      have tids: "t_tid (heap ?u ! x) = t_tid (heap s ! x)" for x
        by (simp add: heap_upd_field [where f = t_tid])
      have "sched_of t = view r (?u\<lparr>blocked := blocked ?u @ [p]\<rparr>)"
        using run by (simp add: sched_of_def t)
      also have "\<dots> = block k (view r ?u)"
        using ids(4) tids by (simp add: view_def block_def all_ready_def)
      also have "view r ?u = view r (unready p ?s)"
      proof (rule view_upd_same)
        show "orderly [p, r] r (unready p ?s)" using orderly_unready [OF hb] True by simp
      qed (use 3(2) ids(4) in simp_all)
      also have "\<dots> = unqueue k (view r s)" using view_unready [OF hb fb] True by simp
      finally have "sched_of t = block k (unqueue k (view r s))" .
      moreover have "k \<in> set (s_queue (view r s))" using True ids(2) by blast
      ultimately show ?thesis
        unfolding sched c by (simp only:) (rule sched_step.Suspend_other [OF 3(1)], use 3(3) in simp)
    qed
  qed
qed

lemma resume_refines:
  assumes inv: "uinv s" "\<not> masked s" and ex: "uexec env (Resume k) s = Some (Ok c t)"
  shows "sched_step (sched_of s) (Resume k) c (sched_of t)"
proof -
  obtain r where run: "running s = Some r" and ho: "handover r s" using inv by (auto simp: uinv_handover)
  have sched: "sched_of s = view r s" by (simp add: sched_of_def run)
  show ?thesis
  proof (cases "k \<in> s_blocked (view r s)")
    case False
    have "om_find (threads s) k = Some p \<Longrightarrow> p \<notin> set (blocked s)" for p
      using False sched_id_iff(3) [OF ho] by blast
    then have "c = Returned FAIL" "sched_of t = sched_of s"
      using ex by (auto simp: uthread_resume_def resume_masked_def return_int_def sched_of_def split: option.splits)
    then show ?thesis using sched_step.Resume_refused [OF False] by (simp only: sched)
  next
    case True
    then obtain p where find: "om_find (threads s) k = Some p" using sched_known [OF ho] by blast
    then have bl: "p \<in> set (blocked s)" using True sched_id_iff(3) [OF ho] by blast
    let ?s = "block_signals s"
    let ?u = "upd_thread (setState READY) p (unblocked p ?s)"
    have hb: "handover r ?s" and fb: "om_find (threads ?s) k = Some p" using ho find by simp_all
    have c: "c = Returned SUCCESS" and t: "t = unblock_signals (awakened p ?s)"
      using ex resume_blocked_eq [OF find bl] by (simp_all add: return_int_def)
    have tid: "t_tid (heap s ! p) = k" by (rule sched_id_iff(4) [OF ho find])
    have ord: "orderly [p, r] r (unblocked p ?s)" using orderly_unblocked [OF hb] bl by simp
    have "view r ?u = view r (unblocked p ?s)"
      by (rule view_upd_same [OF ord]) (use find tid in simp_all)
    also have "\<dots> = unblock k (view r s)" using view_unblocked [OF hb fb] by simp
    finally have u: "view r ?u = unblock k (view r s)" .
    have fields: "t_pr (heap ?u ! p) = t_pr (heap s ! p)" "t_tid (heap ?u ! p) = k"
      using tid by (simp_all add: heap_upd_field [where f = t_pr] heap_upd_field [where f = t_tid])
    have "awakened p ?s = push_ready (queue_of (t_pr (heap ?u ! p))) p ?u"
      unfolding awakened_swap fields(1) by simp
    moreover have "running (awakened p ?s) = Some r" using run by (simp add: awakened_def)
    ultimately have "sched_of t = enqueue k (unblock k (view r s))"
      using view_push [OF orderly_setState [OF ord]] u fields(2) by (simp add: sched_of_def t)
    then show ?thesis using sched_step.Resume [OF True] by (simp only: sched c)
  qed
qed

lemma uexec_refines:
  assumes inv: "uinv s" "\<not> masked s" and out: "runs_outside s" and lim: "within_limit s" and ex: "uexec env e s = Some (Ok c t)"
  shows "sched_step (sched_of s) e c (sched_of t)"
proof (cases e)
  case (Spawn f pr)
  then show ?thesis using spawn_refines [OF inv lim] ex by simp
next
  case (Terminate k)
  then show ?thesis using terminate_refines [OF inv(1)] ex by simp
next
  case (Suspend k)
  then show ?thesis using suspend_refines [OF inv] ex by simp
next
  case (Resume k)
  then show ?thesis using resume_refines [OF inv] ex by simp
next
  case Timer
  then show ?thesis using timer_refines [OF inv out] ex by simp
next
  case GetTid
  then have "c = Returned (s_run (sched_of s))" "t = s"
    using ex by (auto simp: return_int_def uthread_get_tid_def sched_of_def split: option.splits)
  then show ?thesis using GetTid by (simp only: sched_step.Get_tid)
next
  case GetTotalQuantums
  then have "c = Returned (s_total (sched_of s))" "t = s"
    using ex by (auto simp: return_int_def uthread_get_total_quantums_def sched_of_def)
  then show ?thesis using GetTotalQuantums by (simp only: sched_step.Get_total)
next
  case (GetQuantums k)
  show ?thesis
  proof (cases "om_find (threads s) k")
    case None
    then have "c = Returned FAIL" "sched_of t = sched_of s"
      using ex GetQuantums by (auto simp: return_int_def uthread_get_quantums_def Let_def sched_of_def)
    moreover have "k \<notin> dom (s_info (sched_of s))" unfolding sched_of_def dom_view using None by simp
    ultimately show ?thesis unfolding GetQuantums by (simp only:) (rule sched_step.Get_quanta_unknown)
  next
    case (Some p)
    then have "c = Returned (i_quanta (tinfo_of (heap s ! p)))" "sched_of t = sched_of s"
      using ex GetQuantums
      by (auto simp: return_int_def uthread_get_quantums_def Let_def sched_of_def tinfo_of_def)
    moreover have "s_info (sched_of s) k = Some (tinfo_of (heap s ! p))" using Some by (simp add: sched_of_def)
    ultimately show ?thesis unfolding GetQuantums by (simp only:) (rule sched_step.Get_quanta)
  qed
qed

interpretation usched: event_refinement "uexec env" "\<lambda>s. uinv s \<and> \<not> masked s \<and> runs_outside s \<and> within_limit s"
    "\<lambda>_. True" sched_of sched_step for env
proof unfold_locales
  fix s e c t
  assume inv: "uinv s \<and> \<not> masked s \<and> runs_outside s \<and> within_limit s" and ex: "uexec env e s = Some (Ok c t)"
  then show "uinv t \<and> \<not> masked t \<and> runs_outside t \<and> within_limit t"
    using uth.exec_invar [OF _ TrueI ex] uexec_keeps uexec_within_limit ex by blast
  show "sched_step (sched_of s) e c (sched_of t)" using uexec_refines inv ex by blast
qed

lemma started_refines: "sched_of (started env q) = sched_init"
  by (simp add: sched_of_def view_def sched_init_def started_def all_ready_def tinfo_of_def fun_eq_iff)

end
