(* ===== verification/Uthreads_Props.thy ===== *)
theory Uthreads_Props
  imports Uthreads_Spec
begin

text \<open>
  The properties of the thread library, each followed by a run on which its hypotheses hold.
  \<open>demo_env\<close> is an operating system on which every call succeeds; \<open>after\<close> gives the state at
  the end of a list of events.
\<close>

section \<open>Demonstration runs\<close>

definition demo_env :: sys where
  "demo_env = \<lparr>sigemptyset_ret = 0, sigaddset_ret = 0, sigaction_ret = 0,
     setitimer_ret = (\<lambda>_. 0), guard = 4660, stack_at = (\<lambda>n. 4096 * of_nat (Suc n))\<rparr>"

definition after :: "uevent list \<Rightarrow> ustate" where
  "after es = (case run_events (uexec demo_env) es (started demo_env 1000) of
     Some (Ok cs t) \<Rightarrow> t | _ \<Rightarrow> started demo_env 1000)"

lemmas uthreads_eval = after_def started_def demo_env_def uthread_spawn_def spawn_masked_def uthread_terminate_def terminate_masked_def
  uthread_suspend_def suspend_masked_def uthread_resume_def resume_masked_def return_int_def block_signals_def unblock_signals_def
  getNextId_def MAX_THREAD_NUM_def push_ready_def timer_signal_def timeHandler_def and_load_def
  loadBuf.simps suspend_self_def terminate_self_def switchThreads_def runThread_def popReady_def
  getReady_def setTime_def upd_thread_def removeFromReady_def removeFromBlock_def
  translatePriority_def printError_def all_ready_def Let_def

lemma ureachable_run:
  "ureachable env s \<Longrightarrow> run_events (uexec env) es s = Some (Ok cs t) \<Longrightarrow> ureachable env t"
proof (induction es arbitrary: s cs)
  case Nil
  then show ?case by simp
next
  case (Cons e es)
  from Cons.prems(2) obtain c u cs' where "uexec env e s = Some (Ok c u)"
    and "run_events (uexec env) es u = Some (Ok cs' t)"
    by (auto split: option.splits outcome.splits)
  with Cons.IH Cons.prems(1) ureachable.step show ?case by blast
qed

lemma demo_started: "uthread_init demo_env 1000 initial_ustate = Ok SUCCESS (started demo_env 1000)"
  by (rule uthread_init_started) (simp_all add: demo_env_def)

lemma demo_reachable: "ureachable demo_env (after es)"
proof -
  have s: "ureachable demo_env (started demo_env 1000)" by (rule ureachable.init [OF demo_started])
  then show ?thesis
    using ureachable_run [OF s, of es] by (auto simp: after_def split: option.split outcome.split)
qed

lemma demo_timer: "timer_works demo_env"
  by (simp add: timer_works_def demo_env_def)

section \<open>Safety\<close>

definition in_places :: "ptr \<Rightarrow> ustate \<Rightarrow> bool" where
  "in_places r s \<longleftrightarrow>
    distinct (r # all_ready s @ blocked s) \<and>
    set (r # all_ready s @ blocked s) = snd ` set (threads s) \<and>
    t_state (heap s ! r) = RUNNING \<and>
    list_all (\<lambda>p. t_state (heap s ! p) = READY \<and> p \<in> set (ready s (queue_of (t_pr (heap s ! p)))))
      (all_ready s) \<and>
    list_all (\<lambda>p. t_state (heap s ! p) = BLOCK) (blocked s)"

lemma uinv_places:
  assumes "uinv s"
  shows "\<exists>r. running s = Some r \<and> in_places r s"
proof -
  obtain r where r: "running s = Some r" "handover r s" "t_state (heap s ! r) = RUNNING"
    using assms by (auto simp: uinv_handover)
  then have qs: "queue_states s" and pl: "placed [r] s" and tab: "table_ok s"
    by (simp_all add: orderly_def)
  have "list_all (\<lambda>p. t_state (heap s ! p) = READY \<and> p \<in> set (ready s (queue_of (t_pr (heap s ! p)))))
      (all_ready s)"
    unfolding list_all_iff
  proof
    fix p assume "p \<in> set (all_ready s)"
    then have "p \<in> set (ready s (queue_of (t_pr (heap s ! p))))" by (simp add: ready_iff [OF qs])
    then show "t_state (heap s ! p) = READY \<and> p \<in> set (ready s (queue_of (t_pr (heap s ! p))))"
      using queue_statesD(1) [OF qs] by blast
  qed
  moreover have "list_all (\<lambda>p. t_state (heap s ! p) = BLOCK) (blocked s)"
    using queue_statesD(3) [OF qs] by (simp add: list_all_iff)
  ultimately show ?thesis
    using r placed_distinct [OF pl tab] placed_set [OF pl] by (auto simp: live_def in_places_def)
qed

text \<open>
  C1: In every reachable state there is a running thread; the live threads are the running
  one, those in the three ready queues and the blocked ones, each in exactly one place; and a
  thread's state and priority agree with the place it is in.
\<close>

theorem reachable_places:
  assumes "ureachable env s"
  shows "\<exists>r. running s = Some r \<and>
    distinct (r # all_ready s @ blocked s) \<and>
    set (r # all_ready s @ blocked s) = snd ` set (threads s) \<and>
    t_state (heap s ! r) = RUNNING \<and>
    list_all (\<lambda>p. t_state (heap s ! p) = READY \<and> p \<in> set (ready s (queue_of (t_pr (heap s ! p)))))
      (all_ready s) \<and>
    list_all (\<lambda>p. t_state (heap s ! p) = BLOCK) (blocked s)"
  using uinv_places ureachable_ok [OF assms] by (auto simp: in_places_def)

theorem reachable_places_witness:
  "\<exists>r. running (after [Spawn 7 RED, Timer]) = Some r \<and> t_state (heap (after [Spawn 7 RED, Timer]) ! r) = RUNNING"
  using reachable_places [OF demo_reachable [of "[Spawn 7 RED, Timer]"]] by blast

text \<open>
  C3: In a reachable state every call of the library and every timer signal comes back to the
  caller or ends in a switch to a thread: no null pointer, no failed look-up, no endless chain
  of switches. Only \<open>uthread_terminate(0)\<close> ends the process.
\<close>

theorem library_progress:
  assumes "ureachable env s" and "timer_works env" and "e \<noteq> Terminate 0"
  shows "\<exists>c t. uexec env e s = Some (Ok c t)"
proof -
  have "step_ok (uexec env e s)" using ureachable_ok [OF assms(1)] by (simp add: uexec_ok)
  then show ?thesis using uexec_no_exit [OF assms(2,3)] by (auto simp: step_ok_def)
qed

theorem library_progress_witness:
  "\<exists>c t. uexec demo_env (Suspend 1) (after [Spawn 7 RED, Timer]) = Some (Ok c t)"
  by (rule library_progress [OF demo_reachable demo_timer]) simp

text \<open>
  C4: Whatever sequence of calls and timer signals follows a successful initialisation, and
  even if \<open>setitimer\<close> fails, the run comes to its end without undefined behaviour: it stops
  early only by ending the process.
\<close>

theorem every_run_safe:
  assumes "uthread_init env q initial_ustate = Ok SUCCESS s"
  shows "\<exists>x. run_events (uexec env) es s = Some x \<and> \<not> is_fault x"
  using uth.run_safe [where s = s and env = env and es = es] uthread_init_success [OF assms] uinv_started
  by (auto simp: list_all_iff)

theorem every_run_safe_witness:
  "\<exists>x. run_events (uexec demo_env) [Spawn 7 RED, Timer, Suspend 1, Resume 1, Timer]
     (started demo_env 1000) = Some x \<and> \<not> is_fault x"
  by (rule every_run_safe [OF demo_started])

text \<open>
  C7: The library's quantum counter is the sum of the quanta of all threads ever created, and
  the number of times the timer was armed.
\<close>

theorem quanta_accounted:
  assumes "ureachable env s"
  shows "uthread_get_total_quantums s = sum_list (map getQuantom (heap s)) \<and>
    uthread_get_total_quantums s = int (armed s)"
proof -
  have "count_ok s" using ureachable_ok [OF assms] by (simp add: uinv_def)
  moreover have "getQuantom = t_quantom" by (rule ext) simp
  ultimately show ?thesis unfolding uthread_get_total_quantums_def count_ok_def by simp
qed

theorem quanta_accounted_witness:
  "uthread_get_total_quantums (after [Spawn 7 RED, Timer, Timer]) = 3 \<and>
   sum_list (map getQuantom (heap (after [Spawn 7 RED, Timer, Timer]))) = 3"
proof -
  have "armed (after [Spawn 7 RED, Timer, Timer]) = 3" by (simp add: uthreads_eval)
  then show ?thesis using quanta_accounted [OF demo_reachable [of "[Spawn 7 RED, Timer, Timer]"]] by simp
qed

text \<open>
  The main thread (id 0) is never blocked: it is in the table, running or ready, in every
  reachable state; suspending it is refused with a message and changes nothing else.
\<close>

lemma main_thread_stays:
  assumes "ureachable env s"
  shows "(\<exists>m. om_find (threads s) 0 = Some m \<and> m \<notin> set (blocked s)) \<and>
    uexec env (Suspend 0) s = Some (Ok (Returned FAIL)
      (s\<lparr>errlog := errlog s @ [''thread library error: You are trying to suspend the main thread'']\<rparr>))"
proof -
  have "uinv s" using ureachable_ok [OF assms] by simp
  then obtain m where m: "om_find (threads s) 0 = Some m" "t_tid (heap s ! m) = 0"
    by (auto simp: uinv_def main_ok_def table_ok_def)
  moreover have "m \<notin> set (blocked s)" using \<open>uinv s\<close> m(2) by (auto simp: uinv_def queue_states_def)
  ultimately show ?thesis
    by (simp add: uthread_suspend_def suspend_masked_def return_int_def printError_def THREAD_ERROR_def)
qed

lemma main_thread_stays_example:
  "\<exists>m. om_find (threads (after [Spawn 7 RED, Timer])) 0 = Some m \<and>
     m \<notin> set (blocked (after [Spawn 7 RED, Timer]))"
  using main_thread_stays [OF demo_reachable [of "[Spawn 7 RED, Timer]"]] by blast

section \<open>Refinement\<close>

text \<open>
  C2: The library implements the abstract scheduler of \<open>Uthreads_Spec\<close>: whatever sequence of
  calls and timer signals follows a successful initialisation, the specification has exactly one
  run over it, which gives the same answers and ends in the abstraction of the state reached.
\<close>

theorem refines_scheduler:
  assumes "uthread_init env q initial_ustate = Ok SUCCESS s"
    and "run_events (uexec env) es s = Some (Ok cs t)"
  shows "spec_run sched_step sched_init es cs' A \<longleftrightarrow> cs' = cs \<and> A = sched_of t"
proof -
  have "s = started env q" by (rule uthread_init_success [OF assms(1)])
  moreover have "runs_outside (started env q)" "within_limit (started env q)"
    by (simp_all add: runs_outside_def within_limit_def started_def MAX_THREAD_NUM_def)
  ultimately have run: "spec_run sched_step sched_init es cs (sched_of t)"
    using usched.run_refines [of s es env cs t] assms(2) uinv_started
    by (simp add: started_refines list_all_iff)
  then show ?thesis using sched_run_unique [OF run] by blast
qed

theorem refines_scheduler_witness:
  "\<exists>A. spec_run sched_step sched_init [Spawn 7 RED, Spawn 8 GREEN, Timer, Suspend 1, Resume 1, Timer]
       [Returned 1, Returned 2, Switched, Switched, Returned 0, Switched] A \<and>
     s_run A = 0 \<and> s_queue A = [2] \<and> s_blocked A = {1} \<and> s_total A = 5"
proof -
  let ?es = "[Spawn 7 RED, Spawn 8 GREEN, Timer, Suspend 1, Resume 1, Timer]"
  have "run_events (uexec demo_env) ?es (started demo_env 1000)
      = Some (Ok [Returned 1, Returned 2, Switched, Switched, Returned 0, Switched] (after ?es))"
    by (simp add: uthreads_eval)
  then have "spec_run sched_step sched_init ?es
      [Returned 1, Returned 2, Switched, Switched, Returned 0, Switched] (sched_of (after ?es))"
    using refines_scheduler [OF demo_started] by blast
  moreover have "s_run (sched_of (after ?es)) = 0" "s_queue (sched_of (after ?es)) = [2]"
      "s_blocked (sched_of (after ?es)) = {1}" "s_total (sched_of (after ?es)) = 5"
    by (simp_all add: sched_of_def uthreads_eval)
  ultimately show ?thesis by blast
qed

section \<open>Creating and ending threads\<close>

text \<open>
  C8: \<open>uthread_spawn\<close> returns the smallest id no live thread has. The new thread is READY, has
  no quantum yet and is last in the queue of its priority; nothing else changes. With 100 live
  threads it returns \<open>-1\<close> with a message and changes nothing else.
\<close>

theorem spawn_result:
  assumes "ureachable env s"
  shows "if length (threads s) = MAX_THREAD_NUM
    then uthread_spawn env f pr s = Ok FAIL (printError TOO_MANY_THREADS THREAD_ERROR s)
    else \<exists>t tid th. uthread_spawn env f pr s = Ok tid t \<and>
      0 \<le> tid \<and> om_find (threads s) tid = None \<and>
      (\<nexists>k. 0 \<le> k \<and> k < tid \<and> om_find (threads s) k = None) \<and>
      heap t = heap s @ [th] \<and> t_tid th = tid \<and> t_pr th = pr \<and> t_f th = f \<and>
      t_state th = READY \<and> t_quantom th = 0 \<and>
      om_find (threads t) = (om_find (threads s))(tid \<mapsto> length (heap s)) \<and>
      ready t = (ready s)(queue_of pr := ready s (queue_of pr) @ [length (heap s)]) \<and>
      blocked t = blocked s \<and> running t = running s \<and> errlog t = errlog s"
proof (cases "length (threads s) = MAX_THREAD_NUM")
  case True
  then show ?thesis by (simp add: uthread_spawn_def spawn_masked_def)
next
  case False
  have inv: "uinv s" using ureachable_ok [OF assms] by simp
  then have tab: "table_ok s" and run: "running s \<noteq> None" by (auto simp: uinv_def)
  have ok: "om_ok (threads s)" using tab by (simp add: table_ok_def)
  note ids = table_ids_ok [OF tab]
  let ?th = "new_thread (guard env) (stack_at env (length (heap s))) (getNextId s) pr f READY"
  let ?t = "unblock_signals (push_ready (queue_of pr) (length (heap s)) (enrolled env f pr (block_signals s)))"
  have next_same: "getNextId (block_signals s) = getNextId s" by (simp add: getNextId_def)
  have fresh: "om_find (threads s) (getNextId s) = None"
    using tids.next_fresh [OF ids] om.keys_find [OF ok] by simp
  have least: "om_find (threads s) k \<noteq> None" if "0 \<le> k" "k < getNextId s" for k
    using tids.next_least [OF ids that] om.keys_find [OF ok] by blast
  have "heap ?t = heap s @ [?th]" "blocked ?t = blocked s" "running ?t = running s"
      "ready ?t = (ready s)(queue_of pr := ready s (queue_of pr) @ [length (heap s)])"
      "om_find (threads ?t) = (om_find (threads s))(getNextId s \<mapsto> length (heap s))"
      "errlog ?t = errlog s"
    by (simp_all add: enrolled_def next_same om.find_ins_new [OF ok fresh])
      (simp add: unblock_signals_def block_signals_def)
  then show ?thesis
    using False spawn_eq [OF run False, of env f pr] fresh least tids.next_nonneg [OF ids] by fastforce
qed

theorem spawn_result_witness:
  "\<exists>t th. uthread_spawn demo_env 9 GREEN (after [Spawn 7 RED, Spawn 8 RED, Terminate 1]) = Ok 1 t \<and>
     heap t = heap (after [Spawn 7 RED, Spawn 8 RED, Terminate 1]) @ [th] \<and> t_state th = READY \<and>
     ready t GREEN_Q = [3]"
proof -
  let ?s = "after [Spawn 7 RED, Spawn 8 RED, Terminate 1]"
  have s: "length (threads ?s) = 2" "length (heap ?s) = 3" "om_find (threads ?s) 1 = None"
      "om_find (threads ?s) 0 = Some 0" "ready ?s GREEN_Q = []"
    by (simp_all add: uthreads_eval)
  obtain t tid th where sp: "uthread_spawn demo_env 9 GREEN ?s = Ok tid t" "0 \<le> tid"
      "om_find (threads ?s) tid = None" "\<nexists>k. 0 \<le> k \<and> k < tid \<and> om_find (threads ?s) k = None"
      "heap t = heap ?s @ [th]" "t_state th = READY"
      "ready t = (ready ?s)(queue_of GREEN := ready ?s (queue_of GREEN) @ [length (heap ?s)])"
    using spawn_result [OF demo_reachable [of "[Spawn 7 RED, Spawn 8 RED, Terminate 1]"], of 9 GREEN] s(1)
    by (auto simp: MAX_THREAD_NUM_def)
  have "\<not> 1 < tid" using sp(4) s(3) by auto
  moreover have "tid \<noteq> 0" using sp(3) s(4) by auto
  ultimately have "tid = 1" using sp(2) by simp
  then show ?thesis using sp s by simp
qed

text \<open>
  An id is given out again as soon as possible: after another thread \<open>tid\<close> with a smaller id
  than the next free one is terminated, the next spawn returns \<open>tid\<close>.
\<close>

lemma freed_id_reused:
  assumes reach: "ureachable env s" and run: "running s = Some r" and find: "om_find (threads s) tid = Some p"
    and other: "tid \<noteq> t_tid (heap s ! r)" and nz: "tid \<noteq> 0" and small: "tid < getNextId s"
  shows "\<exists>t. uexec env (Terminate tid) s = Some (Ok (Returned SUCCESS) t) \<and>
    om_find (threads t) tid = None \<and> p \<notin> set (all_ready t) \<and> p \<notin> set (blocked t) \<and>
    (\<exists>u. uthread_spawn env f pr t = Ok tid u)"
proof -
  have inv: "uinv s" using ureachable_ok [OF reach] by simp
  then have ho: "handover r s" using run by (auto simp: uinv_handover)
  let ?t = "unblock_signals ((withdrawn p (block_signals s))\<lparr>threads := om_erase tid (threads s)\<rparr>)"
  have ex: "uexec env (Terminate tid) s = Some (Ok (Returned SUCCESS) ?t)"
    using terminate_other_eq [OF ho run find nz other, of env] by (simp add: return_int_def)
  have tinv: "uinv ?t" using ureachable_ok [OF ureachable.step [OF reach ex]] by simp
  have tab: "table_ok s" "table_ok ?t" using inv tinv by (simp_all add: uinv_def)
  have ok: "om_ok (threads s)" using tab(1) by (simp add: table_ok_def)
  have gone: "om_find (threads ?t) tid = None" by (simp add: om.find_erase [OF ok])
  have "0 \<le> tid" using tab(1) find by (auto simp: table_ok_def)
  then have "getNextId ?t = tid"
    using tids.next_after_free [OF table_ids_ok [OF tab(1)] table_ids_ok [OF tab(2)]] small
    by (simp add: om.keys_erase [OF ok])
  moreover have "length (threads ?t) \<noteq> MAX_THREAD_NUM"
    using length_om_erase [of "threads s" tid] find ureachable_within_limit [OF reach]
    by (auto simp: within_limit_def)
  moreover have "running ?t \<noteq> None" using run by simp
  ultimately have "\<exists>u. uthread_spawn env f pr ?t = Ok tid u"
    using spawn_eq [of ?t env f pr] by simp
  moreover have "p \<notin> set (live ?t)"
  proof
    assume "p \<in> set (live ?t)"
    then have "om_find (threads ?t) (t_tid (heap ?t ! p)) = Some p" using table_live(2) [OF tab(2)] by blast
    moreover have "t_tid (heap ?t ! p) = tid" using other_thread(3) [OF ho find other] by simp
    ultimately show False using gone by simp
  qed
  then have "p \<notin> set (all_ready ?t)" "p \<notin> set (blocked ?t)"
    using tinv placed_set by (force simp: uinv_def)+
  ultimately show ?thesis using ex gone by blast
qed

lemma freed_id_reused_example:
  "\<exists>t. uexec demo_env (Terminate 1) (after [Spawn 7 RED, Spawn 8 RED]) = Some (Ok (Returned SUCCESS) t) \<and>
     (\<exists>u. uthread_spawn demo_env 9 GREEN t = Ok 1 u)"
proof -
  let ?s = "after [Spawn 7 RED, Spawn 8 RED]"
  have s: "running ?s = Some 0" "om_find (threads ?s) 1 = Some 1" "t_tid (heap ?s ! 0) = 0" "getNextId ?s = 3"
    by (simp_all add: uthreads_eval)
  show ?thesis
    using freed_id_reused [OF demo_reachable s(1,2), of 9 GREEN] s(3,4) by auto
qed

text \<open>
  C10: A new thread's jump buffer, read back the way \<open>siglongjmp\<close> does, starts the thread's
  function with the stack pointer eight bytes below the top of its own stack block and with no
  signal blocked.
\<close>

theorem fresh_thread_context:
  assumes "uint stack + 4096 < 2 ^ 64"
  shows "\<exists>sp pc. t_jmp_buf (new_thread g stack tid pr f st) = \<lparr>point = AtEntry sp pc, saved_mask = False\<rparr> \<and>
    demangle g pc = f \<and> uint (demangle g sp) = uint stack + 4096 - 8"
  using initial_sp_in_block [OF assms] by (simp add: new_thread_def)

theorem fresh_thread_context_witness:
  "\<exists>sp pc. t_jmp_buf (new_thread 4660 8192 1 RED 7 READY) = \<lparr>point = AtEntry sp pc, saved_mask = False\<rparr> \<and>
    demangle 4660 pc = 7 \<and> uint (demangle 4660 sp) = 8192 + 4096 - 8"
  using fresh_thread_context [of 8192 4660 1 RED 7 READY] by simp

section \<open>Scheduling\<close>

text \<open>
  A timer signal hands the processor to the first thread of the highest non-empty queue
  (RED before ORANGE before GREEN); the thread it interrupted goes to the end of the queue of
  its own priority, and the thread that takes over has used one quantum more.
\<close>

lemma tick_hands_over:
  assumes reach: "ureachable env s" and works: "timer_works env"
    and run: "running s = Some r" and rdy: "all_ready s = p # ps"
    and ctx: "point (t_jmp_buf (heap s ! p)) \<noteq> AtSuspend"
  shows "\<exists>t. uexec env Timer s = Some (Ok Switched t) \<and> running t = Some p \<and>
    mset (all_ready t) = mset (r # ps) \<and>
    last (ready t (queue_of (t_pr (heap s ! r)))) = r \<and>
    blocked t = blocked s \<and> threads t = threads s \<and>
    t_quantom (heap t ! p) = t_quantom (heap s ! p) + 1 \<and> quantum_counter t = quantum_counter s + 1"
proof -
  have inv: "uinv s" "\<not> masked s" using ureachable_ok [OF reach] by simp_all
  then have ho: "handover r s" using run by (auto simp: uinv_handover)
  have ne: "all_ready s \<noteq> []" and hd: "hd (all_ready s) = p" using rdy by simp_all
  let ?t = "(tick_target r s)\<lparr>masked := False\<rparr>"
  have ex: "uexec env Timer s = Some (Ok Switched ?t)"
    using tick_step [OF inv works run ne] ctx hd by simp
  have t: "running ?t = Some p" "blocked ?t = blocked s" "threads ?t = threads s"
      "ready ?t = rotated r s" "quantum_counter ?t = quantum_counter s + 1"
      "t_quantom (heap ?t ! p) = t_quantom (heap s ! p) + 1"
    using tick_target_fields [OF ne] tick_target_quantum [OF ho ne] hd by simp_all
  have "uinv ?t" using ureachable_ok [OF ureachable.step [OF reach ex]] by simp
  then have "mset ([p] @ all_ready ?t @ blocked s) = mset (live s)"
    using t by (simp add: uinv_def placed_def live_def)
  moreover have "mset ([r] @ all_ready s @ blocked s) = mset (live s)"
    using ho by (simp add: orderly_def placed_def)
  ultimately have "add_mset p (mset (all_ready ?t) + mset (blocked s)) = add_mset p (mset (r # ps) + mset (blocked s))"
    using rdy by (simp add: add_mset_commute)
  then have "mset (all_ready ?t) = mset (r # ps)" by simp
  moreover have "last (ready ?t (queue_of (t_pr (heap s ! r)))) = r"
    by (simp add: t rotated_def Let_def)
  ultimately show ?thesis using ex t by (intro exI [of _ ?t]) simp
qed

lemma tick_hands_over_example:
  "\<exists>t. uexec demo_env Timer (after [Spawn 7 GREEN, Spawn 8 RED]) = Some (Ok Switched t) \<and>
     running t = Some 2 \<and> mset (all_ready t) = {#0, 1#}"
proof -
  let ?s = "after [Spawn 7 GREEN, Spawn 8 RED]"
  have s: "running ?s = Some 0" "all_ready ?s = [2, 1]" "point (t_jmp_buf (heap ?s ! 2)) \<noteq> AtSuspend"
    by (simp_all add: uthreads_eval)
  show ?thesis using tick_hands_over [OF demo_reachable demo_timer s] by auto
qed

text \<open>
  The states of a round robin: \<open>xs\<close> take turns in the queue \<open>q\<close> and \<open>hd xs\<close> runs; \<open>low\<close> is what the
  other queues hold, the ones above \<open>q\<close> being empty.
\<close>

definition turn :: "nat \<Rightarrow> ptr list \<Rightarrow> (nat \<Rightarrow> ptr list) \<Rightarrow> ustate \<Rightarrow> bool" where
  "turn q xs low s \<longleftrightarrow>
     xs \<noteq> [] \<and> running s = Some (hd xs) \<and> ready s = low(q := tl xs) \<and> q < 3 \<and>
     (\<forall>i < q. low i = []) \<and> (tl xs = [] \<longrightarrow> low = (\<lambda>_. [])) \<and>
     queue_of (t_pr (heap s ! hd xs)) = q \<and>
     list_all (\<lambda>p. point (t_jmp_buf (heap s ! p)) \<noteq> AtSuspend) (tl xs)"

lemma turn_alone: "turn q [r] low s \<Longrightarrow> all_ready s = []"
  by (simp add: turn_def all_ready_def)

lemma turn_first:
  assumes "turn q (r # p # qs) low s"
  shows "first_queue s = q" "all_ready s \<noteq> []" "hd (all_ready s) = p"
proof -
  have "ready s = low(q := p # qs)" "\<forall>i < q. low i = []" "q < 3" using assms by (simp_all add: turn_def)
  moreover from \<open>q < 3\<close> have "q = 0 \<or> q = 1 \<or> q = 2" by arith
  ultimately show "first_queue s = q" "all_ready s \<noteq> []" "hd (all_ready s) = p"
    by (auto simp: first_queue_def all_ready_def)
qed

lemma turn_tick:
  assumes inv: "uinv s" "\<not> masked s" and works: "timer_works env" and turn: "turn q xs low s"
  shows "\<exists>t. uexec env Timer s = Some (Ok Switched t) \<and> uinv t \<and> \<not> masked t \<and> turn q (rotate1 xs) low t"
proof -
  obtain r ps where xs: "xs = r # ps" using turn by (cases xs) (auto simp: turn_def)
  have run: "running s = Some r" and rd: "ready s = low(q := ps)"
    and pr: "queue_of (t_pr (heap s ! r)) = q"
    and ctx: "list_all (\<lambda>p. point (t_jmp_buf (heap s ! p)) \<noteq> AtSuspend) ps"
    using turn by (simp_all add: turn_def xs)
  have ho: "handover r s" using inv run by (auto simp: uinv_handover)
  let ?t = "(tick_target r s)\<lparr>masked := False\<rparr>"
  have t: "uinv ?t" using tick_cases(2) [OF ho run] by simp
  show ?thesis
  proof (cases ps)
    case Nil
    note alone = tick_alone [OF inv works run turn_alone [OF turn [unfolded xs Nil]]]
    have "t_pr (heap ?t ! r) = t_pr (heap s ! r)" by (simp add: tick_target_heap [where f = t_pr])
    then have "turn q (rotate1 xs) low ?t"
      using alone rd pr turn Nil by (simp add: turn_def xs)
    then show ?thesis using alone t by auto
  next
    case (Cons p qs)
    note next_up = turn_first [OF turn [unfolded xs Cons]]
    have ex: "uexec env Timer s = Some (Ok Switched ?t)"
      using tick_step [OF inv works run next_up(2)] ctx next_up(3) Cons by simp
    have notin: "r \<notin> set ps" using handover_in_hand(1) [OF ho] rd turn
      by (auto simp: all_ready_def turn_def less_Suc_eq numeral_3_eq_3)
    have "queue_of (t_pr (heap s ! p)) = q"
      using queue_statesD(2) [of s p q] ho rd Cons by (simp add: orderly_def)
    moreover have "ready ?t = low(q := qs @ [r])"
      using tick_target_fields [OF next_up(2), of r] pr rd next_up(1) Cons
      by (simp add: rotated_def Let_def)
    moreover have "running ?t = Some p" using tick_target_fields [OF next_up(2), of r] next_up(3) by simp
    moreover have "t_pr (heap ?t ! p) = t_pr (heap s ! p)" by (simp add: tick_target_heap [where f = t_pr])
    moreover have "point (t_jmp_buf (heap ?t ! r)) \<noteq> AtSuspend"
      using tick_target_point_self [OF handover_in_hand(3) [OF ho]] by simp
    moreover have "list_all (\<lambda>p. point (t_jmp_buf (heap ?t ! p)) \<noteq> AtSuspend) qs"
      unfolding list_all_iff
    proof
      fix x assume x: "x \<in> set qs"
      then have "x \<noteq> r" using notin Cons by auto
      then have "t_jmp_buf (heap ?t ! x) = t_jmp_buf (heap s ! x)" by (simp add: tick_target_point)
      then show "point (t_jmp_buf (heap ?t ! x)) \<noteq> AtSuspend"
        using ctx x Cons by (simp add: list_all_iff)
    qed
    ultimately have "turn q (rotate1 xs) low ?t"
      using turn Cons by (simp add: turn_def xs)
    then show ?thesis using ex t by auto
  qed
qed

lemma turn_ticks:
  assumes "ureachable env s" and works: "timer_works env" and "turn q xs low s"
  shows "\<exists>cs t. run_events (uexec env) (replicate n Timer) s = Some (Ok cs t) \<and> turn q (rotate n xs) low t"
proof -
  have "uinv s" "\<not> masked s" using ureachable_ok [OF assms(1)] by simp_all
  then show ?thesis using assms(3)
  proof (induction n arbitrary: s xs)
    case 0
    then show ?case by simp
  next
    case (Suc n)
    obtain u where u: "uexec env Timer s = Some (Ok Switched u)" "uinv u" "\<not> masked u"
        "turn q (rotate1 xs) low u"
      using turn_tick [OF Suc.prems(1,2) works Suc.prems(3)] by blast
    obtain cs t where "run_events (uexec env) (replicate n Timer) u = Some (Ok cs t)"
        "turn q (rotate n (rotate1 xs)) low t"
      using Suc.IH [OF u(2-4)] by blast
    then show ?case using u(1) by (auto simp: rotate1_rotate_swap)
  qed
qed

text \<open>
  C11: Round robin is fair within a priority: while the running thread and the ready threads of
  its queue \<open>q\<close> are the only ones of the highest priority, \<open>n\<close> timer signals rotate them \<open>n\<close>
  places, so that every one of them runs again after as many ticks as there are threads.
\<close>

theorem round_robin:
  assumes "ureachable env s" and "timer_works env" and "turn q xs low s" and "n < length xs"
  shows "\<exists>cs t. run_events (uexec env) (replicate n Timer) s = Some (Ok cs t) \<and>
    running t = Some (xs ! n) \<and> ready t q = drop (Suc n) xs @ take n xs"
proof -
  obtain cs t where t: "run_events (uexec env) (replicate n Timer) s = Some (Ok cs t)"
      "turn q (rotate n xs) low t"
    using turn_ticks [OF assms(1-3)] by blast
  have rot: "rotate n xs = xs ! n # drop (Suc n) xs @ take n xs"
    using assms(4) by (simp add: rotate_drop_take Cons_nth_drop_Suc flip: append_Cons)
  show ?thesis using t by (simp add: turn_def rot)
qed

theorem round_robin_witness:
  "\<exists>cs t. run_events (uexec demo_env) (replicate 2 Timer) (after [Spawn 7 ORANGE, Spawn 8 ORANGE])
     = Some (Ok cs t) \<and> running t = Some 2 \<and> ready t ORANGE_Q = [0, 1]"
proof -
  let ?s = "after [Spawn 7 ORANGE, Spawn 8 ORANGE]"
  have "turn ORANGE_Q [0, 1, 2] (\<lambda>_. []) ?s" by (simp add: turn_def uthreads_eval numeral_2_eq_2)
  then show ?thesis
    using round_robin [OF demo_reachable demo_timer, of ORANGE_Q "[0, 1, 2]" "\<lambda>_. []"
        "[Spawn 7 ORANGE, Spawn 8 ORANGE]" 2]
    by (simp add: numeral_2_eq_2)
qed

text \<open>
  C12: Priorities are strict: while two or more threads of the highest priority take turns, no
  number of timer signals lets a thread of a lower queue run, and the lower queues stay as
  they are.
\<close>

theorem lower_priority_starves:
  assumes "ureachable env s" and "timer_works env" and "turn q xs low s"
  shows "\<exists>cs t p. run_events (uexec env) (replicate n Timer) s = Some (Ok cs t) \<and>
    running t = Some p \<and> p \<in> set xs \<and> queue_of (t_pr (heap t ! p)) = q \<and>
    ready t = (ready s)(q := tl (rotate n xs))"
proof -
  obtain cs t where t: "run_events (uexec env) (replicate n Timer) s = Some (Ok cs t)"
      "turn q (rotate n xs) low t"
    using turn_ticks [OF assms] by blast
  moreover have "hd (rotate n xs) \<in> set (rotate n xs)"
    using t(2) by (intro hd_in_set) (simp add: turn_def)
  ultimately show ?thesis using assms(3) by (auto simp: turn_def)
qed

theorem lower_priority_starves_witness:
  "\<exists>cs t p. run_events (uexec demo_env) (replicate 100 Timer)
       (after [Spawn 7 GREEN, Spawn 8 RED, Spawn 9 RED, Timer]) = Some (Ok cs t) \<and>
     running t = Some p \<and> p \<in> {2, 3} \<and> ready t GREEN_Q = [1] \<and> ready t ORANGE_Q = [0]"
proof -
  let ?es = "[Spawn 7 GREEN, Spawn 8 RED, Spawn 9 RED, Timer]"
  have "turn RED_Q [2, 3] ((\<lambda>_. [])(ORANGE_Q := [0], GREEN_Q := [1])) (after ?es)"
    by (simp add: turn_def uthreads_eval numeral_2_eq_2 numeral_3_eq_3) (simp add: fun_eq_iff)
  moreover have "ready (after ?es) GREEN_Q = [1]" "ready (after ?es) ORANGE_Q = [0]"
    by (simp_all add: uthreads_eval)
  ultimately show ?thesis
    using lower_priority_starves [OF demo_reachable demo_timer, of RED_Q "[2, 3]" _ ?es 100]
    by fastforce
qed

section \<open>Suspending and resuming\<close>

lemma suspend_self_marks:
  assumes inv: "uinv s" and run: "running s = Some r" and tid: "t_tid (heap s ! r) \<noteq> 0"
    and ex: "uexec env (Suspend (t_tid (heap s ! r))) s = Some (Ok c t)"
  shows "r < length (heap t)" "point (t_jmp_buf (heap t ! r)) = AtSuspend" "runs_outside t"
proof -
  have ho: "handover r s" using inv run by (auto simp: uinv_handover)
  let ?s1 = "upd_thread (saveBuf AtSuspend (masked (block_signals s))) r (block_signals s)"
  have "and_load env (suspend_self env ?s1) = Some (Ok c t)"
    using ex tid run handover_in_hand(4) [OF ho] by (simp add: uthread_suspend_def suspend_masked_def Let_def)
  then have k: "keeps_suspended ?s1 t \<and> runs_outside t"
    by (rule switched_keeps) (intro keeps_suspended_bufs suspend_self_bufs(1))
  have r: "r < length (heap s)" by (rule handover_in_hand(3) [OF ho])
  then have "point (t_jmp_buf (heap ?s1 ! r)) = AtSuspend" by (simp add: heap_upd_thread)
  then show "r < length (heap t)" "point (t_jmp_buf (heap t ! r)) = AtSuspend" "runs_outside t"
    using k r by (auto simp: keeps_suspended_def)
qed

text \<open>
  C13: A thread that suspends itself never runs again, not even after \<open>uthread_resume\<close>: the
  return value of \<open>saveBuf\<close> is ignored in \<open>uthread_suspend\<close>, so a thread switched to at that
  point puts itself on the blocked list once more.
\<close>

theorem self_suspension_is_final:
  assumes reach: "ureachable env s" and run: "running s = Some r" and tid: "t_tid (heap s ! r) \<noteq> 0"
    and susp: "uexec env (Suspend (t_tid (heap s ! r))) s = Some (Ok c t)"
    and later: "run_events (uexec env) es t = Some (Ok cs u)"
  shows "running u \<noteq> Some r"
proof -
  have inv: "uinv s" using ureachable_ok [OF reach] by simp
  have t: "ureachable env t" by (rule ureachable.step [OF reach susp])
  note marked = suspend_self_marks [OF inv run tid susp]
  have "keeps_suspended t u \<and> runs_outside u"
    using run_keeps [OF _ _ marked(3) later] ureachable_ok [OF t] by simp
  then show ?thesis using marked by (auto simp: keeps_suspended_def runs_outside_def)
qed

theorem self_suspension_is_final_witness:
  "let u = after [Spawn 7 RED, Timer, Suspend 1, Resume 1, Timer, Timer]
   in running (after [Spawn 7 RED, Timer]) = Some 1 \<and> running u \<noteq> Some 1 \<and> running u \<noteq> None"
proof -
  let ?s = "after [Spawn 7 RED, Timer]" and ?es = "[Resume 1, Timer, Timer]"
  let ?u = "after [Spawn 7 RED, Timer, Suspend 1, Resume 1, Timer, Timer]"
  have s: "running ?s = Some 1" "t_tid (heap ?s ! 1) = 1" by (simp_all add: uthreads_eval)
  have susp: "uexec demo_env (Suspend (t_tid (heap ?s ! 1))) ?s
      = Some (Ok Switched (after [Spawn 7 RED, Timer, Suspend 1]))"
    by (simp add: uthreads_eval)
  have later: "run_events (uexec demo_env) ?es (after [Spawn 7 RED, Timer, Suspend 1])
      = Some (Ok [Returned 0, Switched, Switched] ?u)"
    by (simp add: uthreads_eval)
  have "running ?u \<noteq> Some 1"
    using self_suspension_is_final [OF demo_reachable s(1) _ susp later] s(2) by simp
  moreover have "running ?u \<noteq> None" by (simp add: uthreads_eval)
  ultimately show ?thesis using s(1) by (simp add: Let_def)
qed

text \<open>
  Suspending another ready thread and resuming it gives back the state before, but for the
  thread's place: it goes to the end of its own queue.
\<close>

lemma suspend_resume:
  assumes reach: "ureachable env s" and find: "om_find (threads s) tid = Some p" and tid: "tid \<noteq> 0"
    and rdy: "p \<in> set (ready s q)"
  shows "run_events (uexec env) [Suspend tid, Resume tid] s =
    Some (Ok [Returned SUCCESS, Returned SUCCESS] (s\<lparr>ready := (ready s)(q := remove1 p (ready s q) @ [p])\<rparr>))"
proof -
  have inv: "uinv s" "\<not> masked s" "sa_mask s" using ureachable_ok [OF reach] by (simp_all add: uinv_def)
  obtain r where run: "running s = Some r" and ho: "handover r s" using inv(1) by (auto simp: uinv_handover)
  have qs: "queue_states s" using inv(1) by (simp add: uinv_def)
  note p = queue_statesD(1,2) [OF qs rdy]
  have q: "p \<in> set (all_ready s)" using rdy p(2) by (simp add: ready_iff [OF qs])
  have other: "tid \<noteq> t_tid (heap s ! r)"
    using find handover_in_hand(1,4) [OF ho] q by auto
  note o = other_thread [OF ho find other]
  let ?t = "unblock_signals (let t = upd_thread (setState BLOCK) p (unready p (block_signals s))
    in t\<lparr>blocked := blocked t @ [p]\<rparr>)"
  have "uexec env (Suspend tid) s = Some (Ok (Returned SUCCESS) ?t)"
    using suspend_other_eq [OF ho run find tid other, of env] q by (simp add: return_int_def Let_def)
  moreover have "uthread_resume tid ?t = Ok SUCCESS (s\<lparr>ready := (ready s)(q := remove1 p (ready s q) @ [p])\<rparr>)"
  proof -
    have "uthread_resume tid ?t = Ok SUCCESS (unblock_signals (awakened p (block_signals ?t)))"
      using find by (intro resume_blocked_eq) (simp_all add: Let_def)
    also have "unblock_signals (awakened p (block_signals ?t)) =
        s\<lparr>ready := (ready s)(q := remove1 p (ready s q) @ [p])\<rparr>"
    proof -
      have same: "setState READY (setState BLOCK (heap s ! p)) = heap s ! p"
        using p(1) by (cases "heap s ! p") simp
      have "p \<notin> set (blocked s)" using o(6) q by blast
      then show ?thesis
        using p(2) o(4) inv(2,3) same
        by (cases s) (simp add: awakened_def unready_def unblocked_def push_ready_def upd_thread_def
            block_signals_def unblock_signals_def Let_def remove1_append)
    qed
    finally show ?thesis .
  qed
  ultimately show ?thesis by (simp add: return_int_def)
qed

lemma suspend_resume_example:
  "\<exists>t. run_events (uexec demo_env) [Suspend 1, Resume 1] (after [Spawn 7 RED, Spawn 8 RED])
     = Some (Ok [Returned 0, Returned 0] t) \<and> ready t RED_Q = [2, 1]"
proof -
  let ?s = "after [Spawn 7 RED, Spawn 8 RED]"
  have s: "om_find (threads ?s) 1 = Some 1" "1 \<in> set (ready ?s RED_Q)" "ready ?s RED_Q = [1, 2]"
    by (simp_all add: uthreads_eval)
  show ?thesis using suspend_resume [OF demo_reachable s(1) _ s(2)] s(3) by simp
qed

text \<open>The calls on an id: the id is refused, it is the running thread's, or another thread's.\<close>

lemma call_target:
  obtains (refused) "tid = 0 \<or> om_find (threads s) tid = None"
    | (itself) "tid \<noteq> 0" "om_find (threads s) tid \<noteq> None" "tid = t_tid (heap s ! r)"
    | (other) p where "tid \<noteq> 0" "om_find (threads s) tid = Some p" "tid \<noteq> t_tid (heap s ! r)"
  by fastforce

lemma terminate_fails:
  assumes ho: "handover r s" and run: "running s = Some r"
    and ex: "uthread_terminate env tid s = Some (Ok (Returned FAIL) t)"
  shows "t = s\<lparr>errlog := errlog t\<rparr>"
proof (cases rule: call_target [where tid = tid and s = s and r = r])
  case refused
  then show ?thesis using ex
    by (cases "tid = 0") (auto simp: uthread_terminate_def terminate_masked_def return_int_def printError_def)
next
  case itself
  then have "and_load env (terminate_self env tid r (block_signals s)) = Some (Ok (Returned FAIL) t)"
    using ex run by (auto simp: uthread_terminate_def terminate_masked_def Let_def)
  then show ?thesis by (auto dest: and_load_switched)
next
  case (other p)
  then show ?thesis using ex terminate_other_eq [OF ho run other(2,1,3), of env]
    by (simp add: return_int_def)
qed

lemma suspend_fails:
  assumes ho: "handover r s" and run: "running s = Some r"
    and same: "unblock_signals (block_signals s) = s"
    and ex: "uthread_suspend env tid s = Some (Ok (Returned FAIL) t)"
  shows "t = s\<lparr>errlog := errlog t\<rparr>"
proof (cases rule: call_target [where tid = tid and s = s and r = r])
  case refused
  then show ?thesis using ex
    by (cases "tid = 0") (auto simp: uthread_suspend_def suspend_masked_def return_int_def printError_def)
next
  case itself
  let ?s1 = "upd_thread (saveBuf AtSuspend (masked (block_signals s))) r (block_signals s)"
  have "and_load env (suspend_self env ?s1) = Some (Ok (Returned FAIL) t)"
    using ex itself run by (auto simp: uthread_suspend_def suspend_masked_def Let_def)
  then show ?thesis by (auto dest: and_load_switched)
next
  case (other p)
  then show ?thesis using ex suspend_other_eq [OF ho run other(2,1,3), of env] same
    by (auto simp: return_int_def Let_def split: if_splits)
qed

text \<open>
  A call that reports failure changes nothing: when \<open>uthread_spawn\<close>, \<open>uthread_terminate\<close>,
  \<open>uthread_suspend\<close> or \<open>uthread_resume\<close> returns -1, the state is the one before, but for a line
  on the error stream.
\<close>

lemma failure_changes_nothing:
  assumes reach: "ureachable env s" and e: "e \<in> {Spawn f pr, Terminate tid, Suspend tid, Resume tid}"
    and ex: "uexec env e s = Some (Ok (Returned FAIL) t)"
  shows "t = s\<lparr>errlog := errlog t\<rparr>"
proof -
  have inv: "uinv s" "\<not> masked s" "sa_mask s" using ureachable_ok [OF reach] by (simp_all add: uinv_def)
  obtain r where run: "running s = Some r" and ho: "handover r s" using inv(1) by (auto simp: uinv_handover)
  have same: "unblock_signals (block_signals s) = s"
    using inv(2,3) by (simp add: block_signals_def unblock_signals_def)
  have id: "0 \<le> getNextId s" using inv(1) by (intro tids.next_nonneg table_ids_ok) (simp add: uinv_def)
  consider "e = Spawn f pr" | "e = Terminate tid" | "e = Suspend tid" | "e = Resume tid" using e by blast
  then show ?thesis
  proof cases
    case 1
    then show ?thesis using ex spawn_eq [of s env f pr] run id
      by (cases "length (threads s) = MAX_THREAD_NUM")
        (auto simp: return_int_def uthread_spawn_def spawn_masked_def printError_def)
  next
    case 2
    then show ?thesis using ex terminate_fails [OF ho run] by simp
  next
    case 3
    then show ?thesis using ex suspend_fails [OF ho run same] by simp
  next
    case 4
    then show ?thesis using ex resume_blocked_eq [of s tid]
      by (cases "\<exists>p. om_find (threads s) tid = Some p \<and> p \<in> set (blocked s)")
        (auto simp: return_int_def uthread_resume_def resume_masked_def printError_def split: option.splits)
  qed
qed

lemma failure_changes_nothing_example:
  "\<exists>t m. uexec demo_env (Suspend 0) (after [Spawn 7 RED]) = Some (Ok (Returned FAIL) t) \<and>
     t = (after [Spawn 7 RED])\<lparr>errlog := m\<rparr>"
proof -
  obtain t where t: "uexec demo_env (Suspend 0) (after [Spawn 7 RED]) = Some (Ok (Returned FAIL) t)"
    by (simp add: uthread_suspend_def suspend_masked_def return_int_def)
  have "t = (after [Spawn 7 RED])\<lparr>errlog := errlog t\<rparr>"
    by (rule failure_changes_nothing [OF demo_reachable _ t]) simp
  then show ?thesis using t by blast
qed

end
