(* ===== verification/Uthreads_Window.thy ===== *)
theory Uthreads_Window
  imports Uthreads_Props
begin

text \<open>
  The window between the tests of a library call and its \<open>sigprocmask(SIG_BLOCK, ...)\<close>: the timer may
  fire there, other threads run, and the call goes on when its thread gets the processor back,
  with what its tests have found. \<open>pending\<close> says which threads are in a call whose tests are done.
  A step (\<open>window_exec\<close>) of the running thread is the entry of a call up to the window, or the
  rest of it; the third step is the timer.
\<close>

section \<open>Calls in two parts\<close>

fun call_test :: "uevent \<Rightarrow> ustate \<Rightarrow> control ures option" where
  "call_test (Spawn f pr) s =
     (if length (threads s) = MAX_THREAD_NUM
      then Some (Ok (Returned FAIL) (printError TOO_MANY_THREADS THREAD_ERROR s)) else None)"
| "call_test (Terminate tid) s =
     (if tid = 0 then Some (Exits 0 (s\<lparr>threads := []\<rparr>))
      else if om_find (threads s) tid = None
        then Some (Ok (Returned FAIL) (printError NOT_FOUND_ID THREAD_ERROR s))
      else None)"
| "call_test (Suspend tid) s =
     (if tid = 0 then Some (Ok (Returned FAIL) (printError SUSPEND_MAIN THREAD_ERROR s))
      else if om_find (threads s) tid = None
        then Some (Ok (Returned FAIL) (printError NOT_FOUND_ID THREAD_ERROR s))
      else None)"
| "call_test (Resume tid) s =
     (case om_find (threads s) tid of
        None \<Rightarrow> Some (Ok (Returned FAIL) (printError NOT_FOUND_ID THREAD_ERROR s))
      | Some th \<Rightarrow> if th \<in> set (blocked s) then None else Some (Ok (Returned FAIL) s))"
| "call_test e s = None"

fun call_masked :: "sys \<Rightarrow> uevent \<Rightarrow> ustate \<Rightarrow> control ures option" where
  "call_masked env (Spawn f pr) s = return_int (spawn_masked env f pr s)"
| "call_masked env (Terminate tid) s = terminate_masked env tid s"
| "call_masked env (Suspend tid) s = suspend_masked env tid s"
| "call_masked env (Resume tid) s = return_int (resume_masked tid s)"
| "call_masked env e s = uexec env e s"

text \<open>With nothing in between the two parts are the call.\<close>

lemma uexec_parts:
  "uexec env e s = (case call_test e s of None \<Rightarrow> call_masked env e s | Some x \<Rightarrow> Some x)"
  by (cases e) (auto simp: uthread_spawn_def uthread_terminate_def uthread_suspend_def
      uthread_resume_def return_int_def split: option.split)

lemma call_test_safe: "call_test e s \<noteq> Some (Faults x)"
  by (cases e) (auto split: option.split)

section \<open>The machine\<close>

record wstate =
  base :: ustate
  pending :: "ptr \<Rightarrow> uevent option"

datatype wevent = Enter uevent | Continue | Tick

text \<open>The answer \<open>None\<close> is given by a call that has come to its window.\<close>

definition with_pending :: "(ptr \<Rightarrow> uevent option) \<Rightarrow> control ures \<Rightarrow> (control option, wstate) outcome" where
  "with_pending ps m =
     (case m of
        Ok c t \<Rightarrow> Ok (Some c) \<lparr>base = t, pending = ps\<rparr>
      | Exits k t \<Rightarrow> Exits k \<lparr>base = t, pending = ps\<rparr>
      | Faults x \<Rightarrow> Faults x)"

fun window_exec :: "sys \<Rightarrow> wevent \<Rightarrow> wstate \<Rightarrow> (control option, wstate) outcome option" where
  "window_exec env (Enter e) w =
     (case running (base w) of
        None \<Rightarrow> None
      | Some r \<Rightarrow>
          if pending w r \<noteq> None \<or> e = Timer then None
          else case call_test e (base w) of
                 Some m \<Rightarrow> Some (with_pending (pending w) m)
               | None \<Rightarrow> Some (Ok None (w\<lparr>pending := (pending w)(r := Some e)\<rparr>)))"
| "window_exec env Continue w =
     (case running (base w) of
        None \<Rightarrow> None
      | Some r \<Rightarrow>
          (case pending w r of
             None \<Rightarrow> None
           | Some e \<Rightarrow>
               map_option (with_pending ((pending w)(r := None))) (call_masked env e (base w))))"
| "window_exec env Tick w = map_option (with_pending (pending w)) (timer_signal env (base w))"

inductive wreachable :: "sys \<Rightarrow> wstate \<Rightarrow> bool" for env :: sys where
  init: "uthread_init env q initial_ustate = Ok SUCCESS s \<Longrightarrow> wreachable env \<lparr>base = s, pending = (\<lambda>_. None)\<rparr>"
| step: "wreachable env w \<Longrightarrow> window_exec env e w = Some (Ok c v) \<Longrightarrow> wreachable env v"

text \<open>What a call has tested no longer holds.\<close>

fun stale :: "uevent \<Rightarrow> ustate \<Rightarrow> bool" where
  "stale (Terminate tid) s \<longleftrightarrow> om_find (threads s) tid = None"
| "stale (Suspend tid) s \<longleftrightarrow> om_find (threads s) tid = None"
| "stale (Resume tid) s \<longleftrightarrow>
     (case om_find (threads s) tid of None \<Rightarrow> True | Some p \<Rightarrow> p \<notin> set (blocked s))"
| "stale e s \<longleftrightarrow> False"

section \<open>The invariant holds in spite of the windows\<close>

definition winv :: "wstate \<Rightarrow> bool" where
  "winv w \<longleftrightarrow> uinv (base w) \<and> \<not> masked (base w) \<and>
     (\<forall>p. pending w p \<noteq> Some (Terminate 0) \<and> pending w p \<noteq> Some (Suspend 0))"

lemma call_test_fresh:
  assumes "\<not> stale e s" and "e \<noteq> Terminate 0" "e \<noteq> Suspend 0" and "\<nexists>f pr. e = Spawn f pr"
  shows "call_test e s = None"
  using assms by (cases e) (auto split: option.split option.split_asm)

lemma masked_ok:
  assumes inv: "uinv s" "\<not> masked s" and e: "\<not> stale e s" "e \<noteq> Terminate 0" "e \<noteq> Suspend 0"
  shows "step_ok (call_masked env e s)"
proof (cases "\<exists>f pr. e = Spawn f pr")
  case True
  then show ?thesis using spawn_masked_ok [OF inv] by auto
next
  case False
  then have "call_masked env e s = uexec env e s"
    using uexec_parts [of env e s] call_test_fresh [OF e] by simp
  then show ?thesis using uexec_ok [OF inv] by simp
qed

lemma masked_stale:
  assumes inv: "uinv s" and e: "stale e s"
  shows "\<exists>x. call_masked env e s = Some (Faults x)"
proof -
  obtain r where run: "running s = Some r" and ho: "handover r s" using inv by (auto simp: uinv_handover)
  note live = handover_in_hand(4) [OF ho]
  show ?thesis using e run live
    by (cases e) (auto simp: terminate_masked_def suspend_masked_def resume_masked_def return_int_def Let_def
        split: option.split_asm)
qed

lemma stale_or_ok:
  assumes "winv w" and "pending w p = Some e"
  shows "(\<exists>x. call_masked env e (base w) = Some (Faults x)) \<longleftrightarrow> stale e (base w)"
    and "call_masked env e (base w) = Some (Ok c t) \<Longrightarrow> uinv t \<and> \<not> masked t"
proof -
  have inv: "uinv (base w)" "\<not> masked (base w)" and e: "e \<noteq> Terminate 0" "e \<noteq> Suspend 0"
    using assms by (auto simp: winv_def)
  have ok: "step_ok (call_masked env e (base w))" if "\<not> stale e (base w)" by (rule masked_ok [OF inv that e])
  show "(\<exists>x. call_masked env e (base w) = Some (Faults x)) \<longleftrightarrow> stale e (base w)"
    using ok masked_stale [OF inv(1), of e env] by (cases "stale e (base w)") (auto simp: step_ok_def)
  show "call_masked env e (base w) = Some (Ok c t) \<Longrightarrow> uinv t \<and> \<not> masked t"
    using ok masked_stale [OF inv(1), of e env] by (cases "stale e (base w)") (auto simp: step_ok_def)
qed

lemma with_pending_Ok [simp]:
  "with_pending ps m = Ok c v \<longleftrightarrow> (\<exists>d t. m = Ok d t \<and> c = Some d \<and> v = \<lparr>base = t, pending = ps\<rparr>)"
  "with_pending ps m = Faults x \<longleftrightarrow> m = Faults x"
  by (cases m; auto simp: with_pending_def)+

interpretation windows: event_invar "window_exec env" winv "\<lambda>_. True" for env
proof unfold_locales
  fix w e c v assume inv: "winv w" and ex: "window_exec env e w = Some (Ok c v)"
  show "winv v"
  proof (cases e)
    case (Enter a)
    obtain r where r: "running (base w) = Some r" "pending w r = None"
      using ex Enter by (auto split: option.splits if_splits)
    show ?thesis
    proof (cases "call_test a (base w)")
      case None
      then have "a \<noteq> Terminate 0" "a \<noteq> Suspend 0" by auto
      then show ?thesis using ex Enter r None inv by (auto simp: winv_def split: if_splits)
    next
      case (Some m)
      then obtain d t where t: "m = Ok d t" "v = \<lparr>base = t, pending = pending w\<rparr>" using ex Enter r by (auto split: if_splits)
      have "uexec env a (base w) = Some (Ok d t)" using Some t(1) by (simp add: uexec_parts)
      then have "uinv t \<and> \<not> masked t" using uth.exec_invar [of "base w" env a d t] inv by (simp add: winv_def)
      then show ?thesis using inv t(2) by (simp add: winv_def)
    qed
  next
    case Continue
    then obtain r a d t where r: "pending w r = Some a" and t: "call_masked env a (base w) = Some (Ok d t)"
      and v: "v = \<lparr>base = t, pending = (pending w)(r := None)\<rparr>"
      using ex by (auto split: option.splits)
    then show ?thesis using stale_or_ok(2) [OF inv r t] inv by (simp add: winv_def)
  next
    case Tick
    then obtain d t where t: "uexec env Timer (base w) = Some (Ok d t)" "v = \<lparr>base = t, pending = pending w\<rparr>"
      using ex by auto
    then have "uinv t \<and> \<not> masked t" using uth.exec_invar [of "base w" env Timer d t] inv by (simp add: winv_def)
    then show ?thesis using inv t(2) by (simp add: winv_def)
  qed
qed

lemma wreachable_inv: "wreachable env w \<Longrightarrow> winv w"
proof (induction rule: wreachable.induct)
  case (init q s)
  then show ?case using uthread_init_success [OF init] uinv_started by (simp add: winv_def)
next
  case (step w e c v)
  show ?case by (rule windows.exec_invar [OF step.IH TrueI step.hyps(2)])
qed

text \<open>A run of the machine.\<close>

lemma wreachable_run:
  "wreachable env w \<Longrightarrow> run_events (window_exec env) es w = Some (Ok cs v) \<Longrightarrow> wreachable env v"
proof (induction es arbitrary: w cs)
  case Nil
  then show ?case by simp
next
  case (Cons e es)
  from Cons.prems(2) obtain c u cs' where "window_exec env e w = Some (Ok c u)"
    and "run_events (window_exec env) es u = Some (Ok cs' v)"
    by (auto split: option.splits outcome.splits)
  with Cons.IH Cons.prems(1) wreachable.step show ?case by blast
qed

section \<open>What can go wrong in a window\<close>

text \<open>
  C5: With the windows open every live thread still is in exactly one place (running, one of the
  ready queues, blocked) with the state and the queue that belong to it.
\<close>

theorem window_places:
  assumes "wreachable env w"
  shows "\<exists>r. running (base w) = Some r \<and> in_places r (base w)"
  using uinv_places wreachable_inv [OF assms] by (auto simp: winv_def)

text \<open>
  C6: A step faults exactly when a call goes on whose id was terminated (or, for \<open>uthread_resume\<close>,
  is no longer blocked) while its thread was preempted between the tests and \<open>sigprocmask\<close>. Nothing
  else that may happen in the windows does harm.
\<close>

theorem window_faults:
  assumes "wreachable env w"
  shows "(\<exists>x. window_exec env e w = Some (Faults x)) \<longleftrightarrow>
    e = Continue \<and> (\<exists>r c. running (base w) = Some r \<and> pending w r = Some c \<and> stale c (base w))"
proof (cases e)
  case (Enter a)
  then show ?thesis using call_test_safe [of a "base w"]
    by (auto simp: with_pending_def split: option.splits outcome.splits)
next
  case Continue
  show ?thesis
  proof (cases "\<exists>r c. running (base w) = Some r \<and> pending w r = Some c")
    case True
    then obtain r c where r: "running (base w) = Some r" "pending w r = Some c" by blast
    show ?thesis using stale_or_ok(1) [OF wreachable_inv [OF assms] r(2), of env] r Continue by simp
  qed (use Continue in \<open>auto split: option.split\<close>)
next
  case Tick
  have "step_ok (uexec env Timer (base w))"
    using wreachable_inv [OF assms] by (intro uexec_ok) (simp_all add: winv_def)
  then show ?thesis using Tick by (auto simp: step_ok_def)
qed

definition wafter :: "wevent list \<Rightarrow> wstate" where
  "wafter es = (case run_events (window_exec demo_env) es \<lparr>base = started demo_env 1000, pending = (\<lambda>_. None)\<rparr> of
     Some (Ok cs t) \<Rightarrow> t | _ \<Rightarrow> \<lparr>base = started demo_env 1000, pending = (\<lambda>_. None)\<rparr>)"

lemma wafter_reachable: "wreachable demo_env (wafter es)"
proof -
  note s = wreachable.init [OF demo_started]
  then show ?thesis
    using wreachable_run [OF s, of es] by (auto simp: wafter_def split: option.split outcome.split)
qed

lemmas window_eval = wafter_def with_pending_def spawn_masked_def terminate_masked_def

theorem window_faults_witness:
  "\<exists>w x. wreachable demo_env w \<and> pending w 0 = Some (Terminate 2) \<and>
     window_exec demo_env Continue w = Some (Faults x)"
proof -
  let ?w = "wafter [Enter (Spawn 7 RED), Continue, Enter (Spawn 8 GREEN), Continue, Enter (Terminate 2),
    Tick, Enter (Terminate 2), Continue, Tick]"
  have "running (base ?w) = Some 0" "pending ?w 0 = Some (Terminate 2)" "om_find (threads (base ?w)) 2 = None"
    by (simp_all add: window_eval uthreads_eval)
  then show ?thesis using window_faults [OF wafter_reachable, of Continue] wafter_reachable by fastforce
qed

text \<open>A witness for the invariant: the state just before the fault of \<open>window_faults\<close>.\<close>

theorem window_places_witness:
  "\<exists>r. running (base (wafter [Enter (Spawn 7 RED), Continue, Enter (Suspend 1), Tick])) = Some r \<and>
     in_places r (base (wafter [Enter (Spawn 7 RED), Continue, Enter (Suspend 1), Tick]))"
  by (rule window_places [OF wafter_reachable])

section \<open>The limit of threads can be passed\<close>

text \<open>
  Threads 0 and 1 hand the processor to each other while any number of \<open>GREEN\<close> ones wait: \<open>r\<close>
  runs, and \<open>n\<close> threads live.
\<close>

definition crowd :: "ptr \<Rightarrow> nat \<Rightarrow> ustate \<Rightarrow> bool" where
  "crowd r n s \<longleftrightarrow>
     uinv s \<and> \<not> masked s \<and> running s = Some r \<and> length (threads s) = n \<and> 1 < length (heap s) \<and>
     (r = 0 \<and> ready s RED_Q = [1] \<and> ready s ORANGE_Q = [] \<or> r = 1 \<and> ready s RED_Q = [] \<and> ready s ORANGE_Q = [0]) \<and>
     t_pr (heap s ! 0) = ORANGE \<and> t_pr (heap s ! 1) = RED \<and>
     point (t_jmp_buf (heap s ! 0)) \<noteq> AtSuspend \<and> point (t_jmp_buf (heap s ! 1)) \<noteq> AtSuspend"

lemma crowd_grows:
  assumes c: "crowd r n s"
  shows "\<exists>v t. return_int (spawn_masked env f GREEN s) = Some (Ok (Returned v) t) \<and> crowd r (Suc n) t"
proof -
  let ?t = "unblock_signals (push_ready (queue_of GREEN) (length (heap s)) (enrolled env f GREEN (block_signals s)))"
  have inv: "uinv s" "\<not> masked s" "running s \<noteq> None" using c by (auto simp: crowd_def)
  have eq: "return_int (spawn_masked env f GREEN s) = Some (Ok (Returned (getNextId s)) ?t)"
    using spawn_masked_eq [OF inv(3)] by (simp add: return_int_def)
  then have "uinv ?t \<and> \<not> masked ?t" using spawn_masked_ok [OF inv(1,2), of env f GREEN] by (auto simp: step_ok_def)
  moreover have "getNextId (block_signals s) = getNextId s" by (simp add: getNextId_def)
  moreover have tab: "table_ok s" using inv(1) by (simp add: uinv_def)
  moreover have "om_find (threads s) (getNextId s) = None"
    using tids.next_fresh [OF table_ids_ok [OF tab]] om.keys_find [of "threads s"] tab
    by (simp add: table_ok_def)
  moreover have "heap s \<noteq> []" using c by (auto simp: crowd_def)
  ultimately have "crowd r (Suc n) ?t"
    using c by (simp add: crowd_def enrolled_def length_om_insert nth_append)
  then show ?thesis using eq by blast
qed

lemma crowd_tick:
  assumes c: "crowd r n s" and works: "timer_works env"
  shows "\<exists>t. timer_signal env s = Some (Ok Switched t) \<and> crowd (1 - r) n t"
proof -
  let ?t = "tick_target r s"
  have inv: "uinv s" "\<not> masked s" and run: "running s = Some r" using c by (auto simp: crowd_def)
  have ho: "handover r s" using inv(1) run by (auto simp: uinv_handover)
  have ne: "all_ready s \<noteq> []" and first: "hd (all_ready s) = 1 - r"
    using c by (auto simp: crowd_def all_ready_def)
  have pt: "point (t_jmp_buf (heap s ! hd (all_ready s))) \<noteq> AtSuspend" using c first by (auto simp: crowd_def)
  have step: "timer_signal env s = Some (Ok Switched (?t\<lparr>masked := False\<rparr>))"
    using tick_step [OF inv works run ne pt] by simp
  have fields: "running ?t = Some (1 - r)" "ready ?t = rotated r s" "threads ?t = threads s"
    using tick_target_fields [OF ne, of r] first by simp_all
  have place: "r = 0 \<and> ready s RED_Q = [1] \<and> ready s ORANGE_Q = [] \<or> r = 1 \<and> ready s RED_Q = [] \<and> ready s ORANGE_Q = [0]"
    and prs: "t_pr (heap s ! 0) = ORANGE" "t_pr (heap s ! 1) = RED"
    using c by (simp_all add: crowd_def)
  have queues: "rotated r s RED_Q = (if r = 0 then [] else [1])" "rotated r s ORANGE_Q = (if r = 0 then [0] else [])"
    using place by (elim disjE; simp add: rotated_def first_queue_def prs prs(2) [simplified])+
  have len: "length (heap ?t) = length (heap s)"
    by (simp add: tick_target_def dispatch_def requeued_def preempted_def)
  have pr: "t_pr (heap ?t ! p) = t_pr (heap s ! p)" for p by (rule tick_target_heap) simp_all
  have pts: "point (t_jmp_buf (heap ?t ! p)) \<noteq> AtSuspend"
    if "point (t_jmp_buf (heap s ! p)) \<noteq> AtSuspend" for p
    using that tick_target_point [of p r s] tick_target_point_self [of r s] handover_in_hand(3) [OF ho]
    by (cases "p = r") simp_all
  have "1 - r = 0 \<and> ready ?t RED_Q = [1] \<and> ready ?t ORANGE_Q = [] \<or>
      1 - r = 1 \<and> ready ?t RED_Q = [] \<and> ready ?t ORANGE_Q = [0]"
    using place unfolding fields(2) queues by auto
  moreover have "length (threads s) = n" "1 < length (heap s)" using c by (simp_all add: crowd_def)
  moreover have "point (t_jmp_buf (heap ?t ! 0)) \<noteq> AtSuspend" "point (t_jmp_buf (heap ?t ! 1)) \<noteq> AtSuspend"
    using c pts by (simp_all add: crowd_def)
  ultimately have "crowd (1 - r) n (?t\<lparr>masked := False\<rparr>)"
    using tick_cases(2) [OF ho run] prs unfolding crowd_def by (simp add: fields(1,3) len pr)
  then show ?thesis using step by blast
qed

lemma crowd_start: "crowd 0 2 (base (wafter [Enter (Spawn 7 RED), Continue]))"
  "pending (wafter [Enter (Spawn 7 RED), Continue]) = (\<lambda>_. None)"
proof -
  have "uinv (base (wafter [Enter (Spawn 7 RED), Continue]))"
    using wreachable_inv [OF wafter_reachable] by (auto simp: winv_def)
  then show "crowd 0 2 (base (wafter [Enter (Spawn 7 RED), Continue]))"
    by (simp add: crowd_def) (simp add: window_eval uthreads_eval)
  show "pending (wafter [Enter (Spawn 7 RED), Continue]) = (\<lambda>_. None)"
    by (simp add: window_eval uthreads_eval)
qed

text \<open>One more thread, if the caller is in no other call.\<close>

lemma crowd_spawn:
  assumes w: "wreachable env w" and c: "crowd r n (base w)" and p: "pending w r = None" and n: "n \<noteq> MAX_THREAD_NUM"
  shows "\<exists>v. wreachable env v \<and> pending v = pending w \<and> crowd r (Suc n) (base v)"
proof -
  let ?u = "w\<lparr>pending := (pending w)(r := Some (Spawn 8 GREEN))\<rparr>"
  have run: "running (base w) = Some r" and len: "length (threads (base w)) = n"
    using c by (simp_all add: crowd_def)
  have u: "wreachable env ?u"
    by (rule wreachable.step [OF w, of "Enter (Spawn 8 GREEN)" None]) (simp add: run p len n)
  obtain v t where s: "return_int (spawn_masked env 8 GREEN (base w)) = Some (Ok (Returned v) t)"
    and t: "crowd r (Suc n) t"
    using crowd_grows [OF c] by blast
  have "wreachable env \<lparr>base = t, pending = pending w\<rparr>"
    using p by (intro wreachable.step [OF u, of Continue "Some (Returned v)"]) (auto simp: run s)
  then show ?thesis using t by (intro exI [of _ "\<lparr>base = t, pending = pending w\<rparr>"]) simp
qed

lemma crowd_switch:
  assumes "wreachable env w" and "crowd r n (base w)" and "timer_works env"
  shows "\<exists>v. wreachable env v \<and> pending v = pending w \<and> crowd (1 - r) n (base v)"
proof -
  obtain t where s: "timer_signal env (base w) = Some (Ok Switched t)" and t: "crowd (1 - r) n t"
    using crowd_tick [OF assms(2,3)] by blast
  have "wreachable env \<lparr>base = t, pending = pending w\<rparr>"
    by (rule wreachable.step [OF assms(1), of Tick "Some Switched"]) (simp add: s)
  then show ?thesis using t by (intro exI [of _ "\<lparr>base = t, pending = pending w\<rparr>"]) simp
qed

text \<open>
  The main thread is preempted after its test has found 99 threads, thread 1 makes the hundredth,
  and the main thread goes on.
\<close>

lemma crowd_passes:
  assumes w: "wreachable env w" and works: "timer_works env" and c: "crowd 0 (MAX_THREAD_NUM - 1) (base w)"
    and p: "pending w = (\<lambda>_. None)"
  shows "\<exists>v. wreachable env v \<and> pending v = (\<lambda>_. None) \<and> crowd 0 (Suc MAX_THREAD_NUM) (base v)"
proof -
  let ?call = "(\<lambda>_. None)(0 := Some (Spawn 8 GREEN))"
  have run: "running (base w) = Some 0" and len: "length (threads (base w)) = MAX_THREAD_NUM - 1"
    using c by (simp_all add: crowd_def)
  have "wreachable env (w\<lparr>pending := ?call\<rparr>)"
    by (rule wreachable.step [OF w, of "Enter (Spawn 8 GREEN)" None]) (simp add: run p len MAX_THREAD_NUM_def)
  then obtain a where "wreachable env a" "pending a = ?call" "crowd 1 (MAX_THREAD_NUM - 1) (base a)"
    using crowd_switch [of env "w\<lparr>pending := ?call\<rparr>" 0] c works by auto
  then obtain b where "wreachable env b" "pending b = ?call" "crowd 1 MAX_THREAD_NUM (base b)"
    using crowd_spawn [of env a 1 "MAX_THREAD_NUM - 1"] by (auto simp: MAX_THREAD_NUM_def)
  then obtain d where d: "wreachable env d" "pending d = ?call" "crowd 0 MAX_THREAD_NUM (base d)"
    using crowd_switch [of env b 1] works by auto
  have run: "running (base d) = Some 0" using d(3) by (simp add: crowd_def)
  obtain v t where s: "return_int (spawn_masked env 8 GREEN (base d)) = Some (Ok (Returned v) t)"
    and t: "crowd 0 (Suc MAX_THREAD_NUM) t"
    using crowd_grows [OF d(3)] by blast
  have "wreachable env \<lparr>base = t, pending = (\<lambda>_. None)\<rparr>"
    by (intro wreachable.step [OF d(1), of Continue "Some (Returned v)"]) (auto simp: run d(2) s)
  then show ?thesis using t by (intro exI [of _ "\<lparr>base = t, pending = (\<lambda>_. None)\<rparr>"]) simp
qed

lemma crowd_from:
  assumes w: "wreachable env w" "pending w = (\<lambda>_. None)" "crowd 0 n (base w)"
    and away: "MAX_THREAD_NUM \<notin> {n ..< n + k}"
  shows "\<exists>v. wreachable env v \<and> pending v = (\<lambda>_. None) \<and> crowd 0 (n + k) (base v)"
  using away
proof (induction k)
  case 0
  then show ?case using w by auto
next
  case (Suc k)
  then obtain v where v: "wreachable env v" "pending v = (\<lambda>_. None)" "crowd 0 (n + k) (base v)" by auto
  moreover have "n + k \<noteq> MAX_THREAD_NUM" using Suc.prems by auto
  ultimately show ?case using crowd_spawn [of env v 0 "n + k"] by auto
qed

text \<open>
  C9: The limit of 100 threads is not kept: the number is tested before the signal is blocked and
  for equality only, so a preemption in the window lets the table grow past it, and from there
  without end.
\<close>

theorem limit_passed: "\<exists>w. wreachable demo_env w \<and> n \<le> length (threads (base w))"
proof -
  let ?w = "wafter [Enter (Spawn 7 RED), Continue]"
  obtain u where "wreachable demo_env u" "pending u = (\<lambda>_. None)" "crowd 0 (2 + 97) (base u)"
    using crowd_from [OF wafter_reachable crowd_start(2,1), of 97] by (auto simp: MAX_THREAD_NUM_def)
  then obtain v where "wreachable demo_env v" "pending v = (\<lambda>_. None)" "crowd 0 (Suc MAX_THREAD_NUM) (base v)"
    using crowd_passes [OF _ demo_timer, of u] by (auto simp: MAX_THREAD_NUM_def)
  then obtain w where "wreachable demo_env w" "crowd 0 (Suc MAX_THREAD_NUM + n) (base w)"
    using crowd_from [of demo_env v "Suc MAX_THREAD_NUM" n] by auto
  then show ?thesis by (intro exI [of _ w]) (simp add: crowd_def)
qed

end
