(* ===== verification/Block.thy ===== *)
theory Block
  imports Prelude
begin

text \<open>
  \<open>ex3/Block.h\<close> and \<open>ex3/Block.cpp\<close>: a block of the blockchain database. The two buffers are
  lists of characters (\<open>None\<close> is the null pointer), \<open>_next\<close> is the address of the father's
  block. The destructor frees both buffers; \<open>Blockchain\<close> models \<open>delete\<close> by an empty cell.
\<close>

type_synonym bptr = nat

record block =
  b_data :: "string option"
  b_index :: int
  b_fatherIndex :: int
  b_depth :: int
  b_lenData :: int
  b_hashedData :: "string option"
  b_next :: "bptr option"
  b_isInLongest :: bool
  b_attachToLongest :: bool

text \<open>
  The constructor copies \<open>length\<close> bytes out of the caller's buffer: a negative length makes
  \<open>new[]\<close> throw, one beyond the end of the buffer makes \<open>memcpy\<close> read past it.
\<close>

definition new_block :: "string option \<Rightarrow> int \<Rightarrow> int \<Rightarrow> int \<Rightarrow> int \<Rightarrow> fault + block" where
  "new_block data idx fatherIndex depth len =
     (let b = \<lparr>b_data = map_option (take (nat len)) data, b_index = idx, b_fatherIndex = fatherIndex,
               b_depth = depth, b_lenData = len, b_hashedData = None, b_next = None,
               b_isInLongest = False, b_attachToLongest = False\<rparr>
      in case data of
           None \<Rightarrow> Inr b
         | Some d \<Rightarrow>
             if len < 0 then Inl BadAlloc
             else if int (length d) < len then Inl BufferOverflow
             else Inr b)"

definition getData :: "block \<Rightarrow> string option" where
  "getData b = b_data b"

definition setData :: "string option \<Rightarrow> block \<Rightarrow> block" where
  "setData d b = b\<lparr>b_data := d\<rparr>"

definition getFatherIndex :: "block \<Rightarrow> int" where
  "getFatherIndex b = b_fatherIndex b"

definition setFatherIndex :: "int \<Rightarrow> block \<Rightarrow> block" where
  "setFatherIndex i b = b\<lparr>b_fatherIndex := i\<rparr>"

definition getHashedData :: "block \<Rightarrow> string option" where
  "getHashedData b = b_hashedData b"

definition setHashedData :: "string \<Rightarrow> block \<Rightarrow> block" where
  "setHashedData h b = b\<lparr>b_hashedData := Some h\<rparr>"

definition getIndex :: "block \<Rightarrow> int" where
  "getIndex b = b_index b"

definition setIndex :: "int \<Rightarrow> block \<Rightarrow> block" where
  "setIndex i b = b\<lparr>b_index := i\<rparr>"

definition getDepth :: "block \<Rightarrow> int" where
  "getDepth b = b_depth b"

definition setDepth :: "int \<Rightarrow> block \<Rightarrow> block" where
  "setDepth n b = b\<lparr>b_depth := n\<rparr>"

definition getNext :: "block \<Rightarrow> bptr option" where
  "getNext b = b_next b"

definition setNext :: "bptr option \<Rightarrow> block \<Rightarrow> block" where
  "setNext p b = b\<lparr>b_next := p\<rparr>"

definition getIsInLongest :: "block \<Rightarrow> bool" where
  "getIsInLongest b = b_isInLongest b"

definition setIsInLongest :: "bool \<Rightarrow> block \<Rightarrow> block" where
  "setIsInLongest x b = b\<lparr>b_isInLongest := x\<rparr>"

definition getLenData :: "block \<Rightarrow> int" where
  "getLenData b = b_lenData b"

definition setLenData :: "int \<Rightarrow> block \<Rightarrow> block" where
  "setLenData n b = b\<lparr>b_lenData := n\<rparr>"

definition isAttachToLongest :: "block \<Rightarrow> bool" where
  "isAttachToLongest b = b_attachToLongest b"

definition setAttachToLongest :: "bool \<Rightarrow> block \<Rightarrow> block" where
  "setAttachToLongest x b = b\<lparr>b_attachToLongest := x\<rparr>"

lemmas block_getters [simp] = getData_def getFatherIndex_def getHashedData_def getIndex_def
  getDepth_def getNext_def getIsInLongest_def getLenData_def isAttachToLongest_def

lemmas block_setters = setData_def setFatherIndex_def setHashedData_def setIndex_def setDepth_def
  setNext_def setIsInLongest_def setLenData_def setAttachToLongest_def

text \<open>A block the constructor delivers: its own copy of the data, no hash, not attached.\<close>

lemma new_block_Inr:
  assumes "new_block data idx f depth len = Inr b"
  shows "b_index b = idx" "b_fatherIndex b = f" "b_depth b = depth" "b_lenData b = len"
    and "b_hashedData b = None" "b_next b = None" "\<not> b_isInLongest b" "\<not> b_attachToLongest b"
    and "b_data b = map_option (take (nat len)) data"
  using assms by (auto simp: new_block_def Let_def split: option.splits if_splits)

lemma new_block_fits:
  "case data of None \<Rightarrow> True | Some d \<Rightarrow> 0 \<le> len \<and> len \<le> int (length d) \<Longrightarrow>
   \<exists>b. new_block data idx f depth len = Inr b"
  by (auto simp: new_block_def Let_def split: option.splits)

end
