(* ===== verification/Blockchain.thy ===== *)
theory Blockchain
  imports Block Ordered_Map
begin

text \<open>
  \<open>ex3/blockchain.cpp\<close>: the block map, the queue of pending blocks, the daemon thread that
  hashes and attaches them, the closing thread, and the functions of the interface.

  One event is one step of one thread (\<open>bevent\<close>). A library call is a step, except that
  \<open>attach_now\<close> and \<open>return_on_close\<close> hand back a value that says what they wait for. A round of
  the daemon takes three steps: the test of the queue before the lock, the critical section up
  to the call of \<open>generate_hash\<close>, and the rest of it; that is where calls of other threads come
  between. The closing thread holds \<open>queueMutex\<close> while it works, so it is one step, possible
  when no daemon is in its critical section. A block is a cell of \<open>bheap\<close>, empty once deleted.

  \<open>hashlib\<close> holds what is not in the repository: \<open>hash.h\<close>'s generator, \<open>pthread_create\<close> and the
  shuffle, each called with the number of the draw, so that no two calls need agree; and what the
  two end iterators point at that \<open>prune_chain\<close> dereferences.
\<close>

section \<open>State\<close>

record hashlib =
  generate_nonce :: "nat \<Rightarrow> int \<Rightarrow> int \<Rightarrow> int"
  generate_hash :: "string option \<Rightarrow> int \<Rightarrow> int \<Rightarrow> string"
  random_shuffle :: "nat \<Rightarrow> int list \<Rightarrow> int list"
  create_ret :: "nat \<Rightarrow> int"
  past_vec :: "int list \<Rightarrow> int"              \<comment> \<open>the memory behind the last element of \<open>vecIndex\<close>\<close>
  past_map :: "nat \<Rightarrow> int \<times> bptr option"    \<comment> \<open>read through \<open>blockMap.end()\<close>, by size\<close>

datatype daemon =
    DLoop               \<comment> \<open>before the test of the queue\<close>
  | DEntered            \<comment> \<open>saw a queue that was not empty, waits for \<open>queueMutex\<close>\<close>
  | DHashing bptr int   \<comment> \<open>in the critical section, with the block and its father's index\<close>
  | DExited

record chain =
  bheap :: "block option list"
  blockMap :: "(int, bptr) omap"
  blockQueue :: "bptr list"
  vecIndex :: "int list"
  isInitiated :: bool
  currentlyBlocked :: bool
  isInDaemon :: int
  g_sizeCounter :: int
  s_mutex :: bool            \<comment> \<open>locked\<close>
  queueMutex :: bool         \<comment> \<open>locked\<close>
  daemons :: "daemon list"   \<comment> \<open>the threads that run \<open>daemonFunction\<close>\<close>
  closers :: nat             \<comment> \<open>the threads that run \<open>closeChainThread\<close> and have not finished\<close>
  stdout :: "(string \<times> int) list"  \<comment> \<open>the hash and the number, of each block the closing thread prints\<close>
  draws :: nat

type_synonym 'a bres = "('a, chain) outcome"

abbreviation (input) UNSUCCESSFUL :: int where "UNSUCCESSFUL \<equiv> - 2"

abbreviation (input) NOT_FOUND :: int where "NOT_FOUND \<equiv> 0"

abbreviation (input) FOUND :: int where "FOUND \<equiv> 1"

definition initial_chain :: chain where
  "initial_chain =
     \<lparr>bheap = [], blockMap = [], blockQueue = [], vecIndex = [], isInitiated = False,
      currentlyBlocked = False, isInDaemon = - 1, g_sizeCounter = 0, s_mutex = False,
      queueMutex = False, daemons = [], closers = 0, stdout = [], draws = 0\<rparr>"

text \<open>Access through a pointer, \<open>delete\<close>, and \<open>map::at\<close>.\<close>

definition deref :: "bptr \<Rightarrow> chain \<Rightarrow> block bres" where
  "deref p s =
     (if p < length (bheap s)
      then case bheap s ! p of Some b \<Rightarrow> Ok b s | None \<Rightarrow> Faults UseAfterFree
      else Faults UseAfterFree)"

definition upd_block :: "(block \<Rightarrow> block) \<Rightarrow> bptr \<Rightarrow> chain \<Rightarrow> unit bres" where
  "upd_block g p s =
     and_then (deref p s) (\<lambda>b s. Ok () (s\<lparr>bheap := (bheap s)[p := Some (g b)]\<rparr>))"

definition delete_block :: "bptr \<Rightarrow> chain \<Rightarrow> unit bres" where
  "delete_block p s = and_then (deref p s) (\<lambda>b s. Ok () (s\<lparr>bheap := (bheap s)[p := None]\<rparr>))"

fun delete_all :: "bptr list \<Rightarrow> chain \<Rightarrow> unit bres" where
  "delete_all [] s = Ok () s"
| "delete_all (p # ps) s = and_then (delete_block p s) (\<lambda>_ s. delete_all ps s)"

definition map_at :: "int \<Rightarrow> chain \<Rightarrow> bptr bres" where
  "map_at i s = (case om_find (blockMap s) i of None \<Rightarrow> Faults OutOfRange | Some p \<Rightarrow> Ok p s)"

section \<open>Searching\<close>

fun exist_from :: "int \<Rightarrow> int \<Rightarrow> bptr list \<Rightarrow> chain \<Rightarrow> int bres" where
  "exist_from blockIdx i [] s = Ok FAIL s"
| "exist_from blockIdx i (p # ps) s =
     and_then (deref p s) (\<lambda>b s.
       if getIndex b = blockIdx then Ok i s else exist_from blockIdx (i + 1) ps s)"

definition existBlock :: "int \<Rightarrow> chain \<Rightarrow> int bres" where
  "existBlock blockIdx s = exist_from blockIdx 0 (blockQueue s) s"

fun deref_all :: "bptr list \<Rightarrow> chain \<Rightarrow> block list bres" where
  "deref_all [] s = Ok [] s"
| "deref_all (p # ps) s =
     and_then (deref p s) (\<lambda>b s. and_then (deref_all ps s) (\<lambda>bs s. Ok (b # bs) s))"

text \<open>\<open>max_element\<close>: the first of the greatest.\<close>

fun max_element :: "block \<Rightarrow> block list \<Rightarrow> block" where
  "max_element b [] = b"
| "max_element b (c # cs) = max_element (if getDepth b < getDepth c then c else b) cs"

definition findFather :: "hashlib \<Rightarrow> chain \<Rightarrow> int bres" where
  "findFather lib s =
     (if blockMap s = [] then Ok FAIL s
      else and_then (deref_all (map snd (blockMap s)) s) (\<lambda>bs s.
        let maxLength = getDepth (max_element (hd bs) (tl bs));
            indexes = map getIndex (filter (\<lambda>b. getDepth b = maxLength) bs)
        in case random_shuffle lib (draws s) indexes of
             [] \<Rightarrow> Faults OutOfRange
           | i # is \<Rightarrow> Ok i (s\<lparr>draws := draws s + 1\<rparr>)))"

text \<open>\<open>findMinIdx\<close> sorts the vector in place, then looks for the first gap.\<close>

definition findMinIdx :: "chain \<Rightarrow> int \<times> chain" where
  "findMinIdx s = (let v = sort (vecIndex s) in (first_gap 0 v, s\<lparr>vecIndex := v\<rparr>))"

fun pop_from :: "int \<Rightarrow> bptr list \<Rightarrow> bptr list \<Rightarrow> chain \<Rightarrow> bptr option bres" where
  "pop_from blockIdx before [] s = Ok None s"
| "pop_from blockIdx before (p # ps) s =
     and_then (deref p s) (\<lambda>b s.
       if getIndex b = blockIdx then Ok (Some p) (s\<lparr>blockQueue := before @ ps\<rparr>)
       else pop_from blockIdx (before @ [p]) ps s)"

definition popBlock :: "int \<Rightarrow> chain \<Rightarrow> bptr option bres" where
  "popBlock blockIdx s = pop_from blockIdx [] (blockQueue s) s"

section \<open>Attaching\<close>

text \<open>
  \<open>addAndHash\<close> up to the call of \<open>generate_hash\<close>: the result is the father's index, or \<open>None\<close>
  for the early return of \<open>FAIL\<close>.
\<close>

definition hash_begin :: "hashlib \<Rightarrow> bptr \<Rightarrow> chain \<Rightarrow> int option bres" where
  "hash_begin lib p s =
     and_then (deref p s) (\<lambda>b s.
       let s = s\<lparr>isInDaemon := getIndex b\<rparr> in
       if isAttachToLongest b then
         and_then (findFather lib s) (\<lambda>f s.
           if f = - 1 then Ok None s
           else and_then (map_at f s) (\<lambda>q s.
                and_then (deref q s) (\<lambda>fb s.
                and_then (upd_block (setDepth (getDepth fb + 1)) p s) (\<lambda>_ s. Ok (Some f) s))))
       else Ok (Some (getFatherIndex b)) s)"

definition hash_finish :: "hashlib \<Rightarrow> bptr \<Rightarrow> int \<Rightarrow> chain \<Rightarrow> unit bres" where
  "hash_finish lib p f s =
     and_then (deref p s) (\<lambda>b s.
       let h = generate_hash lib (getData b) (getLenData b) (generate_nonce lib (draws s) (getIndex b) f)
       in and_then (upd_block (setHashedData h) p (s\<lparr>draws := draws s + 1\<rparr>)) (\<lambda>_ s.
          and_then (upd_block (setFatherIndex f) p s) (\<lambda>_ s.
            case om_find (blockMap s) f of
              None \<Rightarrow> delete_block p s
            | Some q \<Rightarrow>
                and_then (upd_block (setNext (Some q)) p s) (\<lambda>_ s.
                  Ok () (s\<lparr>blockMap := om_insert (getIndex b) p (blockMap s)\<rparr>)))))"

definition addAndHash :: "hashlib \<Rightarrow> bptr option \<Rightarrow> chain \<Rightarrow> int bres" where
  "addAndHash lib block s =
     (case block of
        None \<Rightarrow> Faults NullDeref
      | Some p \<Rightarrow>
          and_then (hash_begin lib p s) (\<lambda>f s.
            case f of
              None \<Rightarrow> Ok FAIL s
            | Some f \<Rightarrow> and_then (hash_finish lib p f s) (\<lambda>_ s. Ok SUCCESS s)))"

text \<open>\<open>addAndHash(popBlock(blockQueue.front()->getIndex()))\<close>, up to the hashing.\<close>

definition take_front :: "hashlib \<Rightarrow> chain \<Rightarrow> (bptr \<times> int option) bres" where
  "take_front lib s =
     (case blockQueue s of
        [] \<Rightarrow> Faults OutOfRange
      | bToHash # ps \<Rightarrow>
          and_then (deref bToHash s) (\<lambda>b s.
          and_then (popBlock (getIndex b) s) (\<lambda>block s.
            case block of
              None \<Rightarrow> Faults NullDeref
            | Some p \<Rightarrow> and_then (hash_begin lib p s) (\<lambda>f s. Ok (p, f) s))))"

section \<open>The threads\<close>

definition set_daemon :: "nat \<Rightarrow> daemon \<Rightarrow> chain \<Rightarrow> chain" where
  "set_daemon i d s = s\<lparr>daemons := (daemons s)[i := d]\<rparr>"

text \<open>A step of \<open>daemonFunction\<close>; \<open>None\<close> when the thread cannot move.\<close>

definition daemonFunction :: "hashlib \<Rightarrow> nat \<Rightarrow> chain \<Rightarrow> unit bres option" where
  "daemonFunction lib i s =
     (if length (daemons s) \<le> i then None
      else case daemons s ! i of
        DExited \<Rightarrow> None
      | DLoop \<Rightarrow>
          Some (Ok () (if currentlyBlocked s then set_daemon i DExited s
                       else if blockQueue s \<noteq> [] then set_daemon i DEntered s
                       else s))
      | DEntered \<Rightarrow>
          (if queueMutex s then None
           else Some (and_then (take_front lib s) (\<lambda>r s.
                  case r of
                    (p, None) \<Rightarrow> Ok () (set_daemon i DLoop (s\<lparr>g_sizeCounter := g_sizeCounter s + 1\<rparr>))
                  | (p, Some f) \<Rightarrow> Ok () (set_daemon i (DHashing p f) (s\<lparr>queueMutex := True\<rparr>)))))
      | DHashing p f \<Rightarrow>
          Some (and_then (hash_finish lib p f s) (\<lambda>_ s.
            Ok () (set_daemon i DLoop
              (s\<lparr>g_sizeCounter := g_sizeCounter s + 1, queueMutex := False\<rparr>)))))"

text \<open>A round of the loop of \<open>closeChainThread\<close>.\<close>

definition drain_round :: "hashlib \<Rightarrow> chain \<Rightarrow> unit bres" where
  "drain_round lib s =
     (case blockQueue s of
        [] \<Rightarrow> Faults OutOfRange
      | bToHash # ps \<Rightarrow>
          and_then (deref bToHash s) (\<lambda>b s.
          and_then (popBlock (getIndex b) s) (\<lambda>block s.
          and_then (addAndHash lib block s) (\<lambda>_ s.
          and_then (deref bToHash s) (\<lambda>b s.
            case getHashedData b of
              None \<Rightarrow> Faults NullDeref
            | Some h \<Rightarrow> Ok () (s\<lparr>stdout := stdout s @ [(h, getIndex b)]\<rparr>))))))"

text \<open>Every round takes a block off the queue, and nothing in it puts one there.\<close>

lemma deref_Ok [simp]:
  "deref p s = Ok b t \<longleftrightarrow> t = s \<and> p < length (bheap s) \<and> bheap s ! p = Some b"
  by (auto simp: deref_def split: option.splits)

lemma map_at_Ok [simp]: "map_at i s = Ok p t \<longleftrightarrow> t = s \<and> om_find (blockMap s) i = Some p"
  by (auto simp: map_at_def split: option.splits)

lemma upd_block_Ok [simp]:
  "upd_block g p s = Ok u t \<longleftrightarrow>
   (\<exists>b. p < length (bheap s) \<and> bheap s ! p = Some b \<and> t = s\<lparr>bheap := (bheap s)[p := Some (g b)]\<rparr>)"
  by (auto simp: upd_block_def and_then_eq_Ok_iff)

lemma delete_block_Ok [simp]:
  "delete_block p s = Ok u t \<longleftrightarrow>
   (\<exists>b. p < length (bheap s) \<and> bheap s ! p = Some b \<and> t = s\<lparr>bheap := (bheap s)[p := None]\<rparr>)"
  by (auto simp: delete_block_def and_then_eq_Ok_iff)

lemma deref_all_Ok: "deref_all ps s = Ok bs t \<Longrightarrow> t = s"
  by (induction ps arbitrary: bs) (auto simp: and_then_eq_Ok_iff)

lemma pick_Ok [simp]:
  "(case xs of [] \<Rightarrow> Faults e | x # ys \<Rightarrow> Ok x s) = Ok i t \<longleftrightarrow> xs \<noteq> [] \<and> i = hd xs \<and> t = s"
  by (cases xs) auto

lemma findFather_Ok:
  assumes "findFather lib s = Ok i t" shows "\<exists>n. t = s\<lparr>draws := n\<rparr>"
proof (cases "blockMap s = []")
  case True
  then have "t = s\<lparr>draws := draws s\<rparr>" using assms by (simp add: findFather_def)
  then show ?thesis by blast
next
  case False
  then show ?thesis using assms
    by (auto simp: findFather_def and_then_eq_Ok_iff Let_def dest!: deref_all_Ok)
qed

lemma hash_begin_queue: "hash_begin lib p s = Ok f t \<Longrightarrow> blockQueue t = blockQueue s"
  by (auto simp: hash_begin_def and_then_eq_Ok_iff Let_def dest!: findFather_Ok split: if_splits)

lemma hash_finish_queue: "hash_finish lib p f s = Ok u t \<Longrightarrow> blockQueue t = blockQueue s"
  by (auto simp: hash_finish_def and_then_eq_Ok_iff Let_def split: option.splits)

lemma pop_from_queue:
  "pop_from i before ps s = Ok r t \<Longrightarrow>
   t = (if r = None then s else s\<lparr>blockQueue := blockQueue t\<rparr>) \<and>
   (r \<noteq> None \<longrightarrow> length (blockQueue t) + 1 = length before + length ps)"
proof (induction ps arbitrary: before)
  case (Cons p ps)
  obtain b where b: "p < length (bheap s)" "bheap s ! p = Some b"
    and r: "(if getIndex b = i then Ok (Some p) (s\<lparr>blockQueue := before @ ps\<rparr>)
             else pop_from i (before @ [p]) ps s) = Ok r t"
    using Cons.prems by (auto simp: and_then_eq_Ok_iff)
  show ?case
  proof (cases "getIndex b = i")
    case True
    then show ?thesis using r by auto
  next
    case False
    then show ?thesis using r Cons.IH [of "before @ [p]"] by auto
  qed
qed simp

lemma drain_round_queue:
  assumes "drain_round lib s = Ok u t"
  shows "length (blockQueue t) < length (blockQueue s)"
proof -
  obtain p ps b r s1 where q: "blockQueue s = p # ps" and pop: "popBlock (getIndex b) s = Ok r s1"
    and add: "\<exists>v s2. addAndHash lib r s1 = Ok v s2 \<and> blockQueue t = blockQueue s2"
    using assms by (auto simp: drain_round_def and_then_eq_Ok_iff split: list.splits option.splits)
  then obtain x where r: "r = Some x" by (cases r) (auto simp: addAndHash_def)
  then have "blockQueue t = blockQueue s1"
    using add hash_begin_queue hash_finish_queue
    by (auto simp: addAndHash_def and_then_eq_Ok_iff split: option.splits)
  moreover have "length (blockQueue s1) + 1 = length (blockQueue s)"
    using pop_from_queue [OF pop [unfolded popBlock_def]] r by auto
  ultimately show ?thesis by simp
qed

function drain :: "hashlib \<Rightarrow> chain \<Rightarrow> unit bres" where
  "drain lib s =
     (if blockQueue s = [] then Ok () s
      else case drain_round lib s of
             Ok u t \<Rightarrow> drain lib t
           | Exits c t \<Rightarrow> Exits c t
           | Faults e \<Rightarrow> Faults e)"
  by pat_completeness auto

termination
  by (relation "measure (\<lambda>(lib, s). length (blockQueue s))") (auto dest: drain_round_queue)

declare drain.simps [simp del]

definition closeChainThread :: "hashlib \<Rightarrow> chain \<Rightarrow> unit bres option" where
  "closeChainThread lib s =
     (if closers s = 0 \<or> queueMutex s then None
      else Some (and_then (drain lib s) (\<lambda>_ s.
                 and_then (delete_all (map snd (blockMap s)) s) (\<lambda>_ s.
             Ok () (s\<lparr>blockMap := [], vecIndex := [], g_sizeCounter := 0, currentlyBlocked := False,
                      isInitiated := False, s_mutex := False, closers := closers s - 1\<rparr>)))))"

section \<open>Library functions\<close>

datatype bcontrol =
    Returns int
  | Waits int       \<comment> \<open>\<open>attach_now\<close> spins until the block is in the map\<close>
  | Joins           \<comment> \<open>\<open>return_on_close\<close> waits for the closing thread\<close>
  | Steps           \<comment> \<open>a step of a thread of the library\<close>

text \<open>\<open>None\<close>: the caller waits for \<open>s_mutex\<close>.\<close>

definition init_blockchain :: "hashlib \<Rightarrow> chain \<Rightarrow> int bres option" where
  "init_blockchain lib s =
     (if currentlyBlocked s \<or> isInitiated s then Some (Ok FAIL s)
      else if s_mutex s then None
      else let s = s\<lparr>s_mutex := True, draws := draws s + 1\<rparr> in
        if create_ret lib (draws s) \<noteq> 0 then Some (Ok FAIL s)
        else case new_block None 0 (- 1) 0 0 of
          Inl e \<Rightarrow> Some (Faults e)
        | Inr gensis \<Rightarrow>
            let p = length (bheap s) in
            Some (Ok SUCCESS (s\<lparr>daemons := daemons s @ [DLoop],
                bheap := bheap s @ [Some gensis],
                blockMap := om_insert (getIndex gensis) p (blockMap s),
                vecIndex := vecIndex s @ [getIndex gensis], isInitiated := True\<rparr>)))"

definition add_block :: "hashlib \<Rightarrow> string option \<Rightarrow> int \<Rightarrow> chain \<Rightarrow> int bres" where
  "add_block lib data len s =
     (if \<not> isInitiated s \<or> currentlyBlocked s then Ok FAIL s
      else let (idx, s) = findMinIdx s in
        and_then (findFather lib s) (\<lambda>fatherIdx s.
        and_then (map_at fatherIdx s) (\<lambda>q s.
        and_then (deref q s) (\<lambda>fb s.
          case new_block data idx fatherIdx (getDepth fb + 1) len of
            Inl e \<Rightarrow> Faults e
          | Inr newBlock \<Rightarrow>
              let p = length (bheap s) in
              Ok idx (s\<lparr>bheap := bheap s @ [Some newBlock],
                        vecIndex := vecIndex s @ [getIndex newBlock],
                        blockQueue := blockQueue s @ [p]\<rparr>)))))"

definition to_longest :: "int \<Rightarrow> chain \<Rightarrow> int bres" where
  "to_longest block_num s =
     (if \<not> isInitiated s then Ok FAIL s
      else if om_find (blockMap s) block_num \<noteq> None then Ok FOUND s
      else and_then (existBlock block_num s) (\<lambda>idx s.
        if idx = FAIL then Ok UNSUCCESSFUL s
        else and_then (upd_block (setAttachToLongest True) (blockQueue s ! nat idx) s) (\<lambda>_ s. Ok SUCCESS s)))"

definition attach_now :: "int \<Rightarrow> chain \<Rightarrow> bcontrol bres" where
  "attach_now block_num s =
     (if \<not> isInitiated s \<or> currentlyBlocked s then Ok (Returns FAIL) s
      else if om_find (blockMap s) block_num \<noteq> None then Ok (Returns SUCCESS) s
      else if isInDaemon s = block_num then Ok (Waits block_num) s
      else and_then (existBlock block_num s) (\<lambda>idx s.
        if idx = FAIL then Ok (Returns UNSUCCESSFUL) s
        else and_then (popBlock block_num s) (\<lambda>b s.
          case b of
            None \<Rightarrow> Faults NullDeref
          | Some p \<Rightarrow> Ok (Waits block_num) (s\<lparr>blockQueue := p # blockQueue s\<rparr>))))"

text \<open>One test of the loop in which \<open>attach_now\<close> waits.\<close>

definition attach_poll :: "int \<Rightarrow> chain \<Rightarrow> bcontrol bres" where
  "attach_poll block_num s =
     (if om_find (blockMap s) block_num \<noteq> None then Ok (Returns SUCCESS) s else Ok (Waits block_num) s)"

definition was_added :: "int \<Rightarrow> chain \<Rightarrow> int bres" where
  "was_added block_num s =
     (if \<not> isInitiated s then Ok FAIL s
      else if om_find (blockMap s) block_num \<noteq> None then Ok FOUND s
      else and_then (existBlock block_num s) (\<lambda>idx s.
        if idx \<noteq> FAIL \<or> block_num = isInDaemon s then Ok NOT_FOUND s else Ok UNSUCCESSFUL s))"

definition chain_size :: "chain \<Rightarrow> int" where
  "chain_size s = (if \<not> isInitiated s then FAIL else g_sizeCounter s)"

definition close_chain :: "hashlib \<Rightarrow> chain \<Rightarrow> unit bres" where
  "close_chain lib s =
     (if isInitiated s then
        let s = s\<lparr>currentlyBlocked := True, draws := draws s + 1\<rparr>
        in if create_ret lib (draws s) \<noteq> 0 then Ok () s else Ok () (s\<lparr>closers := closers s + 1\<rparr>)
      else Ok () s)"

definition return_on_close :: "chain \<Rightarrow> bcontrol" where
  "return_on_close s =
     (if \<not> currentlyBlocked s \<or> \<not> isInitiated s then Returns UNSUCCESSFUL else Joins)"

section \<open>Pruning\<close>

text \<open>
  \<open>while (NULL != at(i)->getNext()) ...\<close>: it marks the blocks from \<open>i\<close> towards the genesis block.
\<close>

partial_function (option) mark_longest :: "int \<Rightarrow> chain \<Rightarrow> unit bres option" where
  "mark_longest i s =
     (case map_at i s of
        Faults e \<Rightarrow> Some (Faults e)
      | Exits c t \<Rightarrow> Some (Exits c t)
      | Ok p s1 \<Rightarrow>
          (case deref p s1 of
             Faults e \<Rightarrow> Some (Faults e)
           | Exits c t \<Rightarrow> Some (Exits c t)
           | Ok b s2 \<Rightarrow>
               (case getNext b of
                  None \<Rightarrow> Some (Ok () s2)
                | Some q \<Rightarrow>
                    (case and_then (upd_block (setIsInLongest True) p s2) (\<lambda>_ s. deref q s) of
                       Faults e \<Rightarrow> Some (Faults e)
                     | Exits c t \<Rightarrow> Some (Exits c t)
                     | Ok n s3 \<Rightarrow> mark_longest (getIndex n) s3))))"

text \<open>
  The loop over \<open>vecIndex\<close> compares values, \<open>*(iter) != *(vecIndex.end())\<close>: it stops at the
  end, and at any element equal to what lies behind the last one. That is \<open>e\<close> at first; an
  \<open>erase\<close> moves the rest down by one and leaves the old last element behind the new one.
\<close>

fun prune_vec :: "int \<Rightarrow> int list \<Rightarrow> chain \<Rightarrow> int list bres" where
  "prune_vec e [] s = Ok [] s"
| "prune_vec e (x # xs) s =
     (if x = e then Ok (x # xs) s
      else and_then (map_at x s) (\<lambda>p s.
           and_then (deref p s) (\<lambda>b s.
             if \<not> getIsInLongest b then prune_vec (last (x # xs)) xs s
             else and_then (prune_vec e xs s) (\<lambda>ys s. Ok (x # ys) s))))"

text \<open>The loop over \<open>blockMap\<close>, written the same way; \<open>n\<close> is the current size of the map.\<close>

fun prune_map :: "hashlib \<Rightarrow> nat \<Rightarrow> (int, bptr) omap \<Rightarrow> chain \<Rightarrow> (int, bptr) omap bres" where
  "prune_map lib n [] s = Ok [] s"
| "prune_map lib n ((k, p) # m) s =
     (if past_map lib n = (k, Some p) then Ok ((k, p) # m) s
      else and_then (deref p s) (\<lambda>b s.
             if \<not> getIsInLongest b then prune_map lib (n - 1) m s
             else and_then (prune_map lib n m s) (\<lambda>m' s. Ok ((k, p) # m') s)))"

fun unmark_all :: "bptr list \<Rightarrow> chain \<Rightarrow> unit bres" where
  "unmark_all [] s = Ok () s"
| "unmark_all (p # ps) s = and_then (upd_block (setIsInLongest False) p s) (\<lambda>_ s. unmark_all ps s)"

text \<open>What follows the first loop.\<close>

definition sweep :: "hashlib \<Rightarrow> chain \<Rightarrow> int bres" where
  "sweep lib s =
     and_then (map_at 0 s) (\<lambda>p s.
     and_then (upd_block (setIsInLongest True) p s) (\<lambda>_ s.
     and_then (prune_vec (past_vec lib (vecIndex s)) (vecIndex s) s) (\<lambda>v s.
     and_then (prune_map lib (length (blockMap s)) (blockMap s) (s\<lparr>vecIndex := v\<rparr>)) (\<lambda>m s.
     and_then (unmark_all (map snd m) (s\<lparr>blockMap := m\<rparr>)) (\<lambda>_ s. Ok SUCCESS s)))))"

definition prune_chain :: "hashlib \<Rightarrow> chain \<Rightarrow> int bres option" where
  "prune_chain lib s =
     (if \<not> isInitiated s \<or> currentlyBlocked s then Some (Ok FAIL s)
      else case findFather lib s of
        Faults e \<Rightarrow> Some (Faults e)
      | Exits c t \<Rightarrow> Some (Exits c t)
      | Ok longestIdx s1 \<Rightarrow>
          map_option (\<lambda>m. and_then m (\<lambda>_ s. sweep lib s)) (mark_longest longestIdx s1))"

text \<open>
  \<open>printChain\<close>, for tests: the number and the father of every attached block but the genesis
  block, one line each, in the order of the map.
\<close>

fun print_from :: "(int, bptr) omap \<Rightarrow> chain \<Rightarrow> (int \<times> int) list bres" where
  "print_from [] s = Ok [] s"
| "print_from ((k, p) # m) s =
     (if k = 0 then print_from m s
      else and_then (deref p s) (\<lambda>b s.
           and_then (print_from m s) (\<lambda>out s. Ok ((getIndex b, getFatherIndex b) # out) s)))"

definition printChain :: "chain \<Rightarrow> (int \<times> int) list bres" where
  "printChain s = print_from (blockMap s) s"

section \<open>Events\<close>

datatype bevent =
    Init
  | AddBlock "string option" int
  | ToLongest int
  | AttachNow int
  | AttachPoll int
  | WasAdded int
  | ChainSize
  | PruneChain
  | CloseChain
  | ReturnOnClose
  | Daemon nat
  | Closer

definition returns :: "int bres \<Rightarrow> bcontrol bres" where
  "returns m = and_then m (\<lambda>v s. Ok (Returns v) s)"

definition steps :: "unit bres \<Rightarrow> bcontrol bres" where
  "steps m = and_then m (\<lambda>_ s. Ok Steps s)"

fun bexec :: "hashlib \<Rightarrow> bevent \<Rightarrow> chain \<Rightarrow> bcontrol bres option" where
  "bexec lib Init s = map_option returns (init_blockchain lib s)"
| "bexec lib (AddBlock data len) s = Some (returns (add_block lib data len s))"
| "bexec lib (ToLongest n) s = Some (returns (to_longest n s))"
| "bexec lib (AttachNow n) s = Some (attach_now n s)"
| "bexec lib (AttachPoll n) s = Some (attach_poll n s)"
| "bexec lib (WasAdded n) s = Some (returns (was_added n s))"
| "bexec lib ChainSize s = Some (Ok (Returns (chain_size s)) s)"
| "bexec lib PruneChain s = map_option returns (prune_chain lib s)"
| "bexec lib CloseChain s = Some (steps (close_chain lib s))"
| "bexec lib ReturnOnClose s = Some (Ok (return_on_close s) s)"
| "bexec lib (Daemon i) s = map_option steps (daemonFunction lib i s)"
| "bexec lib Closer s = map_option steps (closeChainThread lib s)"

inductive breachable :: "hashlib \<Rightarrow> chain \<Rightarrow> bool" for lib :: hashlib where
  initial: "breachable lib initial_chain"
| step: "breachable lib s \<Longrightarrow> bexec lib e s = Some (Ok c t) \<Longrightarrow> breachable lib t"

end
