(* ===== verification/Blockchain_Inv.thy ===== *)
theory Blockchain_Inv
  imports Blockchain
begin

text \<open>
  The invariant of the blockchain database and what the searches return under it. A block is
  owned once: by the map, by the queue, or by the daemon that is hashing it (\<open>sound ps s\<close>, with
  \<open>ps\<close> the blocks outside the map). Block numbers of owned blocks differ and are all in
  \<open>vecIndex\<close>; every attached block but the genesis block leads to another one, and by a rank
  that falls along \<open>_next\<close> to the genesis block in the end.
\<close>

section \<open>The store\<close>

definition alive :: "chain \<Rightarrow> bptr \<Rightarrow> bool" where
  "alive s p \<longleftrightarrow> p < length (bheap s) \<and> bheap s ! p \<noteq> None"

definition blk :: "chain \<Rightarrow> bptr \<Rightarrow> block" where
  "blk s p = the (bheap s ! p)"

definition set_blk :: "(block \<Rightarrow> block) \<Rightarrow> bptr \<Rightarrow> chain \<Rightarrow> chain" where
  "set_blk g p s = s\<lparr>bheap := (bheap s)[p := Some (g (blk s p))]\<rparr>"

lemma deref_alive [simp]: "alive s p \<Longrightarrow> deref p s = Ok (blk s p) s"
  by (auto simp: alive_def blk_def)

lemma upd_block_alive [simp]: "alive s p \<Longrightarrow> upd_block g p s = Ok () (set_blk g p s)"
  by (auto simp: alive_def blk_def set_blk_def)

lemma delete_block_alive [simp]: "alive s p \<Longrightarrow> delete_block p s = Ok () (s\<lparr>bheap := (bheap s)[p := None]\<rparr>)"
  by (auto simp: alive_def)

lemma map_at_found [simp]: "om_find (blockMap s) i = Some p \<Longrightarrow> map_at i s = Ok p s"
  by simp

lemma deref_fault: "deref p s = Faults e \<longleftrightarrow> \<not> alive s p \<and> e = UseAfterFree"
  by (auto simp: deref_def alive_def split: option.splits)

lemma set_blk_fields [simp]:
  "blockMap (set_blk g p s) = blockMap s" "blockQueue (set_blk g p s) = blockQueue s"
  "vecIndex (set_blk g p s) = vecIndex s" "isInitiated (set_blk g p s) = isInitiated s"
  "currentlyBlocked (set_blk g p s) = currentlyBlocked s" "isInDaemon (set_blk g p s) = isInDaemon s"
  "g_sizeCounter (set_blk g p s) = g_sizeCounter s" "s_mutex (set_blk g p s) = s_mutex s"
  "queueMutex (set_blk g p s) = queueMutex s" "daemons (set_blk g p s) = daemons s"
  "closers (set_blk g p s) = closers s" "stdout (set_blk g p s) = stdout s"
  "draws (set_blk g p s) = draws s" "length (bheap (set_blk g p s)) = length (bheap s)"
  by (simp_all add: set_blk_def)

lemma alive_set_blk [simp]: "alive (set_blk g p s) q \<longleftrightarrow> alive s q \<or> (q = p \<and> p < length (bheap s))"
  by (cases "p < length (bheap s)") (auto simp: alive_def set_blk_def nth_list_update)

lemma blk_set_blk: "alive s p \<Longrightarrow> blk (set_blk g p s) q = (if q = p then g (blk s p) else blk s q)"
  by (auto simp: alive_def set_blk_def blk_def nth_list_update)

lemma blk_set_blk_field:
  assumes "\<And>b. f (g b) = f b"
  shows "f (blk (set_blk g p s) q) = f (blk s q)"
  using assms by (cases "p < length (bheap s)")
    (auto simp: set_blk_def blk_def nth_list_update list_update_beyond)

text \<open>A state with the same heap has the same blocks.\<close>

lemma heap_cong:
  assumes "bheap t = bheap s"
  shows "alive t p = alive s p" "blk t p = blk s p"
  using assms by (simp_all add: alive_def blk_def)

lemma blk_frame [simp]:
  "blk (s\<lparr>blockMap := m\<rparr>) = blk s" "blk (s\<lparr>blockQueue := q\<rparr>) = blk s" "blk (s\<lparr>vecIndex := v\<rparr>) = blk s"
  "blk (s\<lparr>isInitiated := a\<rparr>) = blk s" "blk (s\<lparr>currentlyBlocked := a\<rparr>) = blk s"
  "blk (s\<lparr>isInDaemon := i\<rparr>) = blk s" "blk (s\<lparr>g_sizeCounter := i\<rparr>) = blk s" "blk (s\<lparr>s_mutex := a\<rparr>) = blk s"
  "blk (s\<lparr>queueMutex := a\<rparr>) = blk s" "blk (s\<lparr>daemons := ds\<rparr>) = blk s" "blk (s\<lparr>closers := n\<rparr>) = blk s"
  "blk (s\<lparr>stdout := out\<rparr>) = blk s" "blk (s\<lparr>draws := n\<rparr>) = blk s"
  by (rule ext, simp add: blk_def)+

lemma alive_frame [simp]:
  "alive (s\<lparr>blockMap := m\<rparr>) = alive s" "alive (s\<lparr>blockQueue := q\<rparr>) = alive s"
  "alive (s\<lparr>vecIndex := v\<rparr>) = alive s" "alive (s\<lparr>isInitiated := a\<rparr>) = alive s"
  "alive (s\<lparr>currentlyBlocked := a\<rparr>) = alive s" "alive (s\<lparr>isInDaemon := i\<rparr>) = alive s"
  "alive (s\<lparr>g_sizeCounter := i\<rparr>) = alive s" "alive (s\<lparr>s_mutex := a\<rparr>) = alive s"
  "alive (s\<lparr>queueMutex := a\<rparr>) = alive s" "alive (s\<lparr>daemons := ds\<rparr>) = alive s"
  "alive (s\<lparr>closers := n\<rparr>) = alive s" "alive (s\<lparr>stdout := out\<rparr>) = alive s" "alive (s\<lparr>draws := n\<rparr>) = alive s"
  by (rule ext, simp add: alive_def)+

text \<open>Allocation.\<close>

lemma blk_alloc:
  "bheap t = bheap s @ [Some b] \<Longrightarrow> alive s p \<Longrightarrow> blk t p = blk s p"
  "bheap t = bheap s @ [Some b] \<Longrightarrow> blk t (length (bheap s)) = b"
  "bheap t = bheap s @ [Some b] \<Longrightarrow> alive t p \<longleftrightarrow> alive s p \<or> p = length (bheap s)"
  by (auto simp: blk_def alive_def nth_append)

section \<open>The invariant\<close>

abbreviation attached :: "chain \<Rightarrow> bptr list" where
  "attached s \<equiv> map snd (blockMap s)"

abbreviation index_of :: "chain \<Rightarrow> bptr \<Rightarrow> int" where
  "index_of s p \<equiv> b_index (blk s p)"

fun held :: "daemon \<Rightarrow> bptr list" where
  "held (DHashing p f) = [p]"
| "held _ = []"

definition hashing :: "chain \<Rightarrow> bptr list" where
  "hashing s = concat (map held (daemons s))"

definition pending :: "chain \<Rightarrow> bptr list" where
  "pending s = blockQueue s @ hashing s"

definition linked :: "(bptr \<Rightarrow> nat) \<Rightarrow> chain \<Rightarrow> bool" where
  "linked rank s \<longleftrightarrow>
     (\<forall>(k, p) \<in> set (blockMap s).
        case b_next (blk s p) of
          None \<Rightarrow> k = 0
        | Some q \<Rightarrow> k \<noteq> 0 \<and> q \<in> set (attached s) \<and> rank q < rank p)"

definition numbered :: "bptr list \<Rightarrow> chain \<Rightarrow> bool" where
  "numbered ps s \<longleftrightarrow>
     distinct (map (index_of s) (attached s @ ps)) \<and>
     (\<forall>(k, p) \<in> set (blockMap s). index_of s p = k) \<and>
     distinct (vecIndex s) \<and> (\<forall>i \<in> set (vecIndex s). 0 \<le> i) \<and>
     index_of s ` set (attached s @ ps) \<subseteq> set (vecIndex s)"

definition opened :: "bptr list \<Rightarrow> chain \<Rightarrow> bool" where
  "opened ps s \<longleftrightarrow>
     (if isInitiated s then om_find (blockMap s) 0 \<noteq> None
      else blockMap s = [] \<and> ps = [] \<and> vecIndex s = [])"

definition sound :: "bptr list \<Rightarrow> chain \<Rightarrow> bool" where
  "sound ps s \<longleftrightarrow>
     om_ok (blockMap s) \<and> (\<forall>p \<in> set (attached s @ ps). alive s p \<and> \<not> b_isInLongest (blk s p)) \<and>
     numbered ps s \<and> (\<exists>rank. linked rank s) \<and> opened ps s"

definition cinv :: "chain \<Rightarrow> bool" where
  "cinv s \<longleftrightarrow>
     sound (pending s) s \<and> length (hashing s) \<le> 1 \<and> (queueMutex s \<longleftrightarrow> hashing s \<noteq> [])"

lemmas sound_parts = linked_def numbered_def opened_def

lemma sound_frame [simp]:
  "sound ps (s\<lparr>blockQueue := q\<rparr>) = sound ps s" "sound ps (s\<lparr>currentlyBlocked := a\<rparr>) = sound ps s"
  "sound ps (s\<lparr>isInDaemon := i\<rparr>) = sound ps s" "sound ps (s\<lparr>g_sizeCounter := i\<rparr>) = sound ps s"
  "sound ps (s\<lparr>s_mutex := a\<rparr>) = sound ps s" "sound ps (s\<lparr>queueMutex := a\<rparr>) = sound ps s"
  "sound ps (s\<lparr>daemons := ds\<rparr>) = sound ps s" "sound ps (s\<lparr>closers := n\<rparr>) = sound ps s"
  "sound ps (s\<lparr>stdout := out\<rparr>) = sound ps s" "sound ps (s\<lparr>draws := n\<rparr>) = sound ps s"
  by (simp_all add: sound_def sound_parts cong: option.case_cong)

lemma sound_perm:
  assumes "mset ps = mset qs" and "sound ps s" shows "sound qs s"
proof -
  have "mset (map (index_of s) (attached s @ ps)) = mset (map (index_of s) (attached s @ qs))"
    using assms(1) by simp
  then have "distinct (map (index_of s) (attached s @ qs)) = distinct (map (index_of s) (attached s @ ps))"
    by (rule mset_eq_imp_distinct_iff [symmetric])
  moreover have "set ps = set qs" using assms(1) by (rule mset_eq_setD)
  moreover have "ps = [] \<longleftrightarrow> qs = []" using assms(1) by auto
  ultimately show ?thesis using assms(2) by (auto simp: sound_def numbered_def opened_def split: if_splits)
qed

lemma hashing_frame [simp]:
  "hashing (s\<lparr>bheap := h\<rparr>) = hashing s" "hashing (s\<lparr>blockMap := m\<rparr>) = hashing s"
  "hashing (s\<lparr>blockQueue := q\<rparr>) = hashing s" "hashing (s\<lparr>vecIndex := v\<rparr>) = hashing s"
  "hashing (s\<lparr>isInitiated := a\<rparr>) = hashing s" "hashing (s\<lparr>currentlyBlocked := a\<rparr>) = hashing s"
  "hashing (s\<lparr>isInDaemon := i\<rparr>) = hashing s" "hashing (s\<lparr>g_sizeCounter := i\<rparr>) = hashing s"
  "hashing (s\<lparr>s_mutex := a\<rparr>) = hashing s" "hashing (s\<lparr>queueMutex := a\<rparr>) = hashing s"
  "hashing (s\<lparr>closers := n\<rparr>) = hashing s" "hashing (s\<lparr>stdout := out\<rparr>) = hashing s"
  "hashing (s\<lparr>draws := n\<rparr>) = hashing s" "hashing (set_blk g p s) = hashing s"
  by (simp_all add: hashing_def)

text \<open>The map's view of its blocks.\<close>

lemma attached_find:
  assumes "sound ps s" and "om_find (blockMap s) i = Some p"
  shows "p \<in> set (attached s)" "index_of s p = i" "alive s p" "i \<in> set (vecIndex s)" "0 \<le> i"
proof -
  have kp: "(i, p) \<in> set (blockMap s)" using assms(2) by (rule om_find_in)
  then show p: "p \<in> set (attached s)" by force
  show i: "index_of s p = i" using assms(1) kp by (auto simp: sound_def numbered_def)
  show "alive s p" using assms(1) p by (simp add: sound_def)
  have "index_of s p \<in> index_of s ` set (attached s @ ps)" using p by (intro imageI) simp
  then show v: "i \<in> set (vecIndex s)"
    using assms(1) i unfolding sound_def numbered_def by blast
  then show "0 \<le> i" using assms(1) by (simp add: sound_def numbered_def)
qed

lemma find_attached:
  assumes "sound ps s" and "p \<in> set (attached s)"
  shows "om_find (blockMap s) (index_of s p) = Some p"
proof -
  obtain k where k: "(k, p) \<in> set (blockMap s)" using assms(2) by auto
  then have "index_of s p = k" using assms(1) by (auto simp: sound_def numbered_def)
  then show ?thesis using k assms(1) by (simp add: om_in_find sound_def)
qed

lemma pending_not_found:
  assumes "sound ps s" and "p \<in> set ps"
  shows "om_find (blockMap s) (index_of s p) = None" "alive s p" "p \<notin> set (attached s)"
    and "isInitiated s" "index_of s p \<noteq> 0"
proof -
  show "alive s p" using assms by (simp add: sound_def)
  have d: "index_of s p \<notin> index_of s ` set (attached s)"
    using assms by (auto simp: sound_def numbered_def)
  then show "p \<notin> set (attached s)" by blast
  show n: "om_find (blockMap s) (index_of s p) = None"
  proof (cases "om_find (blockMap s) (index_of s p)")
    case (Some q)
    have "index_of s q \<in> index_of s ` set (attached s)"
      using attached_find(1) [OF assms(1) Some] by (rule imageI)
    then show ?thesis using attached_find(2) [OF assms(1) Some] d by simp
  qed simp
  show init: "isInitiated s" using assms by (auto simp: sound_def opened_def split: if_splits)
  show "index_of s p \<noteq> 0" using n init assms(1) by (auto simp: sound_def opened_def)
qed

section \<open>What the searches return\<close>

text \<open>The shuffle puts its list into some order.\<close>

definition shuffles :: "hashlib \<Rightarrow> bool" where
  "shuffles lib \<longleftrightarrow> (\<forall>n xs. mset (random_shuffle lib n xs) = mset xs)"

definition deepest :: "chain \<Rightarrow> bptr \<Rightarrow> bool" where
  "deepest s p \<longleftrightarrow>
     p \<in> set (attached s) \<and> (\<forall>q \<in> set (attached s). b_depth (blk s q) \<le> b_depth (blk s p))"

lemma deref_all_alive:
  "\<forall>p \<in> set ps. alive s p \<Longrightarrow> deref_all ps s = Ok (map (blk s) ps) s"
  by (induction ps) simp_all

lemma max_element_max: "c \<in> set (b # bs) \<Longrightarrow> b_depth c \<le> b_depth (max_element b bs)"
proof (induction b bs arbitrary: c rule: max_element.induct)
  case (2 b d cs)
  have "b_depth (if getDepth b < getDepth d then d else b) \<le> b_depth (max_element b (d # cs))"
    using "2.IH" by simp
  then show ?case using "2.IH" [of c] "2.prems" by (auto split: if_splits)
qed simp

lemma max_element_in: "max_element b bs \<in> set (b # bs)"
proof (induction b bs rule: max_element.induct)
  case (2 b c cs)
  then show ?case by (auto split: if_splits)
qed simp

lemma map_filter_not_Nil: "x \<in> set xs \<Longrightarrow> P x \<Longrightarrow> map f (filter P xs) \<noteq> []"
  by (auto simp: filter_empty_conv)

lemma findFather_deepest:
  assumes snd: "sound ps s" and init: "isInitiated s" and shuf: "shuffles lib"
  obtains i p where "findFather lib s = Ok i (s\<lparr>draws := draws s + 1\<rparr>)"
    and "om_find (blockMap s) i = Some p" and "deepest s p"
proof -
  have ne: "blockMap s \<noteq> []" using snd init by (auto simp: sound_def opened_def)
  let ?bs = "map (blk s) (attached s)"
  let ?max = "max_element (hd ?bs) (tl ?bs)"
  let ?is = "map getIndex (filter (\<lambda>b. getDepth b = getDepth ?max) ?bs)"
  have bs: "hd ?bs # tl ?bs = ?bs" using ne by simp
  have "?max \<in> set ?bs" using max_element_in [of "hd ?bs" "tl ?bs"] unfolding bs .
  then have "?is \<noteq> []" by (rule map_filter_not_Nil) (rule refl)
  moreover have perm: "mset (random_shuffle lib (draws s) ?is) = mset ?is" using shuf by (simp add: shuffles_def)
  ultimately have shuf_ne: "random_shuffle lib (draws s) ?is \<noteq> []" by auto
  let ?i = "hd (random_shuffle lib (draws s) ?is)"
  have "?i \<in> set (random_shuffle lib (draws s) ?is)" using shuf_ne by (rule hd_in_set)
  then have "?i \<in> set ?is" using mset_eq_setD [OF perm] by simp
  then obtain p where p: "p \<in> set (attached s)" "?i = index_of s p" "b_depth (blk s p) = b_depth ?max"
    by auto
  have "deepest s p"
    using p(1,3) max_element_max [of _ "hd ?bs" "tl ?bs"] unfolding bs by (auto simp: deepest_def)
  moreover have "om_find (blockMap s) ?i = Some p" using find_attached [OF snd p(1)] p(2) by simp
  moreover have "findFather lib s = Ok ?i (s\<lparr>draws := draws s + 1\<rparr>)"
    using snd ne shuf_ne deref_all_alive [of "attached s" s]
    by (simp add: findFather_def sound_def Let_def)
  ultimately show thesis using that by blast
qed

lemma exist_from_alive:
  assumes "\<forall>p \<in> set qs. alive s p"
  shows "\<exists>r. exist_from i n qs s = Ok r s \<and>
    (if i \<in> index_of s ` set qs then \<exists>k < length qs. r = n + int k \<and> index_of s (qs ! k) = i
     else r = FAIL)"
  using assms
proof (induction qs arbitrary: n)
  case (Cons p qs)
  show ?case
  proof (cases "index_of s p = i")
    case True
    then show ?thesis using Cons.prems by auto
  next
    case False
    obtain r where r: "exist_from i (n + 1) qs s = Ok r s"
        "if i \<in> index_of s ` set qs then \<exists>k < length qs. r = n + 1 + int k \<and> index_of s (qs ! k) = i
         else r = FAIL"
      using Cons.IH [of "n + 1"] Cons.prems by auto
    have ex: "exist_from i n (p # qs) s = Ok r s" using r(1) False Cons.prems by simp
    show ?thesis
    proof (cases "i \<in> index_of s ` set qs")
      case True
      then obtain k where "k < length qs" "r = n + 1 + int k" "index_of s (qs ! k) = i"
        using r(2) by (simp only: if_True) blast
      then have "\<exists>k < length (p # qs). r = n + int k \<and> index_of s ((p # qs) ! k) = i"
        by (intro exI [of _ "Suc k"]) simp
      then show ?thesis using ex True by simp
    next
      case nf: False
      then show ?thesis using ex r(2) False by auto
    qed
  qed
qed simp

lemma existBlock_alive:
  assumes "\<forall>p \<in> set (blockQueue s). alive s p"
  obtains r where "existBlock i s = Ok r s"
    and "r = FAIL \<longleftrightarrow> i \<notin> index_of s ` set (blockQueue s)"
    and "r \<noteq> FAIL \<Longrightarrow> nat r < length (blockQueue s) \<and> index_of s (blockQueue s ! nat r) = i"
  using exist_from_alive [OF assms, of i 0] unfolding existBlock_def
  by (auto split: if_splits)

lemma pop_from_alive:
  assumes "\<forall>q \<in> set qs. alive s q" and "distinct (map (index_of s) qs)" and "p \<in> set qs"
  shows "pop_from (index_of s p) before qs s = Ok (Some p) (s\<lparr>blockQueue := before @ remove1 p qs\<rparr>)"
  using assms
proof (induction qs arbitrary: before)
  case (Cons q qs)
  show ?case
  proof (cases "p = q")
    case False
    then have "index_of s q \<noteq> index_of s p" using Cons.prems by auto
    then show ?thesis using Cons False by simp
  qed (use Cons.prems in simp)
qed simp

lemma popBlock_alive:
  assumes "\<forall>q \<in> set (blockQueue s). alive s q" and "distinct (map (index_of s) (blockQueue s))"
    and "p \<in> set (blockQueue s)"
  shows "popBlock (index_of s p) s = Ok (Some p) (s\<lparr>blockQueue := remove1 p (blockQueue s)\<rparr>)"
  using pop_from_alive [OF assms, of "[]"] by (simp add: popBlock_def)

lemma popBlock_front:
  "blockQueue s = p # ps \<Longrightarrow> alive s p \<Longrightarrow>
   popBlock (index_of s p) s = Ok (Some p) (s\<lparr>blockQueue := ps\<rparr>)"
  by (simp add: popBlock_def)

text \<open>\<open>findMinIdx\<close> is an allocator of block numbers.\<close>

definition numbers_ok :: "chain \<Rightarrow> bool" where
  "numbers_ok s \<longleftrightarrow> distinct (vecIndex s) \<and> (\<forall>i \<in> set (vecIndex s). 0 \<le> i)"

interpretation nums: id_allocator "\<lambda>s. fst (findMinIdx s)" "\<lambda>s. set (vecIndex s)" numbers_ok
proof unfold_locales
  fix s :: chain and k :: int assume ok: "numbers_ok s"
  have sorted: "sorted_wrt (<) (sort (vecIndex s))"
    using ok by (simp add: numbers_ok_def strict_sorted_iff)
  have "first_gap 0 (sort (vecIndex s)) \<notin> set (sort (vecIndex s))"
    using sorted ok by (intro first_gap_notin) (simp_all add: numbers_ok_def)
  then show "fst (findMinIdx s) \<notin> set (vecIndex s)" by (simp add: findMinIdx_def Let_def)
  show "0 \<le> fst (findMinIdx s)" by (simp add: findMinIdx_def Let_def first_gap_ge)
  assume "0 \<le> k" "k < fst (findMinIdx s)"
  then have "k \<in> set (sort (vecIndex s))"
    by (intro first_gap_below [of 0]) (simp_all add: findMinIdx_def Let_def)
  then show "k \<in> set (vecIndex s)" by simp
qed

lemma sound_numbers_ok: "sound ps s \<Longrightarrow> numbers_ok s"
  by (simp add: sound_def numbered_def numbers_ok_def)

end
