(* ===== verification/Blockchain_Ops.thy ===== *)
theory Blockchain_Ops
  imports Blockchain_Inv
begin

text \<open>
  Every operation of the blockchain database in closed form under the invariant, and the
  invariant after it.
\<close>

section \<open>Changes of one block\<close>

lemma sound_heap:
  assumes "sound ps s" and "bheap t = h" and "blockMap t = blockMap s" and "vecIndex t = vecIndex s"
    and "isInitiated t = isInitiated s"
    and "\<And>p. p \<in> set (attached s @ ps) \<Longrightarrow> alive t p \<and> index_of t p = index_of s p \<and>
      b_isInLongest (blk t p) = b_isInLongest (blk s p) \<and> (p \<in> set (attached s) \<longrightarrow> b_next (blk t p) = b_next (blk s p))"
  shows "sound ps t"
proof -
  have idx: "map (index_of t) (attached s @ ps) = map (index_of s) (attached s @ ps)"
    using assms(6) by (intro map_cong) auto
  then have img: "index_of t ` set (attached s @ ps) = index_of s ` set (attached s @ ps)"
    by (metis list.set_map)
  have mem: "p \<in> set (attached s @ ps)" "p \<in> set (attached s)" if "(k, p) \<in> set (blockMap s)" for k p
    using that by force+
  have "\<forall>(k, p) \<in> set (blockMap s). index_of t p = k"
    using assms(1,6) mem by (fastforce simp: sound_def numbered_def)
  then have num: "numbered ps t" using assms(1) unfolding sound_def numbered_def assms(3,4) idx img by blast
  obtain rank where "linked rank s" using assms(1) by (auto simp: sound_def)
  moreover have "b_next (blk t p) = b_next (blk s p)" if "(k, p) \<in> set (blockMap s)" for k p
    using assms(6) [of p] mem [OF that] by simp
  ultimately have "linked rank t"
    unfolding linked_def assms(3) by (fastforce split: option.splits)
  moreover have "opened ps t" using assms(1,3-5) by (simp add: sound_def opened_def)
  ultimately show ?thesis using num assms(1,3,6) by (auto simp: sound_def)
qed

lemma sound_set_blk:
  assumes "sound ps s" and "alive s p" and "\<And>b. b_index (g b) = b_index b"
    and "\<And>b. b_isInLongest (g b) = b_isInLongest b"
    and "p \<notin> set (attached s) \<or> (\<forall>b. b_next (g b) = b_next b)"
  shows "sound ps (set_blk g p s)"
  using assms by (intro sound_heap [OF assms(1) refl]) (auto simp: blk_set_blk sound_def)

section \<open>Hashing and attaching a block\<close>

lemma hash_begin_direct:
  "alive s p \<Longrightarrow> \<not> b_attachToLongest (blk s p) \<Longrightarrow>
   hash_begin lib p s = Ok (Some (b_fatherIndex (blk s p))) (s\<lparr>isInDaemon := index_of s p\<rparr>)"
  by (simp add: hash_begin_def Let_def)

lemma hash_begin_longest:
  assumes snd: "sound ps s" and p: "p \<in> set ps" and shuf: "shuffles lib"
    and att: "b_attachToLongest (blk s p)"
  obtains i q where "om_find (blockMap s) i = Some q" and "deepest s q"
    and "hash_begin lib p s = Ok (Some i) (set_blk (setDepth (b_depth (blk s q) + 1)) p
      (s\<lparr>isInDaemon := index_of s p, draws := draws s + 1\<rparr>))"
proof -
  note pend = pending_not_found [OF snd p]
  let ?s = "s\<lparr>isInDaemon := index_of s p\<rparr>"
  have snd': "sound ps ?s" "isInitiated ?s" using snd pend by simp_all
  obtain i q where f: "findFather lib ?s = Ok i (?s\<lparr>draws := draws ?s + 1\<rparr>)"
      "om_find (blockMap ?s) i = Some q" "deepest ?s q"
    using findFather_deepest [OF snd' shuf] by blast
  have find: "om_find (blockMap s) i = Some q" using f(2) by simp
  note q = attached_find [OF snd find]
  have "deepest s q" using f(3) by (simp add: deepest_def)
  moreover have "hash_begin lib p s = Ok (Some i) (set_blk (setDepth (b_depth (blk s q) + 1)) p
      (s\<lparr>isInDaemon := index_of s p, draws := draws s + 1\<rparr>))"
    using pend att f(1) find q(3,5) by (simp add: hash_begin_def Let_def)
  ultimately show thesis using that find by blast
qed

text \<open>What a step may not touch while a block is on its way.\<close>

definition same_rest :: "chain \<Rightarrow> chain \<Rightarrow> bool" where
  "same_rest s t \<longleftrightarrow>
     blockQueue t = blockQueue s \<and> isInitiated t = isInitiated s \<and>
     currentlyBlocked t = currentlyBlocked s \<and> g_sizeCounter t = g_sizeCounter s \<and>
     s_mutex t = s_mutex s \<and> queueMutex t = queueMutex s \<and> daemons t = daemons s \<and>
     closers t = closers s \<and> stdout t = stdout s \<and> vecIndex t = vecIndex s"

lemma same_rest_refl [simp]: "same_rest s s"
  by (simp add: same_rest_def)

lemma hash_begin_ok:
  assumes snd: "sound ps s" and p: "p \<in> set ps" and shuf: "shuffles lib"
  obtains f t where "hash_begin lib p s = Ok (Some f) t" and "sound ps t" and "same_rest s t"
    and "blockMap t = blockMap s"
proof (cases "b_attachToLongest (blk s p)")
  case False
  then show thesis
    using that hash_begin_direct [OF pending_not_found(2) [OF snd p]] snd by (auto simp: same_rest_def)
next
  case True
  note pend = pending_not_found [OF snd p]
  obtain i q where "hash_begin lib p s = Ok (Some i) (set_blk (setDepth (b_depth (blk s q) + 1)) p
      (s\<lparr>isInDaemon := index_of s p, draws := draws s + 1\<rparr>))"
    using hash_begin_longest [OF snd p shuf True] by blast
  moreover have "sound ps (set_blk (setDepth (b_depth (blk s q) + 1)) p
      (s\<lparr>isInDaemon := index_of s p, draws := draws s + 1\<rparr>))"
    using snd pend by (intro sound_set_blk) (simp_all add: block_setters)
  ultimately show thesis using that by (auto simp: same_rest_def)
qed

definition hash_of :: "hashlib \<Rightarrow> bptr \<Rightarrow> int \<Rightarrow> chain \<Rightarrow> string" where
  "hash_of lib p f s = generate_hash lib (b_data (blk s p)) (b_lenData (blk s p))
     (generate_nonce lib (draws s) (index_of s p) f)"

definition settled :: "string \<Rightarrow> int \<Rightarrow> bptr \<Rightarrow> block \<Rightarrow> block" where
  "settled h f q b = b\<lparr>b_hashedData := Some h, b_fatherIndex := f, b_next := Some q\<rparr>"

lemma set_blk_twice: "alive s p \<Longrightarrow> set_blk g p (set_blk f p s) = set_blk (\<lambda>b. g (f b)) p s"
  by (simp add: set_blk_def alive_def blk_def)

lemma set_blk_draws: "set_blk g p (s\<lparr>draws := n\<rparr>) = (set_blk g p s)\<lparr>draws := n\<rparr>"
  by (simp add: set_blk_def)

definition attach :: "hashlib \<Rightarrow> bptr \<Rightarrow> int \<Rightarrow> bptr \<Rightarrow> chain \<Rightarrow> chain" where
  "attach lib p f q s =
     (set_blk (settled (hash_of lib p f s) f q) p s)
       \<lparr>draws := draws s + 1, blockMap := om_insert (index_of s p) p (blockMap s)\<rparr>"

definition dropped :: "bptr \<Rightarrow> chain \<Rightarrow> chain" where
  "dropped p s = s\<lparr>bheap := (bheap s)[p := None], draws := draws s + 1\<rparr>"

lemma hash_finish_attach:
  assumes "alive s p" and "om_find (blockMap s) f = Some q"
  shows "hash_finish lib p f s = Ok () (attach lib p f q s)"
  using assms
  by (simp add: hash_finish_def Let_def set_blk_draws set_blk_twice attach_def hash_of_def settled_def [abs_def]
      block_setters)

lemma hash_finish_orphan:
  assumes "alive s p" and "om_find (blockMap s) f = None"
  shows "hash_finish lib p f s = Ok () (dropped p s)"
  using assms
  by (simp add: hash_finish_def Let_def set_blk_draws set_blk_twice dropped_def)
    (simp add: set_blk_def)

lemma attach_rest: "same_rest s (attach lib p f q s)" "same_rest s (dropped p s)"
  by (simp_all add: same_rest_def attach_def dropped_def)

lemma blk_attach:
  "alive s p \<Longrightarrow> blk (attach lib p f q s) x =
   (if x = p then settled (hash_of lib p f s) f q (blk s p) else blk s x)"
  by (simp add: attach_def blk_set_blk)

lemma alive_attach: "alive s p \<Longrightarrow> alive (attach lib p f q s) x = alive s x"
  by (auto simp: attach_def)

lemma attached_attach:
  assumes "sound (p # ps) s"
  shows "mset (blockMap (attach lib p f q s)) = add_mset (index_of s p, p) (mset (blockMap s))"
    and "set (blockMap (attach lib p f q s)) = insert (index_of s p, p) (set (blockMap s))"
proof -
  have "om_find (blockMap s) (index_of s p) = None" using pending_not_found [OF assms, of p] by simp
  then show *: "mset (blockMap (attach lib p f q s)) = add_mset (index_of s p, p) (mset (blockMap s))"
    by (simp add: attach_def mset_om_insert)
  show "set (blockMap (attach lib p f q s)) = insert (index_of s p, p) (set (blockMap s))"
    using arg_cong [OF *, of set_mset] by simp
qed

lemma sound_attach:
  assumes snd: "sound (p # ps) s" and q: "om_find (blockMap s) f = Some q"
  shows "sound ps (attach lib p f q s)"
proof -
  let ?t = "attach lib p f q s"
  have pend: "om_find (blockMap s) (index_of s p) = None" "alive s p" "p \<notin> set (attached s)"
      "isInitiated s" "index_of s p \<noteq> 0"
    using pending_not_found [OF snd, of p] by simp_all
  note att = attached_attach [OF snd, of lib f q] and b = blk_attach [OF pend(2), of lib f q]
  have idx: "index_of ?t x = index_of s x" for x by (simp add: b settled_def)
  have ms: "mset (attached ?t @ ps) = mset (attached s @ p # ps)"
    using arg_cong [OF att(1), of "image_mset snd"] by simp
  have st: "set (attached ?t @ ps) = set (attached s @ p # ps)" using ms by (rule mset_eq_setD)
  have vec: "vecIndex ?t = vecIndex s" and init: "isInitiated ?t = isInitiated s"
    by (simp_all add: attach_def)
  have ok: "om_ok (blockMap ?t)" using snd by (simp add: attach_def om.invar_ins sound_def)
  have "mset (map (index_of s) (attached ?t @ ps)) = mset (map (index_of s) (attached s @ p # ps))"
    by (simp only: mset_map ms)
  then have "distinct (map (index_of s) (attached ?t @ ps))"
    using snd mset_eq_imp_distinct_iff unfolding sound_def numbered_def by blast
  moreover have "\<forall>(k, x) \<in> set (blockMap ?t). index_of s x = k"
    using snd by (auto simp: att(2) sound_def numbered_def)
  moreover have "distinct (vecIndex s)" "\<forall>i \<in> set (vecIndex s). 0 \<le> i"
      "index_of s ` set (attached s @ p # ps) \<subseteq> set (vecIndex s)"
    using snd unfolding sound_def numbered_def by blast+
  ultimately have num: "numbered ps ?t" unfolding numbered_def idx vec st by (intro conjI)
  have life: "\<forall>x \<in> set (attached ?t @ ps). alive ?t x \<and> \<not> b_isInLongest (blk ?t x)"
    unfolding st using snd pend(2) by (auto simp: sound_def alive_attach b settled_def)
  obtain rank where rank: "linked rank s" using snd by (auto simp: sound_def)
  have qin: "q \<in> set (attached s)" "q \<noteq> p" using attached_find(1) [OF snd q] pend(3) by auto
  have at: "set (attached ?t) = insert p (set (attached s))" by (simp add: att(2))
  have new: "(k, p) \<notin> set (blockMap s)" for k using pend(3) by force
  have "linked (rank(p := rank q + 1)) ?t"
    unfolding linked_def att(2)
  proof (clarify, goal_cases)
    case (1 k x)
    show ?case
    proof (cases "x = p")
      case True
      then show ?thesis using 1 pend(5) qin new at by (auto simp: b settled_def)
    next
      case False
      then have kx: "(k, x) \<in> set (blockMap s)" using 1 by simp
      have "rank y < (rank(p := rank q + 1)) x \<and> y \<noteq> p" if "b_next (blk s x) = Some y" for y
        using rank kx that pend(3) False by (force simp: linked_def)
      then show ?thesis using rank kx False at by (auto simp: b linked_def split: option.splits)
    qed
  qed
  moreover have "om_find (blockMap ?t) 0 \<noteq> None"
    using snd pend by (auto simp: sound_def opened_def attach_def om.find_ins)
  ultimately show ?thesis using ok num life pend(4) init by (auto simp: sound_def opened_def)
qed

lemma sound_forget:
  assumes "sound (p # ps) s" shows "sound ps s"
proof -
  have "isInitiated s" using pending_not_found(4) [OF assms, of p] by simp
  then have "opened ps s" using assms by (simp add: sound_def opened_def)
  moreover have "numbered ps s" using assms by (simp add: sound_def numbered_def)
  ultimately show ?thesis using assms by (simp add: sound_def)
qed

lemma sound_dropped:
  assumes "sound (p # ps) s" shows "sound ps (dropped p s)"
proof (rule sound_heap [OF sound_forget [OF assms] refl])
  fix x assume x: "x \<in> set (attached s @ ps)"
  have "distinct (map (index_of s) (attached s @ p # ps))"
    using assms unfolding sound_def numbered_def by blast
  then have "x \<noteq> p" using x by auto
  moreover have "alive s x" using assms x by (auto simp: sound_def)
  ultimately show "alive (dropped p s) x \<and> index_of (dropped p s) x = index_of s x \<and>
      b_isInLongest (blk (dropped p s) x) = b_isInLongest (blk s x) \<and>
      (x \<in> set (attached s) \<longrightarrow> b_next (blk (dropped p s) x) = b_next (blk s x))"
    by (simp add: dropped_def alive_def blk_def)
qed (simp_all add: dropped_def)

text \<open>The rest of \<open>addAndHash\<close>: the block is attached or freed, and no longer on its way.\<close>

lemma hash_finish_ok:
  assumes "sound (p # ps) s"
  obtains t where "hash_finish lib p f s = Ok () t" and "sound ps t" and "same_rest s t"
proof (cases "om_find (blockMap s) f")
  case None
  then show thesis
    using that hash_finish_orphan sound_dropped [OF assms] pending_not_found(2) [OF assms] attach_rest by simp
next
  case (Some q)
  then show thesis
    using that hash_finish_attach sound_attach [OF assms] pending_not_found(2) [OF assms] attach_rest
    by simp
qed

lemma same_rest_trans: "same_rest s t \<Longrightarrow> same_rest t u \<Longrightarrow> same_rest s u"
  by (simp add: same_rest_def)

lemma take_front_eq:
  assumes "blockQueue s = p # ps" and "alive s p"
  shows "take_front lib s =
    and_then (hash_begin lib p (s\<lparr>blockQueue := ps\<rparr>)) (\<lambda>f s. Ok (p, f) s)"
  using assms by (simp add: take_front_def popBlock_front)

section \<open>Threads\<close>

lemma set_daemon_fields [simp]:
  "bheap (set_daemon i d s) = bheap s" "blockMap (set_daemon i d s) = blockMap s"
  "blockQueue (set_daemon i d s) = blockQueue s" "vecIndex (set_daemon i d s) = vecIndex s"
  "isInitiated (set_daemon i d s) = isInitiated s" "queueMutex (set_daemon i d s) = queueMutex s"
  "currentlyBlocked (set_daemon i d s) = currentlyBlocked s" "isInDaemon (set_daemon i d s) = isInDaemon s"
  "g_sizeCounter (set_daemon i d s) = g_sizeCounter s" "closers (set_daemon i d s) = closers s"
  "daemons (set_daemon i d s) = (daemons s)[i := d]" "sound ps (set_daemon i d s) = sound ps s"
  "blk (set_daemon i d s) = blk s" "alive (set_daemon i d s) = alive s"
  by (simp_all add: set_daemon_def)

lemma concat_held_update:
  "i < length ds \<Longrightarrow>
   mset (concat (map held (ds[i := d]))) + mset (held (ds ! i)) = mset (concat (map held ds)) + mset (held d)"
proof (induction ds arbitrary: i)
  case (Cons e ds)
  then show ?case by (cases i) (simp_all add: union_assoc)
qed simp

lemma hashing_set_daemon:
  assumes "i < length (daemons s)"
  shows "mset (hashing (set_daemon i d s)) + mset (held (daemons s ! i)) = mset (hashing s) + mset (held d)"
  using concat_held_update [OF assms] by (simp add: hashing_def)

lemma cinvI:
  assumes "sound ps s" and "mset (hashing s) = hs" and "mset ps = mset (blockQueue s) + hs"
    and "size hs \<le> 1" and "queueMutex s \<longleftrightarrow> hs \<noteq> {#}"
  shows "cinv s"
proof -
  have "sound (pending s) s"
    using assms(2,3) by (intro sound_perm [OF _ assms(1)]) (simp add: pending_def)
  moreover have "length (hashing s) = size hs" using assms(2) by (metis size_mset)
  moreover have "hashing s = [] \<longleftrightarrow> hs = {#}" using assms(2) by auto
  ultimately show ?thesis using assms(4,5) by (simp add: cinv_def)
qed

lemma cinvD:
  assumes "cinv s"
  shows "sound (blockQueue s @ hashing s) s" and "size (mset (hashing s)) \<le> 1"
    and "queueMutex s \<longleftrightarrow> mset (hashing s) \<noteq> {#}"
  using assms by (simp_all add: cinv_def pending_def)

lemma rest_hashing: "same_rest s t \<Longrightarrow> hashing t = hashing s"
  by (simp add: same_rest_def hashing_def)

lemma daemon_take_ok:
  assumes inv: "cinv s" and shuf: "shuffles lib" and i: "i < length (daemons s)"
    and pc: "daemons s ! i = DEntered" and q: "blockQueue s = p # ps" and free: "\<not> queueMutex s"
  obtains f t where "daemonFunction lib i s = Some (Ok () (set_daemon i (DHashing p f) (t\<lparr>queueMutex := True\<rparr>)))"
    and "hash_begin lib p (s\<lparr>blockQueue := ps\<rparr>) = Ok (Some f) t"
    and "same_rest (s\<lparr>blockQueue := ps\<rparr>) t" and "blockMap t = blockMap s"
    and "cinv (set_daemon i (DHashing p f) (t\<lparr>queueMutex := True\<rparr>))"
proof -
  have h: "hashing s = []" using inv free by (simp add: cinv_def)
  have snd: "sound (p # ps) (s\<lparr>blockQueue := ps\<rparr>)" using cinvD(1) [OF inv] q h by simp
  obtain f t where t: "hash_begin lib p (s\<lparr>blockQueue := ps\<rparr>) = Ok (Some f) t" "sound (p # ps) t"
      "same_rest (s\<lparr>blockQueue := ps\<rparr>) t" "blockMap t = blockMap (s\<lparr>blockQueue := ps\<rparr>)"
    using hash_begin_ok [OF snd _ shuf, of p] by auto
  let ?u = "set_daemon i (DHashing p f) (t\<lparr>queueMutex := True\<rparr>)"
  have "alive s p" using pending_not_found(2) [OF snd, of p] by simp
  then have "daemonFunction lib i s = Some (Ok () ?u)"
    using i pc free take_front_eq [OF q] t(1) by (simp add: daemonFunction_def)
  moreover have "mset (hashing ?u) = {#p#}"
    using hashing_set_daemon [of i "t\<lparr>queueMutex := True\<rparr>" "DHashing p f"] rest_hashing [OF t(3)] i pc h t(3)
    by (simp add: same_rest_def)
  then have "cinv ?u" using t(2,3) by (intro cinvI [of "p # ps" _ "{#p#}"]) (simp_all add: same_rest_def)
  ultimately show thesis using that t by simp
qed

lemma daemon_finish_ok:
  assumes inv: "cinv s" and i: "i < length (daemons s)" and pc: "daemons s ! i = DHashing p f"
  obtains t where
    "daemonFunction lib i s = Some (Ok () (set_daemon i DLoop
       (t\<lparr>g_sizeCounter := g_sizeCounter s + 1, queueMutex := False\<rparr>)))"
    and "hash_finish lib p f s = Ok () t" and "same_rest s t" and "sound (blockQueue s) t"
    and "sound (p # blockQueue s) s"
    and "cinv (set_daemon i DLoop (t\<lparr>g_sizeCounter := g_sizeCounter s + 1, queueMutex := False\<rparr>))"
proof -
  have "daemons s ! i \<in> set (daemons s)" using i by (rule nth_mem)
  then have "p \<in> set (hashing s)" using pc by (simp add: hashing_def) (metis held.simps(1) list.set_intros(1))
  then have h: "hashing s = [p]" using cinvD(2) [OF inv] by (cases "hashing s") auto
  have snd: "sound (p # blockQueue s) s" using h by (intro sound_perm [OF _ cinvD(1) [OF inv]]) simp
  obtain t where t: "hash_finish lib p f s = Ok () t" "sound (blockQueue s) t" "same_rest s t"
    using hash_finish_ok [OF snd] by blast
  let ?u = "set_daemon i DLoop (t\<lparr>g_sizeCounter := g_sizeCounter s + 1, queueMutex := False\<rparr>)"
  have "daemonFunction lib i s = Some (Ok () ?u)"
    using i pc t(1,3) by (simp add: daemonFunction_def same_rest_def)
  moreover have "mset (hashing ?u) = {#}"
    using hashing_set_daemon [of i "t\<lparr>g_sizeCounter := g_sizeCounter s + 1, queueMutex := False\<rparr>" DLoop]
      rest_hashing [OF t(3)] i pc h t(3)
    by (simp add: same_rest_def)
  then have "cinv ?u" using t(2,3) by (intro cinvI [of "blockQueue s" _ "{#}"]) (simp_all add: same_rest_def)
  ultimately show thesis using that t snd by simp
qed

lemma daemon_inv:
  assumes inv: "cinv s" and shuf: "shuffles lib" and ex: "daemonFunction lib i s = Some (Ok u t)"
  shows "cinv t"
proof -
  have i: "i < length (daemons s)" using ex by (auto simp: daemonFunction_def split: if_splits)
  have quiet: "cinv (set_daemon i d s)" if "held (daemons s ! i) = []" "held d = []" for d
    using cinvD [OF inv] hashing_set_daemon [OF i, of d] that
    by (intro cinvI [of "blockQueue s @ hashing s" _ "mset (hashing s)"]) simp_all
  show ?thesis
  proof (cases "daemons s ! i")
    case DLoop
    then show ?thesis using ex i inv quiet by (auto simp: daemonFunction_def split: if_splits)
  next
    case DEntered
    then have free: "\<not> queueMutex s" using ex i by (auto simp: daemonFunction_def)
    obtain p ps where q: "blockQueue s = p # ps"
      using ex i DEntered free by (cases "blockQueue s") (auto simp: daemonFunction_def take_front_def)
    show ?thesis using daemon_take_ok [OF inv shuf i DEntered q free] ex by auto
  next
    case (DHashing p f)
    show ?thesis using daemon_finish_ok [OF inv i DHashing, of lib] ex by auto
  next
    case DExited
    then show ?thesis using ex i by (simp add: daemonFunction_def)
  qed
qed

section \<open>Library calls\<close>

lemma sound_enrol:
  assumes snd: "sound ps s" and init: "isInitiated s" "isInitiated t"
    and heap: "bheap t = bheap s @ [Some b]" and map: "blockMap t = blockMap s"
    and vec: "mset (vecIndex t) = add_mset (b_index b) (mset (vecIndex s))"
    and new: "b_index b \<notin> set (vecIndex s)" "0 \<le> b_index b" "\<not> b_isInLongest b"
  shows "sound (length (bheap s) # ps) t"
proof -
  let ?p = "length (bheap s)"
  have old: "alive s x" "x \<noteq> ?p" if "x \<in> set (attached s @ ps)" for x
    using snd that by (auto simp: sound_def alive_def)
  note b = blk_alloc [OF heap]
  have kept: "blk t x = blk s x" if "x \<in> set (attached s @ ps)" for x
    using b(1) old(1) [OF that] by simp
  have vset: "set (vecIndex t) = insert (b_index b) (set (vecIndex s))"
    using arg_cong [OF vec, of set_mset] by simp
  have "distinct (vecIndex t)"
  proof -
    have "mset (vecIndex t) = mset (b_index b # vecIndex s)" using vec by simp
    then have "distinct (vecIndex t) = distinct (b_index b # vecIndex s)"
      by (rule mset_eq_imp_distinct_iff)
    then show ?thesis using snd new by (simp add: sound_def numbered_def)
  qed
  moreover have idx: "map (index_of t) (attached t @ ps) = map (index_of s) (attached s @ ps)"
    unfolding map using kept by (intro map_cong) auto
  have sub: "index_of s ` set (attached s @ ps) \<subseteq> set (vecIndex s)"
      and dist: "distinct (map (index_of s) (attached s @ ps))"
    using snd unfolding sound_def numbered_def by blast+
  have img: "index_of t ` set (attached t @ ps) = index_of s ` set (attached s @ ps)"
    using arg_cong [OF idx, of set] by (simp only: set_map)
  have "distinct (map (index_of t) (attached t @ ps))" unfolding idx by (rule dist)
  moreover have "index_of t ?p \<notin> index_of t ` set (attached t @ ps)"
    unfolding img b(2) using sub new(1) by blast
  ultimately have "distinct (map (index_of t) (attached t @ ?p # ps))" by auto
  moreover have "index_of t ` set (attached t @ ps) \<subseteq> set (vecIndex t)"
    unfolding img vset using sub by blast
  then have "index_of t ` set (attached t @ ?p # ps) \<subseteq> set (vecIndex t)"
    using b(2) vset by auto
  moreover have "\<forall>(k, x) \<in> set (blockMap t). index_of t x = k"
    using snd kept map by (force simp: sound_def numbered_def)
  ultimately have "numbered (?p # ps) t"
    using \<open>distinct (vecIndex t)\<close> snd vset new(2) by (auto simp: sound_def numbered_def)
  moreover obtain rank where "linked rank s" using snd by (auto simp: sound_def)
  moreover have "b_next (blk t x) = b_next (blk s x)" if "(k, x) \<in> set (blockMap s)" for k x
    using kept [of x] that by force
  ultimately have "numbered (?p # ps) t \<and> linked rank t"
    unfolding linked_def map by (fastforce split: option.splits)
  then show ?thesis
    using snd init b(2,3) new(3) old kept map by (auto simp: sound_def opened_def)
qed

lemma findMinIdx_snd: "snd (findMinIdx s) = s\<lparr>vecIndex := sort (vecIndex s)\<rparr>"
  by (simp add: findMinIdx_def Let_def)

lemma sound_vec:
  assumes "sound ps s" and "mset v = mset (vecIndex s)" shows "sound ps (s\<lparr>vecIndex := v\<rparr>)"
proof -
  have "set v = set (vecIndex s)" using assms(2) by (rule mset_eq_setD)
  moreover have "distinct v = distinct (vecIndex s)" using assms(2) by (rule mset_eq_imp_distinct_iff)
  moreover have "v = [] \<longleftrightarrow> vecIndex s = []" using assms(2) by auto
  ultimately show ?thesis using assms(1)
    by (simp add: sound_def sound_parts cong: option.case_cong)
qed

lemma add_block_ok:
  assumes inv: "cinv s" and shuf: "shuffles lib" and op: "isInitiated s" "\<not> currentlyBlocked s"
    and b: "new_block data (fst (findMinIdx s)) f (b_depth (blk s q) + 1) len = Inr nb"
    and f: "findFather lib (snd (findMinIdx s)) = Ok f (snd (findMinIdx s)\<lparr>draws := draws s + 1\<rparr>)"
    and q: "om_find (blockMap s) f = Some q"
  defines "t \<equiv> (s\<lparr>bheap := bheap s @ [Some nb], vecIndex := sort (vecIndex s) @ [fst (findMinIdx s)],
      blockQueue := blockQueue s @ [length (bheap s)], draws := draws s + 1\<rparr>)"
  shows "add_block lib data len s = Ok (fst (findMinIdx s)) t" and "cinv t"
proof -
  obtain i s1 where m: "findMinIdx s = (i, s1)" by (cases "findMinIdx s")
  have s1: "s1 = s\<lparr>vecIndex := sort (vecIndex s)\<rparr>" using findMinIdx_snd [of s] m by simp
  have snd: "sound (blockQueue s @ hashing s) s" by (rule cinvD(1) [OF inv])
  have q': "om_find (blockMap s1) f = Some q" "alive s1 q" "blk s1 q = blk s q"
    using q attached_find(3) [OF snd q] s1 by simp_all
  show "add_block lib data len s = Ok (fst (findMinIdx s)) t"
    using op f b q' m new_block_Inr(1) [OF b] s1 by (simp add: add_block_def Let_def t_def)
  have nv: "numbers_ok s" using snd by (rule sound_numbers_ok)
  have "sound (length (bheap s) # blockQueue s @ hashing s) t"
    using new_block_Inr [OF b] op nums.next_fresh [OF nv] nums.next_nonneg [OF nv]
    by (intro sound_enrol [OF snd, of t nb]) (simp_all add: t_def)
  moreover have "hashing t = hashing s" by (simp add: hashing_def t_def)
  ultimately show "cinv t"
    using cinvD(2,3) [OF inv]
    by (intro cinvI [of "length (bheap s) # blockQueue s @ hashing s" _ "mset (hashing s)"]) (simp_all add: t_def)
qed

text \<open>The father that \<open>add_block\<close> chooses.\<close>

lemma add_block_father:
  assumes inv: "cinv s" and shuf: "shuffles lib" and op: "isInitiated s"
  obtains f q where "findFather lib (snd (findMinIdx s)) = Ok f (snd (findMinIdx s)\<lparr>draws := draws s + 1\<rparr>)"
    and "om_find (blockMap s) f = Some q" and "deepest s q"
proof -
  let ?s = "snd (findMinIdx s)"
  have "sound (blockQueue s @ hashing s) ?s"
    using sound_vec [OF cinvD(1) [OF inv], of "sort (vecIndex s)"] by (simp add: findMinIdx_snd)
  moreover have "isInitiated ?s" using op by (simp add: findMinIdx_snd)
  ultimately obtain f q where "findFather lib ?s = Ok f (?s\<lparr>draws := draws ?s + 1\<rparr>)"
      "om_find (blockMap ?s) f = Some q" "deepest ?s q"
    using findFather_deepest shuf by blast
  then show thesis using that by (simp add: findMinIdx_snd deepest_def)
qed

lemma add_block_inv:
  assumes inv: "cinv s" and shuf: "shuffles lib" and ex: "add_block lib data len s = Ok v t"
  shows "cinv t"
proof (cases "isInitiated s \<and> \<not> currentlyBlocked s")
  case True
  obtain f q where f: "findFather lib (snd (findMinIdx s)) = Ok f (snd (findMinIdx s)\<lparr>draws := draws s + 1\<rparr>)"
      "om_find (blockMap s) f = Some q" "deepest s q"
    using add_block_father [OF inv shuf] True by blast
  obtain i s1 where m: "findMinIdx s = (i, s1)" by (cases "findMinIdx s")
  have s1: "s1 = s\<lparr>vecIndex := sort (vecIndex s)\<rparr>" using findMinIdx_snd [of s] m by simp
  have "alive s1 q" "blk s1 q = blk s q" "om_find (blockMap s1) f = Some q"
    using attached_find(3) [OF cinvD(1) [OF inv] f(2)] s1 f(2) by simp_all
  then obtain nb where "new_block data i f (b_depth (blk s q) + 1) len = Inr nb"
    using ex True f(1) m s1
    by (cases "new_block data i f (b_depth (blk s q) + 1) len") (auto simp: add_block_def)
  then show ?thesis using add_block_ok [OF inv shuf _ _ _ f(1,2)] True ex m by auto
next
  case False
  then show ?thesis using ex inv by (auto simp: add_block_def)
qed

end
