(* ===== verification/Blockchain_Calls.thy ===== *)
theory Blockchain_Calls
  imports Blockchain_Ops
begin

text \<open>
  The remaining calls of the interface and the closing thread, in closed form, with the
  invariant after them.
\<close>

section \<open>Opening\<close>

lemma init_ok:
  assumes inv: "cinv s" and op: "\<not> isInitiated s" "\<not> currentlyBlocked s" "\<not> s_mutex s"
    and thread: "create_ret lib (draws s + 1) = 0"
  obtains g where "new_block None 0 (- 1) 0 0 = Inr g"
    and "init_blockchain lib s = Some (Ok SUCCESS (s\<lparr>s_mutex := True, draws := draws s + 1,
      daemons := daemons s @ [DLoop], bheap := bheap s @ [Some g],
      blockMap := [(0, length (bheap s))], vecIndex := [0], isInitiated := True\<rparr>))"
    and "cinv (s\<lparr>s_mutex := True, draws := draws s + 1,
      daemons := daemons s @ [DLoop], bheap := bheap s @ [Some g],
      blockMap := [(0, length (bheap s))], vecIndex := [0], isInitiated := True\<rparr>)"
proof -
  obtain g where g: "new_block None 0 (- 1) 0 0 = Inr g" by (simp add: new_block_def Let_def)
  note gs = new_block_Inr [OF g]
  have e: "blockMap s = []" "vecIndex s = []" "blockQueue s = []" "hashing s = []"
    using cinvD(1) [OF inv] op by (simp_all add: sound_def opened_def)
  let ?t = "s\<lparr>s_mutex := True, draws := draws s + 1, daemons := daemons s @ [DLoop],
      bheap := bheap s @ [Some g], blockMap := [(0, length (bheap s))], vecIndex := [0],
      isInitiated := True\<rparr>"
  have h: "bheap ?t = bheap s @ [Some g]" by simp
  have "alive ?t (length (bheap s))" "blk ?t (length (bheap s)) = g"
    using blk_alloc(2,3) [OF h] by simp_all
  then have "sound [] ?t"
    using gs by (simp add: sound_def numbered_def opened_def linked_def)
  moreover have "hashing ?t = []" using e(4) by (simp add: hashing_def)
  ultimately have "cinv ?t" using cinvD(3) [OF inv] e by (intro cinvI [of "[]" _ "{#}"]) simp_all
  moreover have "init_blockchain lib s = Some (Ok SUCCESS ?t)"
    using op thread g gs e by (simp add: init_blockchain_def Let_def)
  ultimately show thesis using that g by blast
qed

lemma init_inv:
  assumes inv: "cinv s" and ex: "init_blockchain lib s = Some (Ok v t)"
  shows "cinv t"
proof (cases "\<not> isInitiated s \<and> \<not> currentlyBlocked s \<and> \<not> s_mutex s \<and> create_ret lib (draws s + 1) = 0")
  case True
  then show ?thesis using init_ok [OF inv] ex by (metis option.inject outcome.inject(1))
next
  case False
  have *: "cinv (s\<lparr>s_mutex := True, draws := draws s + 1\<rparr>)"
    using inv by (simp add: cinv_def pending_def)
  show ?thesis using False ex inv *
    by (auto simp: init_blockchain_def Let_def split: if_splits)
qed

section \<open>Calls about a pending block\<close>

lemma queue_alive:
  assumes "cinv s"
  shows "\<forall>p \<in> set (blockQueue s). alive s p" and "distinct (map (index_of s) (blockQueue s))"
    and "p \<in> set (blockQueue s) \<Longrightarrow> p \<notin> set (attached s)"
  using cinvD(1) [OF assms] pending_not_found(3) [OF cinvD(1) [OF assms]]
  by (auto simp: sound_def numbered_def)

lemma queue_member:
  assumes "cinv s" and "p \<in> set (blockQueue s)" and "index_of s p = i"
  shows "om_find (blockMap s) i = None" "isInitiated s" "i \<noteq> 0"
    and "q \<in> set (blockQueue s) \<Longrightarrow> index_of s q = i \<Longrightarrow> q = p"
proof -
  have p: "p \<in> set (blockQueue s @ hashing s)" using assms(2) by simp
  show "om_find (blockMap s) i = None" "isInitiated s" "i \<noteq> 0"
    using pending_not_found(1,4,5) [OF cinvD(1) [OF assms(1)] p] assms(3) by simp_all
  show "q = p" if "q \<in> set (blockQueue s)" "index_of s q = i"
    using queue_alive(2) [OF assms(1)] that assms(2,3) by (auto simp: distinct_map dest: inj_onD)
qed

lemma existBlock_queue:
  assumes inv: "cinv s"
  obtains "existBlock i s = Ok FAIL s" "i \<notin> index_of s ` set (blockQueue s)"
  | r where "existBlock i s = Ok r s" "0 \<le> r" "nat r < length (blockQueue s)"
      "index_of s (blockQueue s ! nat r) = i"
proof -
  obtain r where r: "exist_from i 0 (blockQueue s) s = Ok r s"
      "if i \<in> index_of s ` set (blockQueue s)
       then \<exists>k < length (blockQueue s). r = 0 + int k \<and> index_of s (blockQueue s ! k) = i else r = FAIL"
    using exist_from_alive [OF queue_alive(1) [OF inv], of i 0] by blast
  show thesis
  proof (cases "i \<in> index_of s ` set (blockQueue s)")
    case True
    then obtain k where "k < length (blockQueue s)" "r = int k" "index_of s (blockQueue s ! k) = i"
      using r(2) by (simp only: if_True) auto
    then show thesis using that(2) [of r] r(1) by (simp add: existBlock_def)
  next
    case False
    then show thesis using that(1) r by (simp add: existBlock_def)
  qed
qed

lemma existBlock_absent:
  assumes inv: "cinv s" and "i \<notin> index_of s ` set (blockQueue s)"
  shows "existBlock i s = Ok FAIL s"
proof (rule existBlock_queue [OF inv, of i])
  fix r assume "nat r < length (blockQueue s)" "index_of s (blockQueue s ! nat r) = i"
  then show ?thesis using assms(2) by (metis imageI nth_mem)
qed

lemma to_longest_queued:
  assumes inv: "cinv s" and p: "p \<in> set (blockQueue s)" and i: "index_of s p = i"
  shows "to_longest i s = Ok SUCCESS (set_blk (setAttachToLongest True) p s)"
    and "cinv (set_blk (setAttachToLongest True) p s)"
proof -
  note m = queue_member [OF inv p i]
  show "to_longest i s = Ok SUCCESS (set_blk (setAttachToLongest True) p s)"
  proof (rule existBlock_queue [OF inv, of i])
    assume "i \<notin> index_of s ` set (blockQueue s)"
    then show ?thesis using p i by auto
  next
    fix r assume r: "existBlock i s = Ok r s" "0 \<le> r" "nat r < length (blockQueue s)"
      "index_of s (blockQueue s ! nat r) = i"
    then have "blockQueue s ! nat r = p" using m(4) by simp
    then show ?thesis using r(1,2) m(1,2) queue_alive(1) [OF inv] p by (simp add: to_longest_def)
  qed
  have "sound (blockQueue s @ hashing s) (set_blk (setAttachToLongest True) p s)"
    using queue_alive [OF inv] p cinvD(1) [OF inv] by (intro sound_set_blk) (auto simp: block_setters)
  then show "cinv (set_blk (setAttachToLongest True) p s)"
    using inv by (simp add: cinv_def pending_def)
qed

lemma to_longest_inv:
  assumes inv: "cinv s" and ex: "to_longest i s = Ok v t"
  shows "cinv t"
proof (cases "i \<in> index_of s ` set (blockQueue s)")
  case True
  then show ?thesis using to_longest_queued [OF inv] ex by auto
next
  case False
  then have "existBlock i s = Ok FAIL s" by (rule existBlock_absent [OF inv])
  then have "t = s" using ex by (auto simp: to_longest_def split: if_splits)
  then show ?thesis using inv by simp
qed

lemma attach_now_queued:
  assumes inv: "cinv s" and p: "p \<in> set (blockQueue s)" and i: "index_of s p = i"
    and op: "\<not> currentlyBlocked s" and idle: "isInDaemon s \<noteq> i"
  shows "attach_now i s = Ok (Waits i) (s\<lparr>blockQueue := p # remove1 p (blockQueue s)\<rparr>)"
    and "cinv (s\<lparr>blockQueue := p # remove1 p (blockQueue s)\<rparr>)"
proof -
  note m = queue_member [OF inv p i]
  have pop: "popBlock i s = Ok (Some p) (s\<lparr>blockQueue := remove1 p (blockQueue s)\<rparr>)"
    using popBlock_alive [OF queue_alive(1,2) [OF inv] p] i by simp
  show "attach_now i s = Ok (Waits i) (s\<lparr>blockQueue := p # remove1 p (blockQueue s)\<rparr>)"
  proof (rule existBlock_queue [OF inv, of i])
    assume "i \<notin> index_of s ` set (blockQueue s)"
    then show ?thesis using p i by auto
  next
    fix r assume "existBlock i s = Ok r s" "0 \<le> r"
    then show ?thesis using m pop op idle by (simp add: attach_now_def)
  qed
  have perm: "mset (p # remove1 p (blockQueue s)) = mset (blockQueue s)" using p by simp
  show "cinv (s\<lparr>blockQueue := p # remove1 p (blockQueue s)\<rparr>)"
    using cinvD [OF inv] perm
    by (intro cinvI [of "blockQueue s @ hashing s" _ "mset (hashing s)"]) simp_all
qed

lemma attach_now_inv:
  assumes inv: "cinv s" and ex: "attach_now i s = Ok v t"
  shows "cinv t"
proof (cases "i \<in> index_of s ` set (blockQueue s) \<and> \<not> currentlyBlocked s \<and> isInDaemon s \<noteq> i")
  case True
  then show ?thesis using attach_now_queued [OF inv] ex by auto
next
  case False
  have "t = s"
  proof (cases "currentlyBlocked s \<or> isInDaemon s = i")
    case True
    then show ?thesis using ex by (auto simp: attach_now_def split: if_splits)
  next
    case fit: False
    then have "existBlock i s = Ok FAIL s" using False by (intro existBlock_absent [OF inv]) simp
    then show ?thesis using ex by (auto simp: attach_now_def split: if_splits)
  qed
  then show ?thesis using inv by simp
qed

lemma was_added_cases:
  assumes inv: "cinv s" and op: "isInitiated s"
  shows "was_added i s =
    Ok (if om_find (blockMap s) i \<noteq> None then FOUND
        else if i \<in> index_of s ` set (blockQueue s) \<or> i = isInDaemon s then NOT_FOUND
        else UNSUCCESSFUL) s"
proof (rule existBlock_queue [OF inv, of i])
  assume "existBlock i s = Ok FAIL s" "i \<notin> index_of s ` set (blockQueue s)"
  then show ?thesis using op by (simp add: was_added_def)
next
  fix r assume r: "existBlock i s = Ok r s" "0 \<le> r" "nat r < length (blockQueue s)"
    "index_of s (blockQueue s ! nat r) = i"
  then have "i \<in> index_of s ` set (blockQueue s)" by (metis imageI nth_mem)
  then show ?thesis using op r by (simp add: was_added_def)
qed

section \<open>Closing\<close>

lemma drain_round_eq:
  assumes snd: "sound (p # ps) s" and q: "blockQueue s = p # ps"
  shows "drain_round lib s =
    and_then (hash_begin lib p (s\<lparr>blockQueue := ps\<rparr>)) (\<lambda>f s.
    and_then (case f of None \<Rightarrow> Ok FAIL s
              | Some f \<Rightarrow> and_then (hash_finish lib p f s) (\<lambda>_ s. Ok SUCCESS s)) (\<lambda>_ s.
    and_then (deref p s) (\<lambda>b s.
      case getHashedData b of
        None \<Rightarrow> Faults NullDeref
      | Some h \<Rightarrow> Ok () (s\<lparr>stdout := stdout s @ [(h, getIndex b)]\<rparr>))))"
proof -
  have "alive s p" using snd pending_not_found(2) [of "p # ps" s p] by simp
  then show ?thesis
    using q by (simp add: drain_round_def popBlock_front addAndHash_def and_then_assoc)
qed

text \<open>A round prints the block it attached; a block whose father is gone was freed before that.\<close>

lemma drain_round_attach:
  assumes snd: "sound (p # ps) s" and q: "blockQueue s = p # ps"
    and h: "hash_begin lib p (s\<lparr>blockQueue := ps\<rparr>) = Ok (Some f) t"
    and t: "sound (p # ps) t" and f: "om_find (blockMap t) f = Some x"
  shows "drain_round lib s = Ok () ((attach lib p f x t)
    \<lparr>stdout := stdout t @ [(hash_of lib p f t, index_of t p)]\<rparr>)"
proof -
  have a: "alive t p" using t pending_not_found(2) [of "p # ps" t p] by simp
  have "b_hashedData (blk (attach lib p f x t) p) = Some (hash_of lib p f t)"
      "index_of (attach lib p f x t) p = index_of t p" "stdout (attach lib p f x t) = stdout t"
    using blk_attach [OF a, of lib f x p] by (simp_all add: settled_def attach_def)
  then show ?thesis
    using drain_round_eq [OF snd q] h hash_finish_attach [OF a f] alive_attach [OF a] a by simp
qed

lemma drain_round_orphan:
  assumes snd: "sound (p # ps) s" and q: "blockQueue s = p # ps"
    and h: "hash_begin lib p (s\<lparr>blockQueue := ps\<rparr>) = Ok (Some f) t"
    and t: "sound (p # ps) t" and f: "om_find (blockMap t) f = None"
  shows "drain_round lib s = Faults UseAfterFree"
proof -
  have a: "alive t p" using t pending_not_found(2) [of "p # ps" t p] by simp
  have "deref p (dropped p t) = Faults UseAfterFree"
    using a by (simp add: dropped_def deref_fault alive_def)
  then show ?thesis using drain_round_eq [OF snd q] h hash_finish_orphan [OF a f] by simp
qed

definition same_threads :: "chain \<Rightarrow> chain \<Rightarrow> bool" where
  "same_threads s t \<longleftrightarrow>
     isInitiated t = isInitiated s \<and> currentlyBlocked t = currentlyBlocked s \<and>
     g_sizeCounter t = g_sizeCounter s \<and> s_mutex t = s_mutex s \<and> queueMutex t = queueMutex s \<and>
     daemons t = daemons s \<and> closers t = closers s"

lemma drain_round_ok:
  assumes snd: "sound (blockQueue s) s" and shuf: "shuffles lib" and ne: "blockQueue s \<noteq> []"
    and ex: "drain_round lib s = Ok u t"
  shows "sound (blockQueue t) t" "same_threads s t"
proof -
  obtain p ps where q: "blockQueue s = p # ps" using ne by (cases "blockQueue s") auto
  have snd': "sound (p # ps) s" "sound (p # ps) (s\<lparr>blockQueue := ps\<rparr>)" using snd q by simp_all
  obtain f v where h: "hash_begin lib p (s\<lparr>blockQueue := ps\<rparr>) = Ok (Some f) v" "sound (p # ps) v"
      "same_rest (s\<lparr>blockQueue := ps\<rparr>) v" "blockMap v = blockMap (s\<lparr>blockQueue := ps\<rparr>)"
    using hash_begin_ok [OF snd'(2) _ shuf, of p] by auto
  show "sound (blockQueue t) t" "same_threads s t"
  proof (atomize (full), cases "om_find (blockMap v) f")
    case None
    then show "sound (blockQueue t) t \<and> same_threads s t"
      using drain_round_orphan [OF snd'(1) q h(1,2)] ex by simp
  next
    case (Some x)
    have a: "sound ps (attach lib p f x v)" by (rule sound_attach [OF h(2) Some])
    have "t = (attach lib p f x v)\<lparr>stdout := stdout v @ [(hash_of lib p f v, index_of v p)]\<rparr>"
      using drain_round_attach [OF snd'(1) q h(1,2) Some] ex by simp
    then show "sound (blockQueue t) t \<and> same_threads s t"
      using a h(3) by (simp add: same_rest_def same_threads_def attach_def)
  qed
qed

lemma drain_ok:
  assumes "sound (blockQueue s) s" and "shuffles lib" and "drain lib s = Ok u t"
  shows "sound [] t \<and> same_threads s t \<and> blockQueue t = []"
  using assms
proof (induction lib s rule: drain.induct)
  case (1 lib s)
  show ?case
  proof (cases "blockQueue s = []")
    case True
    then show ?thesis using "1.prems" by (simp add: drain.simps [of lib s] same_threads_def)
  next
    case False
    obtain v s1 where r: "drain_round lib s = Ok v s1" "drain lib s1 = Ok u t"
      using "1.prems"(3) False by (auto simp: drain.simps [of lib s] split: outcome.splits)
    note ok = drain_round_ok [OF "1.prems"(1,2) False r(1)]
    show ?thesis using "1.IH" [OF False r(1) ok(1) "1.prems"(2) r(2)] ok(2) by (auto simp: same_threads_def)
  qed
qed

lemma delete_all_alive:
  assumes "distinct ps" and "\<forall>p \<in> set ps. alive s p"
  shows "\<exists>h. delete_all ps s = Ok () (s\<lparr>bheap := h\<rparr>)"
  using assms
proof (induction ps arbitrary: s)
  case Nil
  have "s = s\<lparr>bheap := bheap s\<rparr>" by simp
  then show ?case by (metis delete_all.simps(1))
next
  case (Cons p ps)
  let ?s = "s\<lparr>bheap := (bheap s)[p := None]\<rparr>"
  have "\<forall>q \<in> set ps. alive ?s q" using Cons.prems by (auto simp: alive_def nth_list_update)
  then have "\<exists>h. delete_all ps ?s = Ok () (s\<lparr>bheap := h\<rparr>)" using Cons.IH [of ?s] Cons.prems(1) by simp
  then show ?case using Cons.prems by simp
qed

lemma delete_all_frees:
  assumes "distinct ps" and "\<forall>p \<in> set ps. alive s p"
  shows "\<exists>h. delete_all ps s = Ok () (s\<lparr>bheap := h\<rparr>) \<and> (\<forall>p \<in> set ps. \<not> alive (s\<lparr>bheap := h\<rparr>) p)"
proof -
  have gone: "\<not> alive t p"
    if "delete_all ps s = Ok () t" "p \<in> set ps \<or> \<not> alive s p" for t ps s p
    using that
  proof (induction ps arbitrary: s)
    case (Cons q ps)
    then obtain b where "q < length (bheap s)" "bheap s ! q = Some b"
        "delete_all ps (s\<lparr>bheap := (bheap s)[q := None]\<rparr>) = Ok () t"
      by (auto simp: and_then_eq_Ok_iff)
    then show ?case using Cons.IH [of "s\<lparr>bheap := (bheap s)[q := None]\<rparr>"] Cons.prems(2)
      by (auto simp: alive_def nth_list_update split: if_splits)
  qed simp
  obtain h where "delete_all ps s = Ok () (s\<lparr>bheap := h\<rparr>)" using delete_all_alive [OF assms] by blast
  then show ?thesis using gone by blast
qed

lemma attached_distinct: "sound ps s \<Longrightarrow> distinct (attached s)"
proof -
  assume "sound ps s"
  then have "distinct (map (index_of s) (attached s @ ps))" unfolding sound_def numbered_def by blast
  then show ?thesis by (metis distinct_append distinct_map map_append)
qed

lemma close_thread_ok:
  assumes inv: "cinv s" and shuf: "shuffles lib" and ex: "closeChainThread lib s = Some (Ok u t)"
  shows "cinv t" "\<not> isInitiated t" "\<not> currentlyBlocked t" "\<not> s_mutex t" "g_sizeCounter t = 0"
    "closers t = closers s - 1" "daemons t = daemons s"
proof -
  have free: "\<not> queueMutex s" and h: "hashing s = []"
    using ex inv by (auto simp: closeChainThread_def cinv_def split: if_splits)
  obtain v s1 where d: "drain lib s = Ok v s1"
    and rest: "and_then (delete_all (attached s1) s1) (\<lambda>_ s.
             Ok () (s\<lparr>blockMap := [], vecIndex := [], g_sizeCounter := 0, currentlyBlocked := False,
                      isInitiated := False, s_mutex := False, closers := closers s - 1\<rparr>)) = Ok u t"
    using ex by (auto simp: closeChainThread_def and_then_eq_Ok_iff split: if_splits)
  have s1: "sound [] s1" "same_threads s s1" "blockQueue s1 = []"
    using drain_ok [OF _ shuf d] cinvD(1) [OF inv] h by simp_all
  have al: "\<forall>p \<in> set (attached s1). alive s1 p" using s1(1) by (simp add: sound_def)
  obtain hp where hp: "delete_all (attached s1) s1 = Ok () (s1\<lparr>bheap := hp\<rparr>)"
    using delete_all_alive [OF attached_distinct [OF s1(1)] al] by blast
  have t: "t = s1\<lparr>bheap := hp, blockMap := [], vecIndex := [], g_sizeCounter := 0,
      currentlyBlocked := False, isInitiated := False, s_mutex := False, closers := closers s1 - 1\<rparr>"
    using rest hp by simp
  have "hashing t = []" using h s1(2) t by (simp add: hashing_def same_threads_def)
  moreover have "sound [] t" using t by (simp add: sound_def sound_parts)
  ultimately show "cinv t"
    using free s1 t by (intro cinvI [of "[]" _ "{#}"]) (simp_all add: same_threads_def)
  show "\<not> isInitiated t" "\<not> currentlyBlocked t" "\<not> s_mutex t" "g_sizeCounter t = 0"
    "closers t = closers s - 1" "daemons t = daemons s"
    using t s1(2) by (simp_all add: same_threads_def)
qed

end
