(* ===== verification/Blockchain_Prune.thy ===== *)
theory Blockchain_Prune
  imports Blockchain_Calls
begin

text \<open>
  \<open>prune_chain\<close>: the first loop ends and marks the blocks between a deepest one and the genesis
  block; the second and the third keep what is marked. \<open>foreign_end\<close> is what the third relies
  on: what lies behind the map is not the address of a block.
\<close>

definition foreign_end :: "hashlib \<Rightarrow> bool" where
  "foreign_end lib \<longleftrightarrow> (\<forall>n. snd (past_map lib n) = None)"

section \<open>Marks\<close>

text \<open>\<open>remarked M s t\<close>: \<open>t\<close> is \<open>s\<close> with the marks set as \<open>M\<close> says.\<close>

definition remarked :: "(bptr \<Rightarrow> bool) \<Rightarrow> chain \<Rightarrow> chain \<Rightarrow> bool" where
  "remarked M s t \<longleftrightarrow>
     t = s\<lparr>bheap := bheap t\<rparr> \<and>
     (\<forall>q. alive t q = alive s q \<and> (alive s q \<longrightarrow> blk t q = (blk s q)\<lparr>b_isInLongest := M q\<rparr>))"

abbreviation mark :: "chain \<Rightarrow> bptr \<Rightarrow> bool" where
  "mark s p \<equiv> b_isInLongest (blk s p)"

lemma remarked_refl: "remarked (mark s) s s"
  by (simp add: remarked_def)

lemma remarked_trans:
  assumes "remarked M s t" and "remarked N t u" shows "remarked N s u"
proof -
  have "t = s\<lparr>bheap := bheap t\<rparr>" "u = t\<lparr>bheap := bheap u\<rparr>" using assms by (simp_all add: remarked_def)
  then have "u = s\<lparr>bheap := bheap u\<rparr>" by (metis chain.update_convs(1) chain.surjective)
  then show ?thesis using assms by (simp add: remarked_def)
qed

lemma remarked_fields:
  assumes "remarked M s t"
  shows "blockMap t = blockMap s" "blockQueue t = blockQueue s" "vecIndex t = vecIndex s"
    "isInitiated t = isInitiated s" "queueMutex t = queueMutex s" "daemons t = daemons s"
proof -
  obtain h where "t = s\<lparr>bheap := h\<rparr>" using assms by (auto simp: remarked_def)
  then show "blockMap t = blockMap s" "blockQueue t = blockQueue s" "vecIndex t = vecIndex s"
    "isInitiated t = isInitiated s" "queueMutex t = queueMutex s" "daemons t = daemons s" by simp_all
qed

lemma remarked_cong: "remarked M s t \<Longrightarrow> (\<And>q. alive s q \<Longrightarrow> M q = N q) \<Longrightarrow> remarked N s t"
  by (simp add: remarked_def)

lemma set_mark:
  "alive s p \<Longrightarrow> remarked (\<lambda>q. if q = p then x else mark s q) s (set_blk (setIsInLongest x) p s)"
  by (auto simp: remarked_def blk_set_blk block_setters alive_def set_blk_def blk_def nth_list_update)

text \<open>What the walk along \<open>_next\<close> needs.\<close>

definition woven :: "(bptr \<Rightarrow> nat) \<Rightarrow> chain \<Rightarrow> bool" where
  "woven rank s \<longleftrightarrow>
     om_ok (blockMap s) \<and> (\<forall>p \<in> set (attached s). alive s p) \<and>
     (\<forall>(k, p) \<in> set (blockMap s). index_of s p = k) \<and> linked rank s"

lemma sound_woven: "sound ps s \<Longrightarrow> \<exists>rank. woven rank s"
  by (auto simp: sound_def woven_def numbered_def)

definition leads :: "chain \<Rightarrow> bptr \<Rightarrow> bptr \<Rightarrow> bool" where
  "leads s = (\<lambda>p q. b_next (blk s p) = Some q)\<^sup>*\<^sup>*"

lemma leads_refl [simp]: "leads s p p"
  by (simp add: leads_def)

lemma leads_first: "leads s p q \<longleftrightarrow> p = q \<or> (\<exists>x. b_next (blk s p) = Some x \<and> leads s x q)"
  unfolding leads_def by (auto elim: converse_rtranclpE intro: converse_rtranclp_into_rtranclp)

lemma leads_last: "leads s p q \<Longrightarrow> b_next (blk s q) = Some x \<Longrightarrow> leads s p x"
  unfolding leads_def by (rule rtranclp.rtrancl_into_rtrancl)

lemma woven_next:
  assumes "woven rank s" and "p \<in> set (attached s)"
  shows "alive s p" and "om_find (blockMap s) (index_of s p) = Some p"
    and "b_next (blk s p) = None \<longleftrightarrow> index_of s p = 0"
    and "b_next (blk s p) = Some q \<Longrightarrow> q \<in> set (attached s) \<and> rank q < rank p"
proof -
  obtain k where k: "(k, p) \<in> set (blockMap s)" using assms(2) by auto
  show "alive s p" using assms by (auto simp: woven_def)
  have i: "index_of s p = k" using assms(1) k by (auto simp: woven_def)
  then show "om_find (blockMap s) (index_of s p) = Some p" using assms(1) k by (simp add: woven_def om_in_find)
  have l: "case b_next (blk s p) of None \<Rightarrow> k = 0
      | Some q \<Rightarrow> k \<noteq> 0 \<and> q \<in> set (attached s) \<and> rank q < rank p"
    using assms(1) k by (auto simp: woven_def linked_def)
  then show "b_next (blk s p) = None \<longleftrightarrow> index_of s p = 0" using i by (auto split: option.splits)
  show "b_next (blk s p) = Some q \<Longrightarrow> q \<in> set (attached s) \<and> rank q < rank p" using l by simp
qed

lemma leads_attached:
  assumes "woven rank s" and "leads s p q" and "p \<in> set (attached s)"
  shows "q \<in> set (attached s)"
  using assms(2,3) unfolding leads_def
  by (induction rule: converse_rtranclp_induct) (use woven_next(4) [OF assms(1)] in auto)

text \<open>Every walk ends at the genesis block.\<close>

lemma leads_genesis:
  assumes "woven rank s" and "p \<in> set (attached s)" and "om_find (blockMap s) 0 = Some g"
  shows "leads s p g"
  using assms(2)
proof (induction "rank p" arbitrary: p rule: less_induct)
  case less
  show ?case
  proof (cases "b_next (blk s p)")
    case None
    then have "p = g" using woven_next(2,3) [OF assms(1) less.prems] assms(3) by simp
    then show ?thesis by simp
  next
    case (Some q)
    then have "leads s q g" using woven_next(4) [OF assms(1) less.prems] less.hyps by simp
    then show ?thesis using Some leads_first by blast
  qed
qed

lemma woven_remarked:
  assumes "woven rank s" and "remarked M s t"
  shows "woven rank t"
proof -
  have eq: "alive t p" "index_of t p = index_of s p" "b_next (blk t p) = b_next (blk s p)"
    if "p \<in> set (attached s)" for p
    using assms that by (auto simp: woven_def remarked_def)
  have "linked rank t"
    unfolding linked_def remarked_fields(1) [OF assms(2)]
  proof (clarify, goal_cases)
    case (1 k p)
    then have p: "p \<in> set (attached s)" by force
    then show ?case using assms(1) 1 unfolding eq(3) [OF p] by (auto simp: woven_def linked_def)
  qed
  moreover have "\<forall>(k, p) \<in> set (blockMap s). index_of t p = k"
    using assms(1) eq(2) by (force simp: woven_def)
  ultimately show ?thesis
    using assms(1) eq(1) remarked_fields(1) [OF assms(2)] by (simp add: woven_def)
qed

lemma leads_cong:
  assumes "leads s p q" and "p \<in> A"
    and closed: "\<And>x y. x \<in> A \<Longrightarrow> b_next (blk s x) = Some y \<Longrightarrow> y \<in> A"
    and eq: "\<And>x. x \<in> A \<Longrightarrow> b_next (blk t x) = b_next (blk s x)"
  shows "leads t p q"
  using assms(1,2) unfolding leads_def
proof (induction rule: converse_rtranclp_induct)
  case (step x y)
  have "b_next (blk t x) = Some y" using eq [OF step.prems] step.hyps(1) by simp
  moreover have "y \<in> A" using closed [OF step.prems step.hyps(1)] .
  ultimately show ?case using step.IH by (intro converse_rtranclp_into_rtranclp [of _ x y])
qed simp

lemma leads_remarked:
  assumes "woven rank s" and "remarked M s t" and "p \<in> set (attached s)"
  shows "leads t p q = leads s p q"
proof -
  have eq: "b_next (blk t x) = b_next (blk s x)" if "x \<in> set (attached s)" for x
    using assms that by (auto simp: woven_def remarked_def)
  note closed = woven_next(4) [OF assms(1)]
  show ?thesis
  proof
    assume "leads t p q"
    then show "leads s p q" by (rule leads_cong [OF _ assms(3)]) (use eq closed in auto)
  next
    assume "leads s p q"
    then show "leads t p q" by (rule leads_cong [OF _ assms(3)]) (use eq closed in auto)
  qed
qed

section \<open>The first loop\<close>

lemma mark_longest_ok:
  assumes "woven rank s" and "om_find (blockMap s) i = Some p"
  shows "\<exists>t. mark_longest i s = Some (Ok () t) \<and>
    remarked (\<lambda>q. mark s q \<or> (leads s p q \<and> b_next (blk s q) \<noteq> None)) s t"
  using assms
proof (induction "rank p" arbitrary: i p s rule: less_induct)
  case less
  have p: "p \<in> set (attached s)" using om_find_in [OF less.prems(2)] by force
  note w = woven_next [OF less.prems(1) p]
  show ?case
  proof (cases "b_next (blk s p)")
    case None
    then have "leads s p q \<longleftrightarrow> q = p" for q using leads_first [of s p q] by auto
    then have "remarked (\<lambda>q. mark s q \<or> (leads s p q \<and> b_next (blk s q) \<noteq> None)) s s"
      using None by (intro remarked_cong [OF remarked_refl]) auto
    moreover have "mark_longest i s = Some (Ok () s)"
      using less.prems(2) w(1) None by (simp add: mark_longest.simps [of i s])
    ultimately show ?thesis by blast
  next
    case (Some x)
    let ?u = "set_blk (setIsInLongest True) p s"
    have u: "remarked (\<lambda>q. if q = p then True else mark s q) s ?u" using w(1) by (rule set_mark)
    have x: "x \<in> set (attached s)" "rank x < rank p" using w(4) [OF Some] by simp_all
    have wu: "woven rank ?u" using less.prems(1) u by (rule woven_remarked)
    have ax: "alive s x" "alive ?u x" using woven_next(1) [OF less.prems(1) x(1)] by simp_all
    have ix: "index_of ?u x = index_of s x" by (rule blk_set_blk_field) (simp add: block_setters)
    have step: "mark_longest i s = mark_longest (index_of s x) ?u"
      using less.prems(2) w(1) Some ax ix by (simp add: mark_longest.simps [of i s])
    have find: "om_find (blockMap ?u) (index_of s x) = Some x"
      using woven_next(2) [OF less.prems(1) x(1)] by simp
    obtain t where t: "mark_longest (index_of s x) ?u = Some (Ok () t)"
        "remarked (\<lambda>q. mark ?u q \<or> (leads ?u x q \<and> b_next (blk ?u q) \<noteq> None)) ?u t"
      using less.hyps [OF x(2) wu find] by blast
    have "remarked (\<lambda>q. mark s q \<or> (leads s p q \<and> b_next (blk s q) \<noteq> None)) s t"
    proof (rule remarked_cong [OF remarked_trans [OF u t(2)]])
      fix q assume q: "alive s q"
      have "mark ?u q \<longleftrightarrow> q = p \<or> mark s q" "b_next (blk ?u q) = b_next (blk s q)"
        using w(1) by (auto simp: blk_set_blk block_setters)
      moreover have "leads ?u x q = leads s x q" by (rule leads_remarked [OF less.prems(1) u x(1)])
      moreover have "leads s p q \<longleftrightarrow> q = p \<or> leads s x q" using leads_first [of s p q] Some by auto
      ultimately show "(mark ?u q \<or> (leads ?u x q \<and> b_next (blk ?u q) \<noteq> None)) =
          (mark s q \<or> (leads s p q \<and> b_next (blk s q) \<noteq> None))"
        using Some by auto
    qed
    then show ?thesis using step t(1) by auto
  qed
qed

section \<open>The other loops\<close>

lemma prune_vec_Ok:
  "prune_vec e v s = Ok v' t \<Longrightarrow>
   t = s \<and> set v' \<subseteq> set v \<and> (distinct v \<longrightarrow> distinct v') \<and>
   (\<forall>i \<in> set v. i \<notin> set v' \<longrightarrow> (\<exists>p. om_find (blockMap s) i = Some p \<and> \<not> mark s p))"
proof (induction e v s arbitrary: v' t rule: prune_vec.induct)
  case (2 e x xs s)
  show ?case
  proof (cases "x = e")
    case True
    then show ?thesis using "2.prems" by simp
  next
    case False
    then obtain p b where p: "om_find (blockMap s) x = Some p" "p < length (bheap s)" "bheap s ! p = Some b"
      and r: "(if \<not> getIsInLongest b then prune_vec (last (x # xs)) xs s
               else and_then (prune_vec e xs s) (\<lambda>ys s. Ok (x # ys) s)) = Ok v' t"
      using "2.prems" by (auto simp: and_then_eq_Ok_iff)
    have b: "blk s p = b" using p(3) by (simp add: blk_def)
    show ?thesis
    proof (cases "getIsInLongest b")
      case True
      then obtain ys where ys: "prune_vec e xs s = Ok ys t" "v' = x # ys"
        using r by (auto simp: and_then_eq_Ok_iff)
      have "\<not> \<not> getIsInLongest b" using True by simp
      then show ?thesis using "2.IH"(2) [OF False _ ys(1)] ys(2) by auto
    next
      case nl: False
      then have "prune_vec (last (x # xs)) xs s = Ok v' t" using r by simp
      then show ?thesis using "2.IH"(1) [OF False nl, of s v' t] p(1) b nl by (auto simp del: last.simps)
    qed
  qed
qed simp

lemma prune_map_marks:
  assumes "foreign_end lib" and "\<forall>p \<in> snd ` set m. alive s p"
  shows "prune_map lib n m s = Ok (filter (\<lambda>kp. mark s (snd kp)) m) s"
  using assms
proof (induction lib n m s rule: prune_map.induct)
  case (2 lib n k p m s)
  have "snd (past_map lib n) = None" using "2.prems"(1) by (simp add: foreign_end_def)
  then have "past_map lib n \<noteq> (k, Some p)" by auto
  then show ?case using "2.prems" "2.IH" by (cases "mark s p") auto
qed simp

lemma unmark_all_alive:
  assumes "\<forall>p \<in> set ps. alive s p"
  shows "\<exists>t. unmark_all ps s = Ok () t \<and> remarked (\<lambda>q. q \<notin> set ps \<and> mark s q) s t"
  using assms
proof (induction ps arbitrary: s)
  case Nil
  then show ?case using remarked_refl by simp
next
  case (Cons p ps)
  let ?u = "set_blk (setIsInLongest False) p s"
  have u: "remarked (\<lambda>q. if q = p then False else mark s q) s ?u" using Cons.prems by (intro set_mark) simp
  obtain t where t: "unmark_all ps ?u = Ok () t" "remarked (\<lambda>q. q \<notin> set ps \<and> mark ?u q) ?u t"
    using Cons.IH [of ?u] Cons.prems by auto
  have "remarked (\<lambda>q. q \<notin> set (p # ps) \<and> mark s q) s t"
    using Cons.prems by (intro remarked_cong [OF remarked_trans [OF u t(2)]])
      (auto simp: blk_set_blk block_setters)
  then show ?case using t(1) Cons.prems by auto
qed

section \<open>Pruning\<close>

text \<open>
  The whole of \<open>prune_chain\<close>: \<open>p\<close> is the block at the end of a longest chain, and what stays is
  what \<open>p\<close> leads to.
\<close>

definition pruned :: "bptr \<Rightarrow> int list \<Rightarrow> chain \<Rightarrow> chain \<Rightarrow> bool" where
  "pruned p v s t \<longleftrightarrow>
     (let m = filter (\<lambda>kq. leads s p (snd kq)) (blockMap s)
      in t = s\<lparr>bheap := bheap t, draws := draws s + 1, vecIndex := v, blockMap := m\<rparr> \<and>
         (\<forall>q. alive t q = alive s q \<and>
            (alive s q \<longrightarrow> blk t q = (blk s q)\<lparr>b_isInLongest := mark s q \<and> q \<notin> snd ` set m\<rparr>)) \<and>
         set v \<subseteq> set (vecIndex s) \<and> distinct v \<and>
         (\<forall>i \<in> set (vecIndex s). i \<notin> set v \<longrightarrow>
            (\<exists>q. om_find (blockMap s) i = Some q \<and> \<not> leads s p q)))"

lemma sweep_ok:
  assumes w: "woven rank s" and g: "om_find (blockMap s) 0 = Some g" and fe: "foreign_end lib"
    and ex: "sweep lib s = Ok x t"
  obtains v where "x = SUCCESS" and "t = s\<lparr>bheap := bheap t, vecIndex := v,
      blockMap := filter (\<lambda>kq. mark s (snd kq) \<or> snd kq = g) (blockMap s)\<rparr>"
    and "\<And>q. alive t q = alive s q"
    and "\<And>q. alive s q \<Longrightarrow> blk t q = (blk s q)\<lparr>b_isInLongest :=
      (mark s q \<or> q = g) \<and> q \<notin> snd ` set (filter (\<lambda>kq. mark s (snd kq) \<or> snd kq = g) (blockMap s))\<rparr>"
    and "set v \<subseteq> set (vecIndex s)" and "distinct (vecIndex s) \<longrightarrow> distinct v"
    and "\<And>i. i \<in> set (vecIndex s) \<Longrightarrow> i \<notin> set v \<Longrightarrow>
      \<exists>q. om_find (blockMap s) i = Some q \<and> \<not> mark s q \<and> q \<noteq> g"
proof -
  have ag: "alive s g" using om_find_in [OF g] w by (force simp: woven_def)
  let ?u = "set_blk (setIsInLongest True) g s"
  have u: "remarked (\<lambda>q. if q = g then True else mark s q) s ?u" using ag by (rule set_mark)
  have mu: "mark ?u q \<longleftrightarrow> mark s q \<or> q = g" for q
    using ag by (auto simp: blk_set_blk block_setters)
  obtain v where v: "prune_vec (past_vec lib (vecIndex s)) (vecIndex s) ?u = Ok v ?u"
    and rest: "and_then (prune_map lib (length (blockMap s)) (blockMap s) (?u\<lparr>vecIndex := v\<rparr>)) (\<lambda>m s.
      and_then (unmark_all (map snd m) (s\<lparr>blockMap := m\<rparr>)) (\<lambda>_ s. Ok SUCCESS s)) = Ok x t"
    using ex g ag prune_vec_Ok [of "past_vec lib (vecIndex s)" "vecIndex s" ?u]
    by (auto simp: sweep_def and_then_eq_Ok_iff)
  let ?m = "filter (\<lambda>kq. mark s (snd kq) \<or> snd kq = g) (blockMap s)"
  let ?s2 = "?u\<lparr>vecIndex := v, blockMap := ?m\<rparr>"
  have al: "\<forall>q \<in> snd ` set (blockMap s). alive ?u q" using w by (auto simp: woven_def)
  have "prune_map lib (length (blockMap s)) (blockMap s) (?u\<lparr>vecIndex := v\<rparr>) = Ok ?m (?u\<lparr>vecIndex := v\<rparr>)"
    using prune_map_marks [OF fe, of "blockMap s" "?u\<lparr>vecIndex := v\<rparr>"] al mu by simp
  then have um: "and_then (unmark_all (map snd ?m) ?s2) (\<lambda>_ s. Ok SUCCESS s) = Ok x t" using rest by simp
  obtain t' where t': "unmark_all (map snd ?m) ?s2 = Ok () t'"
      "remarked (\<lambda>q. q \<notin> set (map snd ?m) \<and> mark ?s2 q) ?s2 t'"
    using unmark_all_alive [of "map snd ?m" ?s2] al by fastforce
  have t: "t = t'" "x = SUCCESS" using um t'(1) by simp_all
  have uh: "?u = s\<lparr>bheap := bheap ?u\<rparr>" using u by (simp add: remarked_def)
  have "t = ?s2\<lparr>bheap := bheap t\<rparr>" using t'(2) t(1) by (simp add: remarked_def)
  then have "t = s\<lparr>vecIndex := v, blockMap := ?m, bheap := bheap t\<rparr>" by (subst (asm) uh) simp
  then have "t = s\<lparr>bheap := bheap t, vecIndex := v, blockMap := ?m\<rparr>" by (rule trans) simp
  note f1 = this
  have f2: "alive t q = alive s q" for q using t'(2) t(1) u by (simp add: remarked_def)
  have f3: "blk t q = (blk s q)\<lparr>b_isInLongest := (mark s q \<or> q = g) \<and> q \<notin> snd ` set ?m\<rparr>"
    if "alive s q" for q
  proof -
    have "alive ?s2 q" using that by simp
    then have "blk t q = (blk ?s2 q)\<lparr>b_isInLongest := q \<notin> set (map snd ?m) \<and> mark ?s2 q\<rparr>"
      using t'(2) t(1) by (simp only: remarked_def)
    moreover have "blk ?s2 q = (blk s q)\<lparr>b_isInLongest := (mark s q \<or> q = g)\<rparr>"
      using u that mu [of q] by (auto simp: remarked_def)
    ultimately show ?thesis by (auto simp: conj_commute)
  qed
  have f4: "set v \<subseteq> set (vecIndex s)" "distinct (vecIndex s) \<longrightarrow> distinct v"
      "\<forall>i \<in> set (vecIndex s). i \<notin> set v \<longrightarrow> (\<exists>q. om_find (blockMap s) i = Some q \<and> \<not> mark ?u q)"
    using prune_vec_Ok [OF v] by simp_all
  have f5: "\<exists>q. om_find (blockMap s) i = Some q \<and> \<not> mark s q \<and> q \<noteq> g"
    if "i \<in> set (vecIndex s)" "i \<notin> set v" for i
    using f4(3) that unfolding mu by blast
  show thesis by (rule that [OF t(2) f1 f2 f3 f4(1,2) f5])
qed

text \<open>None of these routines ends the process.\<close>

lemma store_no_exit [simp]:
  "deref p s \<noteq> Exits c t" "upd_block g p s \<noteq> Exits c t" "map_at i s \<noteq> Exits c t"
  by (auto simp: deref_def upd_block_def map_at_def and_then_eq_Exits_iff split: option.splits)

lemma prune_vec_no_exit [simp]: "prune_vec e v s \<noteq> Exits c t"
  by (induction e v s rule: prune_vec.induct) (auto simp: and_then_eq_Exits_iff split: if_splits)

lemma prune_map_no_exit [simp]: "prune_map lib n m s \<noteq> Exits c t"
  by (induction lib n m s rule: prune_map.induct) (auto simp: and_then_eq_Exits_iff split: if_splits)

lemma unmark_all_no_exit [simp]: "unmark_all ps s \<noteq> Exits c t"
  by (induction ps s rule: unmark_all.induct) (auto simp: and_then_eq_Exits_iff)

lemma sweep_no_exit: "sweep lib s \<noteq> Exits c t"
  by (auto simp: sweep_def and_then_eq_Exits_iff)

lemma sweep_pruned:
  assumes snd: "sound ps s" and w: "woven rank s" and g: "om_find (blockMap s) 0 = Some g"
    and fe: "foreign_end lib" and p: "p \<in> set (attached s)"
    and u: "remarked (\<lambda>q. mark s q \<or> (leads s p q \<and> b_next (blk s q) \<noteq> None)) (s\<lparr>draws := draws s + 1\<rparr>) u"
    and ex: "sweep lib u = Ok x t"
  obtains v where "x = SUCCESS" and "pruned p v s t"
proof -
  let ?s = "s\<lparr>draws := draws s + 1\<rparr>"
  have w': "woven rank ?s" using w by (simp add: woven_def linked_def cong: option.case_cong)
  have fields: "blockMap u = blockMap s" "vecIndex u = vecIndex s" using remarked_fields [OF u] by simp_all
  have wu: "woven rank u" by (rule woven_remarked [OF w' u])
  have att: "alive s q" "\<not> mark s q" if "q \<in> set (attached s)" for q using snd that by (auto simp: sound_def)
  have lg: "leads s p g" by (rule leads_genesis [OF w p g])
  have mu: "mark u q \<longleftrightarrow> mark s q \<or> (leads s p q \<and> b_next (blk s q) \<noteq> None)" if "alive s q" for q
    using u that by (simp add: remarked_def)
  have kept: "mark u q \<or> q = g \<longleftrightarrow> leads s p q" if q: "q \<in> set (attached s)" for q
    using mu [OF att(1) [OF q]] att(2) [OF q] woven_next(2,3) [OF w q] g lg by auto
  have m: "filter (\<lambda>kq. mark u (snd kq) \<or> snd kq = g) (blockMap u) = filter (\<lambda>kq. leads s p (snd kq)) (blockMap s)"
    (is "_ = ?m") unfolding fields by (rule filter_cong) (use kept in auto)
  have inm: "q \<in> snd ` set ?m" if "leads s p q" for q
    using leads_attached [OF w that p] that by force
  obtain v where v: "x = SUCCESS" "t = u\<lparr>bheap := bheap t, vecIndex := v, blockMap := ?m\<rparr>"
      "\<And>q. alive t q = alive u q"
      "\<And>q. alive u q \<Longrightarrow> blk t q = (blk u q)\<lparr>b_isInLongest := (mark u q \<or> q = g) \<and> q \<notin> snd ` set ?m\<rparr>"
      "set v \<subseteq> set (vecIndex u)" "distinct (vecIndex u) \<longrightarrow> distinct v"
      "\<And>i. i \<in> set (vecIndex u) \<Longrightarrow> i \<notin> set v \<Longrightarrow> \<exists>q. om_find (blockMap u) i = Some q \<and> \<not> mark u q \<and> q \<noteq> g"
    using sweep_ok [OF wu _ fe ex, of g] g unfolding m unfolding fields by blast
  have uh: "u = ?s\<lparr>bheap := bheap u\<rparr>" using u by (simp add: remarked_def)
  have "u\<lparr>bheap := h, vecIndex := v, blockMap := ?m\<rparr> =
      s\<lparr>bheap := h, draws := draws s + 1, vecIndex := v, blockMap := ?m\<rparr>" for h
    by (subst uh) simp
  then have "t = s\<lparr>bheap := bheap t, draws := draws s + 1, vecIndex := v, blockMap := ?m\<rparr>"
    by (rule trans [OF v(2)])
  moreover have "alive t q = alive s q" for q using v(3) u by (simp add: remarked_def)
  moreover have "blk t q = (blk s q)\<lparr>b_isInLongest := mark s q \<and> q \<notin> snd ` set ?m\<rparr>" if "alive s q" for q
  proof -
    have "(mark u q \<or> q = g) \<and> q \<notin> snd ` set ?m \<longleftrightarrow> mark s q \<and> q \<notin> snd ` set ?m"
      using mu [OF that] inm [of q] inm [OF lg] by auto
    moreover have "alive u q" "(blk u q)\<lparr>b_isInLongest := a\<rparr> = (blk s q)\<lparr>b_isInLongest := a\<rparr>" for a
      using u that by (simp_all add: remarked_def)
    ultimately show ?thesis using v(4) [of q] by simp
  qed
  moreover have "distinct (vecIndex s)" using snd by (simp add: sound_def numbered_def)
  moreover have "\<exists>q. om_find (blockMap s) i = Some q \<and> \<not> leads s p q"
    if i: "i \<in> set (vecIndex s)" "i \<notin> set v" for i
  proof -
    obtain q where q: "om_find (blockMap s) i = Some q" "\<not> mark u q" "q \<noteq> g"
      using v(7) [of i] i fields by auto
    have "q \<in> set (attached s)" using om_find_in [OF q(1)] by force
    then show ?thesis using kept q by auto
  qed
  ultimately have "pruned p v s t" using v(5,6) fields unfolding pruned_def Let_def by simp
  then show thesis using that v(1) by blast
qed

lemma distinct_map_kept:
  assumes "distinct (map f (map snd m @ ps))"
  shows "distinct (map f (map snd (filter Q m) @ ps))"
proof -
  have "distinct (map snd m @ ps)" and inj: "inj_on f (set (map snd m @ ps))"
    using assms by (simp_all only: distinct_map)
  then have "distinct (map snd (filter Q m) @ ps)" by (auto simp: List.distinct_map_filter)
  moreover have "inj_on f (set (map snd (filter Q m) @ ps))" by (rule inj_on_subset [OF inj]) auto
  ultimately show ?thesis by (simp only: distinct_map)
qed

abbreviation (input) survivors :: "bptr \<Rightarrow> chain \<Rightarrow> (int, bptr) omap" where
  "survivors p s \<equiv> filter (\<lambda>kq. leads s p (snd kq)) (blockMap s)"

lemma pruned_fields:
  assumes inv: "cinv s" and pr: "pruned p v s t"
  shows "blockMap t = survivors p s" "vecIndex t = v" "isInitiated t = isInitiated s"
    "blockQueue t = blockQueue s" "hashing t = hashing s" "queueMutex t = queueMutex s"
    and "q \<in> set (attached s @ blockQueue s @ hashing s) \<Longrightarrow> index_of t q = index_of s q"
    and "q \<in> set (attached s @ blockQueue s @ hashing s) \<Longrightarrow> b_next (blk t q) = b_next (blk s q)"
    and "q \<in> set (attached s @ blockQueue s @ hashing s) \<Longrightarrow> alive t q \<and> \<not> mark t q"
    and "set v \<subseteq> set (vecIndex s)" "distinct v"
    and "i \<in> set (vecIndex s) \<Longrightarrow> i \<notin> set v \<Longrightarrow> \<exists>q. om_find (blockMap s) i = Some q \<and> \<not> leads s p q"
proof -
  obtain h where t: "t = s\<lparr>bheap := h, draws := draws s + 1, vecIndex := v, blockMap := survivors p s\<rparr>"
    using pr unfolding pruned_def Let_def by blast
  show "blockMap t = survivors p s" "vecIndex t = v" "isInitiated t = isInitiated s"
    "blockQueue t = blockQueue s" "hashing t = hashing s" "queueMutex t = queueMutex s"
    by (simp_all add: t)
  have b: "alive t q = alive s q" "alive s q \<Longrightarrow>
      blk t q = (blk s q)\<lparr>b_isInLongest := mark s q \<and> q \<notin> snd ` set (survivors p s)\<rparr>" for q
    using pr unfolding pruned_def Let_def by blast+
  have old: "alive s q" "\<not> mark s q" if "q \<in> set (attached s @ blockQueue s @ hashing s)" for q
    using cinvD(1) [OF inv] that by (auto simp: sound_def)
  show "index_of t q = index_of s q" "b_next (blk t q) = b_next (blk s q)" "alive t q \<and> \<not> mark t q"
    if "q \<in> set (attached s @ blockQueue s @ hashing s)"
    using b [of q] old [OF that] by simp_all
  show "set v \<subseteq> set (vecIndex s)" "distinct v"
    "i \<in> set (vecIndex s) \<Longrightarrow> i \<notin> set v \<Longrightarrow> \<exists>q. om_find (blockMap s) i = Some q \<and> \<not> leads s p q"
    using pr unfolding pruned_def Let_def by blast+
qed

lemma pruned_numbered:
  assumes inv: "cinv s" and pr: "pruned p v s t"
  shows "numbered (blockQueue s @ hashing s) t"
proof -
  let ?ps = "blockQueue s @ hashing s" and ?m = "survivors p s"
  have snd: "sound ?ps s" by (rule cinvD(1) [OF inv])
  note t = pruned_fields [OF inv pr]
  have sub: "set (map snd ?m @ ?ps) \<subseteq> set (attached s @ ?ps)" by auto
  have dist: "distinct (map (index_of s) (attached s @ ?ps))"
      and vsub: "index_of s ` set (attached s @ ?ps) \<subseteq> set (vecIndex s)"
    using snd unfolding sound_def numbered_def by blast+
  have "distinct (map (index_of s) (map snd ?m @ ?ps))" by (rule distinct_map_kept [OF dist])
  moreover have "map (index_of t) (map snd ?m @ ?ps) = map (index_of s) (map snd ?m @ ?ps)"
    using sub t(7) by (intro map_cong) auto
  ultimately have d: "distinct (map (index_of t) (map snd ?m @ ?ps))" by (simp only:)
  have "index_of t q \<in> set v" if q: "q \<in> set (map snd ?m @ ?ps)" for q
  proof (rule ccontr)
    have qs: "q \<in> set (attached s @ ?ps)" using q sub by blast
    assume "index_of t q \<notin> set v"
    moreover have "index_of s q \<in> set (vecIndex s)" using vsub qs by blast
    ultimately obtain x where x: "om_find (blockMap s) (index_of s q) = Some x" "\<not> leads s p x"
      using t(12) t(7) [OF qs] by auto
    show False
    proof (cases "q \<in> set (map snd ?m)")
      case True
      then have "x = q" using find_attached [OF snd, of q] x(1) by auto
      then show False using x(2) True by auto
    next
      case False
      then show False using q x(1) pending_not_found(1) [OF snd, of q] by simp
    qed
  qed
  then have "index_of t ` set (map snd ?m @ ?ps) \<subseteq> set v" by blast
  moreover have "index_of t q = k" if "(k, q) \<in> set ?m" for k q
  proof -
    have kq: "(k, q) \<in> set (blockMap s)" using that by simp
    then have "index_of s q = k" using snd unfolding sound_def numbered_def by blast
    moreover have "q \<in> set (attached s @ ?ps)" using kq by force
    ultimately show ?thesis using t(7) by simp
  qed
  moreover have "\<forall>i \<in> set v. 0 \<le> i" using t(10) snd by (auto simp: sound_def numbered_def)
  ultimately show ?thesis unfolding numbered_def t(1,2) using d t(11) by blast
qed

lemma pruned_linked:
  assumes inv: "cinv s" and pr: "pruned p v s t" and w: "woven rank s"
  shows "linked rank t"
  unfolding linked_def pruned_fields(1) [OF inv pr]
proof (clarify, goal_cases)
  case (1 k q)
  then have kq: "(k, q) \<in> set (blockMap s)" and lq: "leads s p q" by simp_all
  then have q: "q \<in> set (attached s)" by force
  have next_q: "b_next (blk t q) = b_next (blk s q)" using pruned_fields(8) [OF inv pr, of q] q by simp
  have k: "index_of s q = k" using w kq by (auto simp: woven_def)
  show ?case
  proof (cases "b_next (blk s q)")
    case None
    then show ?thesis using woven_next(3) [OF w q] k next_q by simp
  next
    case (Some x)
    then have x: "x \<in> set (attached s)" "rank x < rank q" using woven_next(4) [OF w q] by simp_all
    have "leads s p x" using lq Some by (rule leads_last)
    then have "x \<in> set (map snd (survivors p s))" using x(1) by force
    moreover have "k \<noteq> 0" using woven_next(3) [OF w q] Some k by simp
    ultimately show ?thesis using Some x(2) next_q by simp
  qed
qed

lemma pruned_inv:
  assumes inv: "cinv s" and p: "p \<in> set (attached s)" and pr: "pruned p v s t" and init: "isInitiated s"
  shows "cinv t"
proof -
  let ?ps = "blockQueue s @ hashing s" and ?m = "survivors p s"
  have snd: "sound ?ps s" by (rule cinvD(1) [OF inv])
  obtain rank where w: "woven rank s" using sound_woven [OF snd] by blast
  obtain g where g: "om_find (blockMap s) 0 = Some g" using snd init by (auto simp: sound_def opened_def)
  note t = pruned_fields [OF inv pr]
  have ok: "om_ok ?m" using snd by (simp add: sound_def om_ok_filter)
  have "(0, g) \<in> set ?m" using om_find_in [OF g] leads_genesis [OF w p g] by simp
  then have "om_find ?m 0 \<noteq> None" using ok by (simp add: om_in_find)
  moreover have "\<forall>q \<in> set (map snd ?m @ ?ps). alive t q \<and> \<not> mark t q" using t(9) by auto
  ultimately have "sound ?ps t"
    using init ok pruned_numbered [OF inv pr] pruned_linked [OF inv pr w] unfolding sound_def opened_def t(1-3) by auto
  then show ?thesis using cinvD(2,3) [OF inv] t(1-6)
    by (intro cinvI [of ?ps _ "mset (hashing s)"]) simp_all
qed

lemma prune_chain_ok:
  assumes inv: "cinv s" and shuf: "shuffles lib" and fe: "foreign_end lib"
    and op: "isInitiated s" "\<not> currentlyBlocked s"
  obtains m where "prune_chain lib s = Some m" and "\<And>c t. m \<noteq> Exits c t" and "\<And>x t. m = Ok x t \<Longrightarrow>
    x = SUCCESS \<and> cinv t \<and> (\<exists>p v. deepest s p \<and> pruned p v s t)"
proof -
  have snd: "sound (blockQueue s @ hashing s) s" by (rule cinvD(1) [OF inv])
  obtain i p where f: "findFather lib s = Ok i (s\<lparr>draws := draws s + 1\<rparr>)"
      "om_find (blockMap s) i = Some p" "deepest s p"
    using findFather_deepest [OF snd op(1) shuf] by blast
  let ?s = "s\<lparr>draws := draws s + 1\<rparr>"
  obtain rank where w: "woven rank s" using sound_woven [OF snd] by blast
  then have w': "woven rank ?s" by (simp add: woven_def linked_def cong: option.case_cong)
  obtain g where g: "om_find (blockMap s) 0 = Some g" using snd op(1) by (auto simp: sound_def opened_def)
  obtain u where u: "mark_longest i ?s = Some (Ok () u)"
      "remarked (\<lambda>q. mark ?s q \<or> (leads ?s p q \<and> b_next (blk ?s q) \<noteq> None)) ?s u"
    using mark_longest_ok [OF w', of i p] f(2) by auto
  have p: "p \<in> set (attached s)" using f(3) by (simp add: deepest_def)
  have pc: "prune_chain lib s = Some (sweep lib u)" using f(1) u(1) op by (simp add: prune_chain_def)
  show thesis
  proof (rule that [OF pc])
    show "sweep lib u \<noteq> Exits c t" for c t by (rule sweep_no_exit)
    fix x t assume ex: "sweep lib u = Ok x t"
    have "remarked (\<lambda>q. mark s q \<or> (leads s p q \<and> b_next (blk s q) \<noteq> None)) ?s u"
      using u(2) by (simp add: leads_def)
    then obtain v where "x = SUCCESS" "pruned p v s t" using sweep_pruned [OF snd w g fe p _ ex] by blast
    then show "x = SUCCESS \<and> cinv t \<and> (\<exists>p v. deepest s p \<and> pruned p v s t)"
      using pruned_inv [OF inv p _ op(1)] f(3) by blast
  qed
qed

text \<open>
  When nothing is to be pruned, the loop over the numbers goes on until it meets a value equal to
  what lies behind the end; a number without attached block before that makes \<open>at\<close> throw.
\<close>

definition walked :: "hashlib \<Rightarrow> int list \<Rightarrow> int list" where
  "walked lib v = takeWhile (\<lambda>i. i \<noteq> past_vec lib v) v"

lemma prune_vec_marked:
  assumes "\<And>i q. i \<in> set v \<Longrightarrow> om_find (blockMap s) i = Some q \<Longrightarrow> alive s q \<and> mark s q"
  shows "prune_vec e v s =
    (if \<exists>i \<in> set (takeWhile (\<lambda>i. i \<noteq> e) v). om_find (blockMap s) i = None then Faults OutOfRange else Ok v s)"
  using assms
proof (induction v)
  case (Cons x xs)
  have ih: "prune_vec e xs s =
    (if \<exists>i \<in> set (takeWhile (\<lambda>i. i \<noteq> e) xs). om_find (blockMap s) i = None then Faults OutOfRange else Ok xs s)"
    by (rule Cons.IH) (rule Cons.prems, simp_all)
  show ?case
  proof (cases "om_find (blockMap s) x")
    case None
    then show ?thesis by (auto simp: map_at_def)
  next
    case (Some q)
    have "alive s q" "mark s q" using Cons.prems(1) [OF _ Some] by simp_all
    then show ?thesis using ih Some by auto
  qed
qed simp

lemma sweep_marked:
  assumes g: "om_find (blockMap s) 0 = Some g" and fe: "foreign_end lib"
    and al: "\<And>q. q \<in> set (attached s) \<Longrightarrow> alive s q \<and> (mark s q \<or> q = g)"
  shows "if \<exists>i \<in> set (walked lib (vecIndex s)). om_find (blockMap s) i = None
    then sweep lib s = Faults OutOfRange else (\<exists>t. sweep lib s = Ok SUCCESS t)"
proof -
  let ?u = "set_blk (setIsInLongest True) g s"
  have ag: "alive s g" using al om_find_in [OF g] by force
  have mu: "alive ?u q \<and> mark ?u q" if "q \<in> set (attached s)" for q
    using al [OF that] ag by (auto simp: blk_set_blk block_setters)
  have "alive ?u q \<and> mark ?u q" if "om_find (blockMap ?u) i = Some q" for i q
    using mu om_find_in [of "blockMap s" i q] that by force
  then have vec: "prune_vec (past_vec lib (vecIndex s)) (vecIndex s) ?u =
    (if \<exists>i \<in> set (walked lib (vecIndex s)). om_find (blockMap s) i = None then Faults OutOfRange else Ok (vecIndex s) ?u)"
    unfolding walked_def by (subst prune_vec_marked) simp_all
  let ?v = "?u\<lparr>vecIndex := vecIndex s\<rparr>"
  obtain t where "unmark_all (map snd (filter (\<lambda>kp. mark ?v (snd kp)) (blockMap s)))
      (?v\<lparr>blockMap := filter (\<lambda>kp. mark ?v (snd kp)) (blockMap s)\<rparr>) = Ok () t"
    using unmark_all_alive [of "map snd (filter (\<lambda>kp. mark ?v (snd kp)) (blockMap s))"
        "?v\<lparr>blockMap := filter (\<lambda>kp. mark ?v (snd kp)) (blockMap s)\<rparr>"] mu by auto
  moreover have "prune_map lib (length (blockMap s)) (blockMap s) ?v =
      Ok (filter (\<lambda>kp. mark ?v (snd kp)) (blockMap s)) ?v"
    using mu by (intro prune_map_marks [OF fe]) auto
  ultimately show ?thesis using g ag vec by (simp add: sweep_def)
qed

lemma prune_straight:
  assumes inv: "cinv s" and lib: "shuffles lib" "foreign_end lib" and op: "isInitiated s" "\<not> currentlyBlocked s"
    and line: "\<And>p q. deepest s p \<Longrightarrow> q \<in> set (attached s) \<Longrightarrow> leads s p q"
  shows "if \<exists>i \<in> set (walked lib (vecIndex s)). om_find (blockMap s) i = None
    then prune_chain lib s = Some (Faults OutOfRange) else (\<exists>t. prune_chain lib s = Some (Ok SUCCESS t))"
proof -
  have snd: "sound (blockQueue s @ hashing s) s" by (rule cinvD(1) [OF inv])
  obtain i p where f: "findFather lib s = Ok i (s\<lparr>draws := draws s + 1\<rparr>)"
      "om_find (blockMap s) i = Some p" "deepest s p"
    using findFather_deepest [OF snd op(1) lib(1)] by blast
  let ?s = "s\<lparr>draws := draws s + 1\<rparr>"
  obtain rank where w: "woven rank s" using sound_woven [OF snd] by blast
  then have w': "woven rank ?s" by (simp add: woven_def linked_def cong: option.case_cong)
  obtain g where g: "om_find (blockMap s) 0 = Some g" using snd op(1) by (auto simp: sound_def opened_def)
  obtain u where u: "mark_longest i ?s = Some (Ok () u)"
      "remarked (\<lambda>q. mark ?s q \<or> (leads ?s p q \<and> b_next (blk ?s q) \<noteq> None)) ?s u"
    using mark_longest_ok [OF w', of i p] f(2) by auto
  have fields: "blockMap u = blockMap s" "vecIndex u = vecIndex s" using remarked_fields [OF u(2)] by simp_all
  have au: "alive u q = alive s q" "alive s q \<Longrightarrow> mark u q = (mark s q \<or> (leads s p q \<and> b_next (blk s q) \<noteq> None))"
    for q using u(2) by (simp_all add: remarked_def leads_def)
  have "alive u q \<and> (mark u q \<or> q = g)" if "q \<in> set (attached u)" for q
  proof -
    have q: "q \<in> set (attached s)" using that fields by simp
    then have "alive s q" using snd by (simp add: sound_def)
    moreover have "b_next (blk s q) = None \<Longrightarrow> q = g" using woven_next(2,3) [OF w q] g by simp
    ultimately show ?thesis using au line [OF f(3) q] by auto
  qed
  then have "if \<exists>i \<in> set (walked lib (vecIndex s)). om_find (blockMap s) i = None
    then sweep lib u = Faults OutOfRange else (\<exists>t. sweep lib u = Ok SUCCESS t)"
    using sweep_marked [of u g lib] g fields lib(2) by simp
  then show ?thesis using f(1) u(1) op by (simp add: prune_chain_def split: if_splits)
qed

section \<open>All events\<close>

lemma cinv_initial: "cinv initial_chain"
  by (simp add: cinv_def initial_chain_def sound_def sound_parts pending_def hashing_def)

lemma cinv_frame [simp]:
  "cinv (s\<lparr>currentlyBlocked := a\<rparr>) = cinv s" "cinv (s\<lparr>draws := n\<rparr>) = cinv s" "cinv (s\<lparr>closers := n\<rparr>) = cinv s"
  by (simp_all add: cinv_def pending_def)

lemma bexec_inv:
  assumes inv: "cinv s" and lib: "shuffles lib" "foreign_end lib" and ex: "bexec lib e s = Some (Ok c t)"
  shows "cinv t"
proof (cases e)
  case Init
  then show ?thesis using ex init_inv [OF inv] by (auto simp: returns_def and_then_eq_Ok_iff)
next
  case (AddBlock data len)
  then show ?thesis using ex add_block_inv [OF inv lib(1)] by (auto simp: returns_def and_then_eq_Ok_iff)
next
  case (ToLongest n)
  then show ?thesis using ex to_longest_inv [OF inv] by (auto simp: returns_def and_then_eq_Ok_iff)
next
  case (AttachNow n)
  then show ?thesis using ex attach_now_inv [OF inv] by auto
next
  case (AttachPoll n)
  then show ?thesis using ex inv by (auto simp: attach_poll_def split: if_splits)
next
  case (WasAdded n)
  have "t = s"
  proof (cases "isInitiated s")
    case True
    then show ?thesis using ex WasAdded was_added_cases [OF inv True, of n] by (auto simp: returns_def)
  next
    case False
    then show ?thesis using ex WasAdded by (auto simp: returns_def was_added_def)
  qed
  then show ?thesis using inv by simp
next
  case ChainSize
  then show ?thesis using ex inv by simp
next
  case PruneChain
  show ?thesis
  proof (cases "isInitiated s \<and> \<not> currentlyBlocked s")
    case True
    then obtain m where "prune_chain lib s = Some m" "\<And>x t. m = Ok x t \<Longrightarrow> cinv t"
      using prune_chain_ok [OF inv lib] by metis
    then show ?thesis using ex PruneChain by (auto simp: returns_def and_then_eq_Ok_iff)
  next
    case False
    then show ?thesis using ex inv PruneChain by (auto simp: prune_chain_def returns_def)
  qed
next
  case CloseChain
  then show ?thesis using ex inv
    by (auto simp: steps_def close_chain_def Let_def and_then_eq_Ok_iff split: if_splits)
next
  case ReturnOnClose
  then show ?thesis using ex inv by simp
next
  case (Daemon i)
  then show ?thesis using ex daemon_inv [OF inv lib(1)] by (auto simp: steps_def and_then_eq_Ok_iff)
next
  case Closer
  then show ?thesis using ex close_thread_ok(1) [OF inv lib(1)] by (auto simp: steps_def and_then_eq_Ok_iff)
qed

text \<open>A library on whose promises the model relies.\<close>

definition lib_ok :: "hashlib \<Rightarrow> bool" where
  "lib_ok lib \<longleftrightarrow> shuffles lib \<and> foreign_end lib"

interpretation chain_events: event_invar "bexec lib" "\<lambda>s. cinv s \<and> lib_ok lib" "\<lambda>_. True" for lib
  by unfold_locales (use bexec_inv in \<open>auto simp: lib_ok_def\<close>)

lemma breachable_cinv: "breachable lib s \<Longrightarrow> lib_ok lib \<Longrightarrow> cinv s"
proof (induction rule: breachable.induct)
  case (step s e c t)
  then show ?case using chain_events.exec_invar [of s lib e c t] by simp
qed (rule cinv_initial)

end
