(* ===== verification/Blockchain_Session.thy ===== *)
theory Blockchain_Session
  imports Blockchain_Prune
begin

text \<open>
  A session: the time between \<open>init_blockchain\<close> and the first \<open>prune_chain\<close> or \<open>close_chain\<close>,
  with one daemon. Every pending block's father is attached then and one less deep, so that
  blocks are never dropped; \<open>tree\<close> says that depth counts the steps to the genesis block.
\<close>

definition fits :: "chain \<Rightarrow> bptr \<Rightarrow> int \<Rightarrow> bool" where
  "fits s p f \<longleftrightarrow> (\<exists>q. om_find (blockMap s) f = Some q \<and> b_depth (blk s p) = b_depth (blk s q) + 1)"

definition tree :: "chain \<Rightarrow> bool" where
  "tree s \<longleftrightarrow>
     (\<forall>p \<in> set (attached s).
        case b_next (blk s p) of
          None \<Rightarrow> b_depth (blk s p) = 0
        | Some q \<Rightarrow> b_depth (blk s p) = b_depth (blk s q) + 1 \<and> b_fatherIndex (blk s p) = index_of s q)"

definition daemon_fits :: "chain \<Rightarrow> daemon \<Rightarrow> bool" where
  "daemon_fits s d =
     (case d of
        DLoop \<Rightarrow> True
      | DEntered \<Rightarrow> blockQueue s \<noteq> []
      | DHashing p f \<Rightarrow> fits s p f
      | DExited \<Rightarrow> False)"

definition calm :: "chain \<Rightarrow> bool" where
  "calm s \<longleftrightarrow>
     cinv s \<and> isInitiated s \<and> \<not> currentlyBlocked s \<and>
     (\<exists>d. daemons s = [d] \<and> daemon_fits s d) \<and>
     (\<forall>p \<in> set (blockQueue s). fits s p (b_fatherIndex (blk s p))) \<and> tree s \<and>
     g_sizeCounter s + 1 = int (length (blockMap s))"

text \<open>The calls of a session; the data of a new block lie in the caller's buffer.\<close>

fun session_event :: "bevent \<Rightarrow> bool" where
  "session_event Init = True"
| "session_event (AddBlock data len) =
     (case data of None \<Rightarrow> True | Some d \<Rightarrow> 0 \<le> len \<and> len \<le> int (length d))"
| "session_event PruneChain = False"
| "session_event CloseChain = False"
| "session_event Closer = False"
| "session_event (Daemon i) = (i = 0)"
| "session_event _ = True"

text \<open>What the facts about attached and queued blocks depend on.\<close>

lemma fits_cong:
  assumes "fits s p f" and "sound ps s"
    and "\<And>i q. om_find (blockMap s) i = Some q \<Longrightarrow> om_find (blockMap t) i = Some q"
    and "\<And>q. q = p \<or> q \<in> set (attached s) \<Longrightarrow> b_depth (blk t q) = b_depth (blk s q)"
  shows "fits t p f"
proof -
  obtain q where "om_find (blockMap s) f = Some q" "b_depth (blk s p) = b_depth (blk s q) + 1"
    using assms(1) by (auto simp: fits_def)
  moreover from this have "q \<in> set (attached s)" using om_find_in by force
  ultimately show ?thesis using assms(3,4) by (auto simp: fits_def)
qed

lemma calm_sound: "calm s \<Longrightarrow> sound (blockQueue s @ hashing s) s"
  by (simp add: calm_def cinvD(1))

text \<open>\<open>same_shape ps s t\<close>: the map is the same, and so are its blocks and those in \<open>ps\<close>.\<close>

definition same_shape :: "bptr list \<Rightarrow> chain \<Rightarrow> chain \<Rightarrow> bool" where
  "same_shape ps s t \<longleftrightarrow>
     blockMap t = blockMap s \<and>
     (\<forall>p \<in> set (attached s @ ps). b_depth (blk t p) = b_depth (blk s p) \<and> b_next (blk t p) = b_next (blk s p) \<and>
        b_fatherIndex (blk t p) = b_fatherIndex (blk s p) \<and> index_of t p = index_of s p)"

lemma shape_fits:
  assumes "same_shape ps s t" and "sound qs s" and "p \<in> set ps" and "fits s p f"
  shows "fits t p f"
  using assms(1,3) by (intro fits_cong [OF assms(4,2)]) (auto simp: same_shape_def)

lemma shape_tree:
  assumes "same_shape ps s t" and "sound qs s" and "tree s"
  shows "tree t"
  unfolding tree_def
proof
  fix p assume "p \<in> set (attached t)"
  then have p: "p \<in> set (attached s)" using assms(1) by (simp add: same_shape_def)
  have eq: "b_depth (blk t x) = b_depth (blk s x)" "b_next (blk t x) = b_next (blk s x)"
      "b_fatherIndex (blk t x) = b_fatherIndex (blk s x)" "index_of t x = index_of s x"
    if "x \<in> set (attached s)" for x using assms(1) that by (simp_all add: same_shape_def)
  have "x \<in> set (attached s)" if "b_next (blk s p) = Some x" for x
    using woven_next(4) [OF _ p that] sound_woven [OF assms(2)] by blast
  then show "case b_next (blk t p) of None \<Rightarrow> b_depth (blk t p) = 0
      | Some q \<Rightarrow> b_depth (blk t p) = b_depth (blk t q) + 1 \<and> b_fatherIndex (blk t p) = index_of t q"
    using assms(3) p eq by (auto simp: tree_def split: option.splits)
qed

lemma calm_add:
  assumes calm: "calm s" and lib: "lib_ok lib" and data: "session_event (AddBlock data len)"
  obtains f q nb t where "add_block lib data len s = Ok (fst (findMinIdx s)) t" and "calm t"
    and "om_find (blockMap s) f = Some q" and "deepest s q"
    and "new_block data (fst (findMinIdx s)) f (b_depth (blk s q) + 1) len = Inr nb"
    and "t = s\<lparr>bheap := bheap s @ [Some nb], vecIndex := sort (vecIndex s) @ [fst (findMinIdx s)],
      blockQueue := blockQueue s @ [length (bheap s)], draws := draws s + 1\<rparr>"
proof -
  have inv: "cinv s" and op: "isInitiated s" "\<not> currentlyBlocked s" and shuf: "shuffles lib"
    using calm lib by (simp_all add: calm_def lib_ok_def)
  obtain f q where f: "findFather lib (snd (findMinIdx s)) = Ok f (snd (findMinIdx s)\<lparr>draws := draws s + 1\<rparr>)"
      "om_find (blockMap s) f = Some q" "deepest s q"
    using add_block_father [OF inv shuf op(1)] by blast
  obtain nb where nb: "new_block data (fst (findMinIdx s)) f (b_depth (blk s q) + 1) len = Inr nb"
    using new_block_fits data by fastforce
  note add = add_block_ok [OF inv shuf op nb f(1,2)]
  let ?t = "s\<lparr>bheap := bheap s @ [Some nb], vecIndex := sort (vecIndex s) @ [fst (findMinIdx s)],
      blockQueue := blockQueue s @ [length (bheap s)], draws := draws s + 1\<rparr>"
  note snd = calm_sound [OF calm]
  have heap: "bheap ?t = bheap s @ [Some nb]" by simp
  have old: "blk ?t x = blk s x" if "x \<in> set (attached s @ blockQueue s @ hashing s)" for x
    using blk_alloc(1) [OF heap] snd that by (auto simp: sound_def)
  have new: "blk ?t (length (bheap s)) = nb" by (rule blk_alloc(2) [OF heap])
  have shape: "same_shape (blockQueue s @ hashing s) s ?t" using old by (simp add: same_shape_def)
  note fits_old = shape_fits [OF shape snd]
  have "q \<in> set (attached s)" using f(3) by (simp add: deepest_def)
  then have "fits ?t (length (bheap s)) (b_fatherIndex (blk ?t (length (bheap s))))"
    using new new_block_Inr(2,3) [OF nb] f(2) old [of q] by (simp add: fits_def)
  then have q: "\<forall>p \<in> set (blockQueue ?t). fits ?t p (b_fatherIndex (blk ?t p))"
    using calm fits_old old by (auto simp: calm_def)
  have tr: "tree ?t" using shape_tree [OF shape snd] calm by (simp add: calm_def)
  have "daemon_fits ?t d" if d: "daemons s = [d]" "daemon_fits s d" for d
  proof (cases d)
    case (DHashing p i)
    then have "p \<in> set (hashing s)" using d(1) by (simp add: hashing_def)
    then show ?thesis using fits_old DHashing d(2) by (simp add: daemon_fits_def)
  qed (use d in \<open>auto simp: daemon_fits_def\<close>)
  then have "calm ?t" using calm q tr add(2) by (auto simp: calm_def)
  then show thesis using that add(1) f(2,3) nb by blast
qed

lemma calm_queue:
  assumes calm: "calm s" and inv: "cinv t" and shape: "same_shape (blockQueue s @ hashing s) s t"
    and "set (blockQueue t) = set (blockQueue s)"
    and "isInitiated t = isInitiated s" "currentlyBlocked t = currentlyBlocked s" "daemons t = daemons s"
      "g_sizeCounter t = g_sizeCounter s"
  shows "calm t"
proof -
  note snd = calm_sound [OF calm]
  note fits = shape_fits [OF shape snd]
  have "daemon_fits t d" if d: "daemons s = [d]" "daemon_fits s d" for d
  proof (cases d)
    case (DHashing p i)
    then have "p \<in> set (hashing s)" using d(1) by (simp add: hashing_def)
    then show ?thesis using fits DHashing d(2) by (simp add: daemon_fits_def)
  next
    case DEntered
    then show ?thesis using d(2) assms(4) by (auto simp: daemon_fits_def)
  qed (use d in \<open>auto simp: daemon_fits_def\<close>)
  moreover have "\<forall>p \<in> set (blockQueue t). fits t p (b_fatherIndex (blk t p))"
    using calm fits assms(4) shape by (auto simp: calm_def same_shape_def)
  moreover have "tree t" using shape_tree [OF shape snd] calm by (simp add: calm_def)
  moreover have "blockMap t = blockMap s" using shape by (simp add: same_shape_def)
  ultimately show ?thesis using calm inv assms(5-8) by (auto simp: calm_def)
qed

lemma calm_to_longest:
  assumes calm: "calm s" and ex: "to_longest i s = Ok v t"
  shows "calm t"
proof (cases "i \<in> index_of s ` set (blockQueue s)")
  case True
  then obtain p where p: "p \<in> set (blockQueue s)" "index_of s p = i" by auto
  have inv: "cinv s" using calm by (simp add: calm_def)
  have t: "t = set_blk (setAttachToLongest True) p s" using to_longest_queued [OF inv p] ex by simp
  have "same_shape (blockQueue s @ hashing s) s t"
    unfolding t same_shape_def by (auto intro!: blk_set_blk_field simp: block_setters)
  then show ?thesis using to_longest_queued(2) [OF inv p] t by (intro calm_queue [OF calm]) simp_all
next
  case False
  then have "existBlock i s = Ok FAIL s" using calm by (intro existBlock_absent) (auto simp: calm_def)
  then have "t = s" using ex by (auto simp: to_longest_def split: if_splits)
  then show ?thesis using calm by simp
qed

lemma calm_attach_now:
  assumes calm: "calm s"
  obtains v t where "attach_now i s = Ok v t" and "calm t"
proof -
  have inv: "cinv s" and op: "isInitiated s" "\<not> currentlyBlocked s" using calm by (simp_all add: calm_def)
  show thesis
  proof (cases "i \<in> index_of s ` set (blockQueue s) \<and> isInDaemon s \<noteq> i")
    case True
    then obtain p where p: "p \<in> set (blockQueue s)" "index_of s p = i" by auto
    note now = attach_now_queued [OF inv p op(2)]
    have "mset (p # remove1 p (blockQueue s)) = mset (blockQueue s)" using p(1) by simp
    then have set_eq: "set (p # remove1 p (blockQueue s)) = set (blockQueue s)" by (rule mset_eq_setD)
    have "calm (s\<lparr>blockQueue := p # remove1 p (blockQueue s)\<rparr>)"
      using now(2) True p(2) set_eq by (intro calm_queue [OF calm]) (simp_all add: same_shape_def)
    then show thesis using that now(1) True by blast
  next
    case False
    have "\<exists>v. attach_now i s = Ok v s"
    proof (cases "om_find (blockMap s) i = None \<and> isInDaemon s \<noteq> i")
      case True
      then have "existBlock i s = Ok FAIL s" using False by (intro existBlock_absent [OF inv]) simp
      then show ?thesis using op True by (simp add: attach_now_def)
    qed (use op in \<open>auto simp: attach_now_def\<close>)
    then show thesis using that calm by blast
  qed
qed

text \<open>A step of the daemon in a session: it never waits, and it attaches what it hashes.\<close>

lemma calm_loop:
  assumes calm: "calm s" and d: "daemons s = [DLoop]"
  shows "daemonFunction lib 0 s = Some (Ok () (if blockQueue s = [] then s else set_daemon 0 DEntered s))"
    and "blockQueue s \<noteq> [] \<Longrightarrow> calm (set_daemon 0 DEntered s)"
proof -
  show "daemonFunction lib 0 s = Some (Ok () (if blockQueue s = [] then s else set_daemon 0 DEntered s))"
    using calm d by (simp add: daemonFunction_def calm_def)
  assume ne: "blockQueue s \<noteq> []"
  have h: "hashing (set_daemon 0 DEntered s) = hashing s" using d by (simp add: hashing_def)
  have "cinv (set_daemon 0 DEntered s)"
    using calm h by (simp add: cinv_def calm_def pending_def)
  moreover have "fits (set_daemon 0 DEntered s) p i = fits s p i" for p i by (simp add: fits_def)
  moreover have "tree (set_daemon 0 DEntered s) = tree s" by (simp add: tree_def cong: option.case_cong)
  ultimately show "calm (set_daemon 0 DEntered s)"
    using calm d ne by (simp add: calm_def daemon_fits_def)
qed

text \<open>What is hashed, and the hash of a block: \<open>hashed_as lib b c\<close> says that \<open>c\<close> has the hash of \<open>b\<close>'s data.\<close>

definition same_content :: "block \<Rightarrow> block \<Rightarrow> bool" where
  "same_content b c \<longleftrightarrow> b_index c = b_index b \<and> b_data c = b_data b \<and> b_lenData c = b_lenData b"

definition hash_value :: "hashlib \<Rightarrow> block \<Rightarrow> int \<Rightarrow> string \<Rightarrow> bool" where
  "hash_value lib b f h \<longleftrightarrow>
     (\<exists>n. h = generate_hash lib (b_data b) (b_lenData b) (generate_nonce lib n (b_index b) f))"

definition hashed_as :: "hashlib \<Rightarrow> block \<Rightarrow> block \<Rightarrow> bool" where
  "hashed_as lib b c \<longleftrightarrow> (\<exists>h. b_hashedData c = Some h \<and> hash_value lib b (b_fatherIndex c) h)"

lemma same_content_refl [simp]: "same_content b b"
  by (simp add: same_content_def)

lemma hash_of_value: "hash_value lib (blk s p) f (hash_of lib p f s)"
  by (auto simp: hash_value_def hash_of_def)

lemma hash_value_same: "same_content b c \<Longrightarrow> hash_value lib c f h = hash_value lib b f h"
  by (simp add: hash_value_def same_content_def)

lemma hashed_as_same: "same_content b c \<Longrightarrow> hashed_as lib c d = hashed_as lib b d"
  by (simp add: hashed_as_def hash_value_same)

lemma settled_hashed: "hashed_as lib (blk s p) (settled (hash_of lib p f s) f q (blk s p))"
  using hash_of_value [of lib s p f] by (simp add: hashed_as_def settled_def)

text \<open>The start of \<open>addAndHash\<close>: it looks for the father, and changes at most the block's depth.\<close>

lemma hash_begin_father:
  assumes snd: "sound (p # ps) s" and shuf: "shuffles lib"
  obtains f t where "hash_begin lib p s = Ok (Some f) t" and "sound (p # ps) t" and "same_rest s t"
    and "blockMap t = blockMap s" and "\<And>x. x \<noteq> p \<Longrightarrow> blk t x = blk s x" and "\<And>x. index_of t x = index_of s x"
    and "if b_attachToLongest (blk s p)
         then \<exists>q. om_find (blockMap s) f = Some q \<and> deepest s q \<and> b_depth (blk t p) = b_depth (blk s q) + 1
         else f = b_fatherIndex (blk s p) \<and> blk t p = blk s p"
    and "isInDaemon t = index_of s p"
    and "\<And>x. same_content (blk s x) (blk t x)" and "b_attachToLongest (blk t p) = b_attachToLongest (blk s p)"
proof -
  have a: "alive s p" using pending_not_found(2) [OF snd, of p] by simp
  obtain f t where t: "hash_begin lib p s = Ok (Some f) t" "sound (p # ps) t" "same_rest s t"
      "blockMap t = blockMap s"
    using hash_begin_ok [OF snd _ shuf, of p] by auto
  show thesis
  proof (cases "b_attachToLongest (blk s p)")
    case True
    obtain i q where "om_find (blockMap s) i = Some q" "deepest s q"
      "hash_begin lib p s = Ok (Some i) (set_blk (setDepth (b_depth (blk s q) + 1)) p
          (s\<lparr>isInDaemon := index_of s p, draws := draws s + 1\<rparr>))"
      using hash_begin_longest [OF snd _ shuf True] by auto
    then show thesis using that [OF t] t(1) a True by (auto simp: blk_set_blk block_setters same_content_def)
  next
    case False
    then have "t = s\<lparr>isInDaemon := index_of s p\<rparr>" "f = b_fatherIndex (blk s p)"
      using t(1) hash_begin_direct [OF a False, of lib] by simp_all
    then show thesis using that [OF t] False by simp
  qed
qed

lemma calm_take:
  assumes calm: "calm s" and lib: "lib_ok lib" and d: "daemons s = [DEntered]" and q: "blockQueue s = p # ps"
  obtains f t where "daemonFunction lib 0 s = Some (Ok () t)" and "calm t"
    and "daemons t = [DHashing p f]" and "blockQueue t = ps" and "blockMap t = blockMap s"
    and "g_sizeCounter t = g_sizeCounter s"
    and "\<And>x. index_of t x = index_of s x"
    and "\<And>x. x \<in> set (attached s) \<Longrightarrow> blk t x = blk s x"
    and "b_attachToLongest (blk s p) \<Longrightarrow> \<exists>q. om_find (blockMap s) f = Some q \<and> deepest s q"
    and "\<not> b_attachToLongest (blk s p) \<Longrightarrow> f = b_fatherIndex (blk s p)"
    and "\<And>x. x \<in> set ps \<Longrightarrow> blk t x = blk s x" and "isInDaemon t = index_of s p" and "vecIndex t = vecIndex s"
    and "same_content (blk s p) (blk t p)"
proof -
  have inv: "cinv s" and shuf: "shuffles lib" using calm lib by (simp_all add: calm_def lib_ok_def)
  have free: "\<not> queueMutex s" and h: "hashing s = []" using inv d by (simp_all add: cinv_def hashing_def)
  have i: "0 < length (daemons s)" "daemons s ! 0 = DEntered" using d by simp_all
  obtain f u where u: "daemonFunction lib 0 s = Some (Ok () (set_daemon 0 (DHashing p f) (u\<lparr>queueMutex := True\<rparr>)))"
      "hash_begin lib p (s\<lparr>blockQueue := ps\<rparr>) = Ok (Some f) u" "same_rest (s\<lparr>blockQueue := ps\<rparr>) u"
      "blockMap u = blockMap s" "cinv (set_daemon 0 (DHashing p f) (u\<lparr>queueMutex := True\<rparr>))"
    using daemon_take_ok [OF inv shuf i q free, of thesis] by blast
  let ?s = "s\<lparr>blockQueue := ps\<rparr>" and ?t = "set_daemon 0 (DHashing p f) (u\<lparr>queueMutex := True\<rparr>)"
  have snd: "sound (p # ps) s" using calm_sound [OF calm] q h by simp
  have pend: "alive s p" "p \<notin> set (attached s)" using pending_not_found(2,3) [OF snd, of p] by simp_all
  have "distinct (map (index_of s) (attached s @ p # ps))"
    using snd unfolding sound_def numbered_def by blast
  then have pps: "p \<notin> set ps" by auto
  have snd': "sound (p # ps) ?s" using snd by simp
  obtain f' u' where u': "hash_begin lib p ?s = Ok (Some f') u'" "\<And>x. x \<noteq> p \<Longrightarrow> blk u' x = blk ?s x"
      "\<And>x. index_of u' x = index_of ?s x"
      "if b_attachToLongest (blk ?s p)
       then \<exists>q. om_find (blockMap ?s) f' = Some q \<and> deepest ?s q \<and> b_depth (blk u' p) = b_depth (blk ?s q) + 1
       else f' = b_fatherIndex (blk ?s p) \<and> blk u' p = blk ?s p" "isInDaemon u' = index_of ?s p"
      "same_content (blk ?s p) (blk u' p)"
    using hash_begin_father [OF snd' shuf, of thesis] by blast
  have eq: "f' = f" "u' = u" using u'(1) u(2) by simp_all
  have bu: "\<And>x. x \<noteq> p \<Longrightarrow> blk u x = blk s x" "\<And>x. index_of u x = index_of s x"
      "if b_attachToLongest (blk s p)
       then \<exists>q. om_find (blockMap s) f = Some q \<and> deepest s q \<and> b_depth (blk u p) = b_depth (blk s q) + 1
       else f = b_fatherIndex (blk s p) \<and> blk u p = blk s p"
    using u'(2-4) unfolding eq by (simp_all add: deepest_def cong: if_cong)
  have fits_p: "fits s p (b_fatherIndex (blk s p))" using calm q by (simp add: calm_def)
  have fits_f: "fits u p f"
  proof -
    obtain x where x: "om_find (blockMap s) f = Some x" "b_depth (blk u p) = b_depth (blk s x) + 1"
      using bu(3) fits_p by (auto simp: fits_def split: if_splits)
    moreover have "x \<noteq> p" using om_find_in [OF x(1)] pend(2) by force
    ultimately show ?thesis using u(4) bu(1) by (simp add: fits_def)
  qed
  have "same_shape ps s ?t"
  proof -
    have "blk u x = blk s x" if "x \<in> set (attached s @ ps)" for x
      using that pend(2) pps by (intro bu(1)) auto
    then show ?thesis using u(4) by (simp add: same_shape_def)
  qed
  note fits = shape_fits [OF this snd] and tree = shape_tree [OF this snd]
  have ds: "daemons ?t = [DHashing p f]" using u(3) d by (simp add: same_rest_def)
  have "blk ?t x = blk s x" if "x \<in> set ps" for x using bu(1) [of x] that pps by auto
  moreover have "fits ?t p f" using fits_f by (simp add: fits_def)
  ultimately have "calm ?t"
    using calm u(3-5) ds fits tree q by (auto simp: calm_def same_rest_def daemon_fits_def)
  show thesis
  proof (rule that [OF u(1) \<open>calm ?t\<close> ds])
    show "blockQueue ?t = ps" "blockMap ?t = blockMap s" "g_sizeCounter ?t = g_sizeCounter s" using u(3,4) by (simp_all add: same_rest_def)
    show "index_of ?t x = index_of s x" for x using bu(2) by simp
    show "blk ?t x = blk s x" if "x \<in> set (attached s)" for x
      using that pend(2) bu(1) [of x] by auto
    show "\<exists>q. om_find (blockMap s) f = Some q \<and> deepest s q" if "b_attachToLongest (blk s p)"
      using bu(3) that by auto
    show "f = b_fatherIndex (blk s p)" if "\<not> b_attachToLongest (blk s p)" using bu(3) that by simp
    show "blk ?t x = blk s x" if "x \<in> set ps" for x using that pps bu(1) [of x] by auto
    show "isInDaemon ?t = index_of s p" using u'(5) unfolding eq by simp
    show "vecIndex ?t = vecIndex s" using u(3) by (simp add: same_rest_def)
    show "same_content (blk s p) (blk ?t p)" using u'(6) unfolding eq by simp
  qed
qed

lemma calm_finish:
  assumes calm: "calm s" and d: "daemons s = [DHashing p f]"
  obtains q t where "daemonFunction lib 0 s = Some (Ok () t)" and "calm t" and "daemons t = [DLoop]"
    and "om_find (blockMap s) f = Some q" and "blockQueue t = blockQueue s"
    and "blockMap t = om_insert (index_of s p) p (blockMap s)" and "om_find (blockMap t) (index_of s p) = Some p"
    and "g_sizeCounter t = g_sizeCounter s + 1"
    and "\<And>x. x \<noteq> p \<Longrightarrow> blk t x = blk s x" and "blk t p = settled (hash_of lib p f s) f q (blk s p)"
    and "isInDaemon t = isInDaemon s" and "vecIndex t = vecIndex s"
proof -
  have inv: "cinv s" using calm by (simp add: calm_def)
  have i: "0 < length (daemons s)" "daemons s ! 0 = DHashing p f" using d by simp_all
  obtain u where u: "daemonFunction lib 0 s = Some (Ok () (set_daemon 0 DLoop
       (u\<lparr>g_sizeCounter := g_sizeCounter s + 1, queueMutex := False\<rparr>)))"
      "hash_finish lib p f s = Ok () u" "same_rest s u" "sound (p # blockQueue s) s"
      "cinv (set_daemon 0 DLoop (u\<lparr>g_sizeCounter := g_sizeCounter s + 1, queueMutex := False\<rparr>))"
    using daemon_finish_ok [OF inv i, of lib thesis] by blast
  let ?t = "set_daemon 0 DLoop (u\<lparr>g_sizeCounter := g_sizeCounter s + 1, queueMutex := False\<rparr>)"
  obtain q where q: "om_find (blockMap s) f = Some q" "b_depth (blk s p) = b_depth (blk s q) + 1"
    using calm d by (auto simp: calm_def daemon_fits_def fits_def)
  have pend: "alive s p" "p \<notin> set (attached s)" "om_find (blockMap s) (index_of s p) = None"
    using pending_not_found(1-3) [OF u(4), of p] by simp_all
  have ua: "u = attach lib p f q s" using hash_finish_attach [OF pend(1) q(1)] u(2) by simp
  have map: "blockMap ?t = om_insert (index_of s p) p (blockMap s)" by (simp add: ua attach_def)
  have b: "blk u x = (if x = p then settled (hash_of lib p f s) f q (blk s p) else blk s x)" for x
    using blk_attach [OF pend(1)] by (simp add: ua)
  have ok: "om_ok (blockMap s)" using u(4) by (simp add: sound_def)
  have find: "om_find (blockMap ?t) = (om_find (blockMap s))(index_of s p := Some p)"
    using om.find_ins [OF ok] pend(3) map by simp
  have att: "set (blockMap u) = insert (index_of s p, p) (set (blockMap s))"
    using attached_attach(2) [OF u(4), of lib f q] by (simp add: ua)
  have qa: "q \<in> set (attached s)" "index_of s q = f" "q \<noteq> p"
    using attached_find(1,2) [OF u(4) q(1)] pend(2) by auto
  have "distinct (map (index_of s) (attached s @ p # blockQueue s))"
    using u(4) unfolding sound_def numbered_def by blast
  then have pq: "p \<notin> set (blockQueue s)" by auto
  have fits: "fits ?t x i" if "fits s x i" for x i
    using that find pend(3) by (intro fits_cong [OF that u(4)]) (auto simp: b settled_def)
  have "tree ?t"
    unfolding tree_def
  proof
    fix x assume "x \<in> set (attached ?t)"
    then consider "x = p" | "x \<noteq> p" "x \<in> set (attached s)" by (auto simp: att)
    then show "case b_next (blk ?t x) of None \<Rightarrow> b_depth (blk ?t x) = 0
        | Some y \<Rightarrow> b_depth (blk ?t x) = b_depth (blk ?t y) + 1 \<and> b_fatherIndex (blk ?t x) = index_of ?t y"
    proof cases
      case 1
      then show ?thesis using q(2) qa by (simp add: b settled_def)
    next
      case 2
      have "y \<in> set (attached s)" if "b_next (blk s x) = Some y" for y
        using woven_next(4) [OF _ 2(2) that] sound_woven [OF u(4)] by blast
      then have "y \<noteq> p" if "b_next (blk s x) = Some y" for y using pend(2) that by blast
      then show ?thesis using calm 2 by (auto simp: calm_def tree_def b split: option.splits)
    qed
  qed
  moreover have "\<forall>x \<in> set (blockQueue ?t). fits ?t x (b_fatherIndex (blk ?t x))"
    using calm fits u(3) pq by (auto simp: calm_def same_rest_def b)
  moreover have "int (length (blockMap ?t)) = int (length (blockMap s)) + 1"
    using map length_om_insert [OF pend(3)] by simp
  moreover have ds: "daemons ?t = [DLoop]" using u(3) d by (simp add: same_rest_def)
  ultimately have "calm ?t" using calm u(3,5) by (simp add: calm_def daemon_fits_def same_rest_def)
  then show thesis
    using that [OF u(1) _ ds q(1) _ map] find b u(3) by (simp add: same_rest_def ua attach_def)
qed

section \<open>Sessions are safe\<close>

lemma calm_daemon:
  assumes calm: "calm s" and lib: "lib_ok lib"
  obtains t where "daemonFunction lib 0 s = Some (Ok () t)" and "calm t"
proof -
  obtain d where d: "daemons s = [d]" "daemon_fits s d" using calm by (auto simp: calm_def)
  show thesis
  proof (cases d)
    case DLoop
    then show thesis using that calm_loop [OF calm] calm d(1) by (cases "blockQueue s = []") auto
  next
    case DEntered
    then obtain p ps where "blockQueue s = p # ps"
      using d(2) by (cases "blockQueue s") (auto simp: daemon_fits_def)
    then show thesis using that calm_take [OF calm lib] d(1) DEntered by metis
  next
    case (DHashing p f)
    then show thesis using that calm_finish [OF calm, of p f lib] d(1) by metis
  next
    case DExited
    then show thesis using d(2) by (simp add: daemon_fits_def)
  qed
qed

lemma calm_exec:
  assumes calm: "calm s" and lib: "lib_ok lib" and e: "session_event e"
  shows "\<exists>c t. bexec lib e s = Some (Ok c t) \<and> calm t"
proof -
  have inv: "cinv s" and op: "isInitiated s" "\<not> currentlyBlocked s" using calm by (simp_all add: calm_def)
  show ?thesis
  proof (cases e)
    case Init
    then show ?thesis using calm op by (simp add: init_blockchain_def returns_def)
  next
    case (AddBlock data len)
    then obtain t where "add_block lib data len s = Ok (fst (findMinIdx s)) t" "calm t"
      using calm_add [OF calm lib, of data len] e by blast
    then show ?thesis using AddBlock by (simp add: returns_def)
  next
    case (ToLongest n)
    have "\<exists>v t. to_longest n s = Ok v t"
    proof (cases "om_find (blockMap s) n = None \<and> n \<in> index_of s ` set (blockQueue s)")
      case True
      then show ?thesis using to_longest_queued(1) [OF inv] by auto
    next
      case False
      then show ?thesis using op existBlock_absent [OF inv, of n]
        by (cases "om_find (blockMap s) n") (auto simp: to_longest_def)
    qed
    then show ?thesis using calm_to_longest [OF calm] ToLongest by (auto simp: returns_def)
  next
    case (AttachNow n)
    then show ?thesis using calm_attach_now [OF calm, of n] by (metis bexec.simps(4))
  next
    case (AttachPoll n)
    then show ?thesis using calm by (simp add: attach_poll_def)
  next
    case (WasAdded n)
    then show ?thesis using calm was_added_cases [OF inv op(1), of n] by (simp add: returns_def)
  next
    case (Daemon i)
    obtain t where "daemonFunction lib 0 s = Some (Ok () t)" "calm t" by (rule calm_daemon [OF calm lib])
    then show ?thesis using e Daemon by (simp add: steps_def)
  qed (use calm e in simp_all)
qed

interpretation session: event_service "bexec lib" "\<lambda>s. calm s \<and> lib_ok lib" session_event "\<lambda>_ _. True"
  for lib
proof unfold_locales
  fix s e assume s: "calm s \<and> lib_ok lib" and e: "session_event e"
  then obtain c t where ct: "bexec lib e s = Some (Ok c t)" "calm t" using calm_exec by blast
  then show "\<exists>a t. bexec lib e s = Some (Ok a t) \<and> True" by blast
  show "calm u \<and> lib_ok lib" if "bexec lib e s = Some (Ok a u)" for a u using ct s that by simp
qed

text \<open>The state after \<open>init_blockchain\<close>.\<close>

definition first_state :: "chain \<Rightarrow> bool" where
  "first_state s \<longleftrightarrow> cinv s \<and> \<not> isInitiated s \<and> \<not> currentlyBlocked s \<and> daemons s = [] \<and> g_sizeCounter s = 0"

lemma init_calm:
  assumes first: "first_state s" and ex: "init_blockchain lib s = Some (Ok SUCCESS t)"
  shows "calm t"
proof -
  have s: "cinv s" "\<not> isInitiated s" "\<not> currentlyBlocked s" "daemons s = []" "g_sizeCounter s = 0"
    using first by (simp_all add: first_state_def)
  have ok: "\<not> s_mutex s" "create_ret lib (draws s + 1) = 0"
    using ex s(2,3) by (auto simp: init_blockchain_def Let_def split: if_splits)
  obtain g where g: "new_block None 0 (- 1) 0 0 = Inr g"
    and i: "init_blockchain lib s = Some (Ok SUCCESS (s\<lparr>s_mutex := True, draws := draws s + 1,
      daemons := daemons s @ [DLoop], bheap := bheap s @ [Some g],
      blockMap := [(0, length (bheap s))], vecIndex := [0], isInitiated := True\<rparr>))"
    and inv: "cinv (s\<lparr>s_mutex := True, draws := draws s + 1,
      daemons := daemons s @ [DLoop], bheap := bheap s @ [Some g],
      blockMap := [(0, length (bheap s))], vecIndex := [0], isInitiated := True\<rparr>)"
    using init_ok [OF s(1-3) ok] by blast
  let ?t = "s\<lparr>s_mutex := True, draws := draws s + 1, daemons := daemons s @ [DLoop],
      bheap := bheap s @ [Some g], blockMap := [(0, length (bheap s))], vecIndex := [0], isInitiated := True\<rparr>"
  have q: "blockQueue s = []" using cinvD(1) [OF s(1)] s(2) by (simp add: sound_def opened_def)
  have "blk ?t (length (bheap s)) = g" by (rule blk_alloc(2)) simp
  then have "tree ?t" using new_block_Inr [OF g] by (simp add: tree_def)
  then have "calm ?t" using inv s q by (simp add: calm_def daemon_fits_def)
  then show ?thesis using i ex by simp
qed

lemma first_initial: "first_state initial_chain"
  using cinv_initial by (simp add: first_state_def initial_chain_def)

text \<open>Three steps of the daemon attach the block at the front of the queue.\<close>

lemma calm_round:
  assumes calm: "calm s" and lib: "lib_ok lib" and d: "daemons s = [DLoop]" and q: "blockQueue s = p # ps"
  obtains t f x where "run_events (bexec lib) (replicate 3 (Daemon 0)) s = Some (Ok (replicate 3 Steps) t)"
    and "calm t" and "daemons t = [DLoop]" and "blockQueue t = ps"
    and "om_find (blockMap t) (index_of s p) = Some p"
    and "\<And>i y. om_find (blockMap s) i = Some y \<Longrightarrow> om_find (blockMap t) i = Some y"
    and "g_sizeCounter t = g_sizeCounter s + 1"
    and "\<And>y. index_of t y = index_of s y"
    and "\<And>y. y \<in> set (attached s) \<Longrightarrow> blk t y = blk s y"
    and "om_find (blockMap s) f = Some x" and "b_next (blk t p) = Some x" and "b_fatherIndex (blk t p) = f"
    and "b_hashedData (blk t p) \<noteq> None"
    and "if b_attachToLongest (blk s p) then deepest s x else f = b_fatherIndex (blk s p)"
proof -
  let ?s1 = "set_daemon 0 DEntered s"
  have s1: "daemonFunction lib 0 s = Some (Ok () ?s1)" "calm ?s1" "daemons ?s1 = [DEntered]" "blockQueue ?s1 = p # ps"
    using calm_loop [OF calm d] q d by simp_all
  obtain f s2 where s2: "daemonFunction lib 0 ?s1 = Some (Ok () s2)" "calm s2" "daemons s2 = [DHashing p f]"
      "blockQueue s2 = ps" "blockMap s2 = blockMap s" "\<And>y. index_of s2 y = index_of s y"
      "\<And>y. y \<in> set (attached s) \<Longrightarrow> blk s2 y = blk s y"
      "b_attachToLongest (blk s p) \<Longrightarrow> \<exists>q. om_find (blockMap s) f = Some q \<and> deepest s q"
      "\<not> b_attachToLongest (blk s p) \<Longrightarrow> f = b_fatherIndex (blk s p)"
      "g_sizeCounter s2 = g_sizeCounter s"
  proof (rule calm_take [OF s1(2) lib s1(3,4)], goal_cases)
    case (1 f t)
    then show ?case by (intro that [of t f]) (simp_all add: deepest_def)
  qed
  obtain x t where t: "daemonFunction lib 0 s2 = Some (Ok () t)" "calm t" "daemons t = [DLoop]"
      "om_find (blockMap s2) f = Some x" "blockQueue t = blockQueue s2"
      "blockMap t = om_insert (index_of s2 p) p (blockMap s2)" "om_find (blockMap t) (index_of s2 p) = Some p"
      "g_sizeCounter t = g_sizeCounter s2 + 1" "\<And>y. y \<noteq> p \<Longrightarrow> blk t y = blk s2 y"
      "blk t p = settled (hash_of lib p f s2) f x (blk s2 p)"
    using calm_finish [OF s2(2,3)] by blast
  have pend: "om_find (blockMap s) (index_of s p) = None"
    using pending_not_found(1) [OF calm_sound [OF calm], of p] q by simp
  have ok: "om_ok (blockMap s)" using calm_sound [OF calm] by (simp add: sound_def)
  show thesis
  proof (rule that)
    show "run_events (bexec lib) (replicate 3 (Daemon 0)) s = Some (Ok (replicate 3 Steps) t)"
      using s1(1) s2(1) t(1) by (simp add: numeral_3_eq_3 steps_def)
    show "calm t" "daemons t = [DLoop]" by (rule t)+
    show "blockQueue t = ps" "om_find (blockMap t) (index_of s p) = Some p" using s2 t by simp_all
    show "om_find (blockMap t) i = Some y" if "om_find (blockMap s) i = Some y" for i y
      using that t(6) s2(5,6) om.find_ins [OF ok] pend by auto
    show "index_of t y = index_of s y" for y using t(9) [of y] t(10) s2(6) by (cases "y = p") (simp_all add: settled_def)
    show "blk t y = blk s y" if "y \<in> set (attached s)" for y
      using that t(9) [of y] s2(7) [of y] pending_not_found(3) [OF calm_sound [OF calm], of p] q by auto
    show "om_find (blockMap s) f = Some x" using t(4) s2(5) by simp
    show "b_next (blk t p) = Some x" "b_fatherIndex (blk t p) = f" "b_hashedData (blk t p) \<noteq> None"
      using t(10) by (simp_all add: settled_def)
    show "if b_attachToLongest (blk s p) then deepest s x else f = b_fatherIndex (blk s p)"
      using s2(5,8,9) t(4) by auto
    show "g_sizeCounter t = g_sizeCounter s + 1" using t(8) s2(10) by simp
  qed
qed

section \<open>Closing a session\<close>

text \<open>A line that the closing thread prints for a pending block.\<close>

definition printed :: "hashlib \<Rightarrow> chain \<Rightarrow> string \<times> int \<Rightarrow> bptr \<Rightarrow> bool" where
  "printed lib s x p \<longleftrightarrow>
     snd x = index_of s p \<and>
     (\<exists>f. hash_value lib (blk s p) f (fst x) \<and> (\<not> b_attachToLongest (blk s p) \<longrightarrow> f = b_fatherIndex (blk s p)))"

lemma printed_cong: "blk t p = blk s p \<Longrightarrow> printed lib t x p = printed lib s x p"
  by (simp add: printed_def)

lemma printed_numbers: "list_all2 (printed lib s) xs ps \<Longrightarrow> map snd xs = map (index_of s) ps"
  by (induction rule: list_all2_induct) (simp_all add: printed_def)

lemma drain_prints:
  assumes "sound (blockQueue s) s" and "shuffles lib"
    and "\<forall>p \<in> set (blockQueue s). om_find (blockMap s) (b_fatherIndex (blk s p)) \<noteq> None"
  shows "\<exists>t out. drain lib s = Ok () t \<and> blockQueue t = [] \<and> sound [] t \<and> same_threads s t \<and>
    stdout t = stdout s @ out \<and> list_all2 (printed lib s) out (blockQueue s) \<and>
    set (attached t) = set (attached s) \<union> set (blockQueue s)"
  using assms
proof (induction "blockQueue s" arbitrary: s)
  case Nil
  then show ?case by (simp add: drain.simps [of lib s] same_threads_def)
next
  case (Cons p ps)
  let ?s = "s\<lparr>blockQueue := ps\<rparr>"
  have q: "blockQueue s = p # ps" using Cons.hyps(2) by simp
  have snd: "sound (p # ps) s" "sound (p # ps) ?s" using Cons.prems(1) q by simp_all
  obtain f t where t: "hash_begin lib p ?s = Ok (Some f) t" "sound (p # ps) t" "same_rest ?s t"
      "blockMap t = blockMap ?s" "\<And>x. x \<noteq> p \<Longrightarrow> blk t x = blk ?s x" "\<And>x. index_of t x = index_of ?s x"
      "if b_attachToLongest (blk ?s p)
       then \<exists>q. om_find (blockMap ?s) f = Some q \<and> deepest ?s q \<and> b_depth (blk t p) = b_depth (blk ?s q) + 1
       else f = b_fatherIndex (blk ?s p) \<and> blk t p = blk ?s p" "same_content (blk ?s p) (blk t p)"
    using hash_begin_father [OF snd(2) Cons.prems(2), of thesis] by blast
  obtain x where x: "om_find (blockMap t) f = Some x"
    using t(4,7) Cons.prems(3) q by (auto split: if_splits)
  let ?u = "(attach lib p f x t)\<lparr>stdout := stdout t @ [(hash_of lib p f t, index_of t p)]\<rparr>"
  have round: "drain_round lib s = Ok () ?u" by (rule drain_round_attach [OF snd(1) q t(1,2) x])
  have uq: "blockQueue ?u = ps" and us: "same_threads s ?u"
    using t(3) by (simp_all add: attach_def same_rest_def same_threads_def)
  have a: "alive t p" and pend: "om_find (blockMap t) (index_of t p) = None"
    using pending_not_found(1,2) [OF t(2), of p] by simp_all
  have bu: "blk (attach lib p f x t) y = (if y = p then settled (hash_of lib p f t) f x (blk t p) else blk t y)" for y
    using blk_attach [OF a] by simp
  have idx: "index_of ?u y = index_of s y" for y using t(6) by (simp add: bu settled_def)
  have "distinct (map (index_of s) (attached s @ p # ps))"
    using snd(1) unfolding sound_def numbered_def by blast
  then have pps: "p \<notin> set ps" by auto
  have "om_find (blockMap ?u) i \<noteq> None" if "om_find (blockMap s) i \<noteq> None" for i
    using that t(2,4) pend by (auto simp: attach_def sound_def om.find_ins)
  moreover have "b_fatherIndex (blk ?u y) = b_fatherIndex (blk s y)" if "y \<in> set ps" for y
    using that pps t(5) [of y] by (auto simp: bu)
  ultimately have "\<forall>y \<in> set (blockQueue ?u). om_find (blockMap ?u) (b_fatherIndex (blk ?u y)) \<noteq> None"
    using Cons.prems(3) q uq by auto
  moreover have "sound (blockQueue ?u) ?u" using sound_attach [OF t(2) x] uq by simp
  ultimately obtain v out where v: "drain lib ?u = Ok () v" "blockQueue v = []" "sound [] v" "same_threads ?u v"
      "stdout v = stdout ?u @ out" "list_all2 (printed lib ?u) out ps"
      "set (attached v) = set (attached ?u) \<union> set ps"
    using Cons.hyps(1) [of ?u] uq Cons.prems(2) by auto
  have "drain lib s = Ok () v" using q round v(1) by (simp add: drain.simps [of lib s])
  moreover have "same_threads s v" using us v(4) by (simp add: same_threads_def)
  moreover have "stdout v = stdout s @ (hash_of lib p f t, index_of t p) # out" using v(5) t(3) by (simp add: same_rest_def)
  moreover have "printed lib s (hash_of lib p f t, index_of t p) p"
    using hash_of_value [of lib t p f] t(6,7) hash_value_same [OF t(8)] by (auto simp: printed_def split: if_splits)
  moreover have "blk ?u y = blk s y" if "y \<in> set ps" for y using that pps t(5) [of y] by (auto simp: bu)
  then have "list_all2 (printed lib s) out ps"
    by (intro list.rel_mono_strong [OF v(6)]) (metis printed_cong)
  moreover have "set (attached v) = set (attached s) \<union> set (blockQueue s)"
    using v(7) attached_attach(2) [OF t(2), of lib f x] t(4) q by auto
  ultimately show ?case using v(2,3) q by (intro exI [of _ v] exI [of _ "(hash_of lib p f t, index_of t p) # out"]) simp
qed

lemma calm_close:
  assumes calm: "calm s" and lib: "lib_ok lib" and free: "\<not> queueMutex s"
  obtains t where
    "closeChainThread lib (s\<lparr>currentlyBlocked := True, draws := n, closers := Suc (closers s)\<rparr>) = Some (Ok () t)"
    and "\<exists>out. stdout t = stdout s @ out \<and> list_all2 (printed lib s) out (blockQueue s)"
    and "\<forall>p \<in> set (attached s @ blockQueue s). \<not> alive t p"
    and "cinv t" and "\<not> isInitiated t" and "\<not> currentlyBlocked t" and "\<not> s_mutex t"
    and "closers t = closers s" and "daemons t = daemons s" and "g_sizeCounter t = 0"
proof -
  let ?s = "s\<lparr>currentlyBlocked := True, draws := n, closers := Suc (closers s)\<rparr>"
  have inv: "cinv ?s" using calm by (simp add: calm_def)
  have h: "hashing s = []" using calm free by (simp add: calm_def cinv_def)
  have snd: "sound (blockQueue ?s) ?s" using calm_sound [OF calm] h by simp
  have shuf: "shuffles lib" using lib by (simp add: lib_ok_def)
  have "\<forall>p \<in> set (blockQueue ?s). om_find (blockMap ?s) (b_fatherIndex (blk ?s p)) \<noteq> None"
    using calm by (auto simp: calm_def fits_def)
  then obtain u out where u: "drain lib ?s = Ok () u" "sound [] u"
      "stdout u = stdout s @ out" "list_all2 (printed lib ?s) out (blockQueue s)"
      "set (attached u) = set (attached s) \<union> set (blockQueue s)"
    using drain_prints [OF snd shuf] by auto
  have al: "\<forall>p \<in> set (attached u). alive u p" using u(2) by (simp add: sound_def)
  obtain hp where hp: "delete_all (attached u) u = Ok () (u\<lparr>bheap := hp\<rparr>)"
      "\<forall>p \<in> set (attached u). \<not> alive (u\<lparr>bheap := hp\<rparr>) p"
    using delete_all_frees [OF attached_distinct [OF u(2)] al] by blast
  let ?t = "u\<lparr>bheap := hp, blockMap := [], vecIndex := [], g_sizeCounter := 0,
      currentlyBlocked := False, isInitiated := False, s_mutex := False, closers := closers u - 1\<rparr>"
  have c: "closeChainThread lib ?s = Some (Ok () ?t)" using u(1) hp(1) free by (simp add: closeChainThread_def)
  note ok = close_thread_ok [OF inv shuf c]
  show thesis
  proof (rule that [OF c])
    have "list_all2 (printed lib s) out (blockQueue s)"
      using u(4) by (elim list_all2_mono) (simp add: printed_def)
    then show "\<exists>out. stdout ?t = stdout s @ out \<and> list_all2 (printed lib s) out (blockQueue s)" using u(3) by simp
    have "set (attached s @ blockQueue s) = set (attached u)" by (simp only: set_append u(5))
    moreover have "alive ?t = alive (u\<lparr>bheap := hp\<rparr>)" by (simp add: fun_eq_iff alive_def)
    ultimately show "\<forall>p \<in> set (attached s @ blockQueue s). \<not> alive ?t p" using hp(2) by (simp only:)
  qed (use ok in simp_all)
qed

end
