(* ===== verification/Blockchain_Live.thy ===== *)
theory Blockchain_Live
  imports Blockchain_Session
begin

text \<open>
  What the daemon achieves in a session when it is left alone: \<open>work\<close> steps empty the queue, and every
  pending block is attached then, with the hash of its data (\<open>progressed\<close>).
\<close>

section \<open>Progress\<close>

abbreviation pendings :: "chain \<Rightarrow> bptr list" where
  "pendings s \<equiv> blockQueue s @ hashing s"

definition attached_as :: "hashlib \<Rightarrow> chain \<Rightarrow> chain \<Rightarrow> bptr \<Rightarrow> bool" where
  "attached_as lib s t p \<longleftrightarrow>
     om_find (blockMap t) (index_of s p) = Some p \<and> hashed_as lib (blk s p) (blk t p)"

definition progressed :: "hashlib \<Rightarrow> chain \<Rightarrow> chain \<Rightarrow> bool" where
  "progressed lib s t \<longleftrightarrow>
     calm t \<and>
     (\<forall>i y. om_find (blockMap s) i = Some y \<longrightarrow> om_find (blockMap t) i = Some y \<and> blk t y = blk s y) \<and>
     g_sizeCounter t + int (length (pendings t)) = g_sizeCounter s + int (length (pendings s)) \<and>
     (\<forall>p \<in> set (pendings s).
        p \<in> set (pendings t) \<and> same_content (blk s p) (blk t p) \<or> attached_as lib s t p)"

lemma progressed_refl: "calm s \<Longrightarrow> progressed lib s s"
  by (simp add: progressed_def)

lemma progressed_trans:
  assumes "progressed lib s t" and "progressed lib t u"
  shows "progressed lib s u"
proof -
  have "attached_as lib s u p" if p: "attached_as lib s t p" for p
  proof -
    have "om_find (blockMap u) (index_of s p) = Some p \<and> blk u p = blk t p"
      using p assms(2) unfolding attached_as_def progressed_def by blast
    then show ?thesis using p by (simp add: attached_as_def)
  qed
  moreover have "p \<in> set (pendings u) \<and> same_content (blk s p) (blk u p) \<or> attached_as lib s u p"
    if p: "p \<in> set (pendings t)" "same_content (blk s p) (blk t p)" for p
  proof -
    have "same_content (blk s p) (blk u p)" if "same_content (blk t p) (blk u p)"
      using that p(2) by (simp add: same_content_def)
    moreover have "attached_as lib s u p" if "attached_as lib t u p"
      using that hashed_as_same [OF p(2)] p(2) by (simp add: attached_as_def same_content_def)
    ultimately show ?thesis using p(1) assms(2) by (auto simp: progressed_def)
  qed
  ultimately show ?thesis using assms unfolding progressed_def by (metis (no_types, lifting))
qed

text \<open>The steps that are left: three for a block in the queue.\<close>

definition work :: "chain \<Rightarrow> nat" where
  "work s =
     (case daemons s of
        [DEntered] \<Rightarrow> 3 * length (blockQueue s) - 1
      | [DHashing p f] \<Rightarrow> 3 * length (blockQueue s) + 1
      | _ \<Rightarrow> 3 * length (blockQueue s))"

lemma work_bound: "work s \<le> 3 * length (blockQueue s) + 1"
  by (auto simp: work_def split: list.split daemon.split)

lemma progress_step:
  assumes calm: "calm s" and lib: "lib_ok lib" and more: "work s \<noteq> 0"
  shows "\<exists>t. daemonFunction lib 0 s = Some (Ok () t) \<and> progressed lib s t \<and> work s = Suc (work t)"
proof -
  obtain d where d: "daemons s = [d]" "daemon_fits s d" using calm by (auto simp: calm_def)
  show ?thesis
  proof (cases d)
    case DLoop
    then have ne: "blockQueue s \<noteq> []" using more d(1) by (auto simp: work_def)
    let ?t = "set_daemon 0 DEntered s"
    note loop = calm_loop [OF calm d(1) [unfolded DLoop]]
    have "daemonFunction lib 0 s = Some (Ok () ?t)" "calm ?t" using loop(1) [of lib] loop(2) ne by simp_all
    moreover have "daemons ?t = [DEntered]" using d(1) by simp
    moreover have "hashing ?t = hashing s" using d(1) DLoop by (simp add: hashing_def)
    moreover have "0 < length (blockQueue s)" using ne by simp
    ultimately show ?thesis using d(1) DLoop by (auto simp: progressed_def work_def)
  next
    case DEntered
    then obtain p ps where q: "blockQueue s = p # ps"
      using d(2) by (cases "blockQueue s") (auto simp: daemon_fits_def)
    show ?thesis
    proof (rule calm_take [OF calm lib d(1) [unfolded DEntered] q], goal_cases)
      case (1 f t)
      have h: "hashing t = [p]" "hashing s = []" using 1(3) d(1) DEntered by (simp_all add: hashing_def)
      have "p' \<in> set (pendings t) \<and> same_content (blk s p') (blk t p')" if "p' \<in> set (pendings s)" for p'
        using that q h 1(4,11,14) by auto
      moreover have "blk t y = blk s y" if "om_find (blockMap s) i = Some y" for i y
        using 1(8) attached_find(1) [OF calm_sound [OF calm] that] by blast
      ultimately have "progressed lib s t" using 1(2,4,5,6) h q by (simp add: progressed_def)
      moreover have "work s = Suc (work t)" using 1(3,4) d(1) DEntered q by (simp add: work_def)
      ultimately show ?case using 1(1) by blast
    qed
  next
    case (DHashing p f)
    have p: "p \<in> set (pendings s)" and h: "hashing s = [p]" using d(1) DHashing by (simp_all add: hashing_def)
    note pend = pending_not_found [OF calm_sound [OF calm] p]
    have ok: "om_ok (blockMap s)" using calm_sound [OF calm] by (simp add: sound_def)
    show ?thesis
    proof (rule calm_finish [where lib = lib, OF calm d(1) [unfolded DHashing]], goal_cases)
      case (1 q t)
      have ht: "hashing t = []" using 1(3) by (simp add: hashing_def)
      have "attached_as lib s t p" using 1(7,10) settled_hashed by (simp add: attached_as_def)
      moreover have "p' \<in> set (pendings t) \<and> same_content (blk s p') (blk t p')" if "p' \<in> set (pendings s)" "p' \<noteq> p" for p'
        using that h ht 1(5,9) by auto
      moreover have "om_find (blockMap t) i = Some y \<and> blk t y = blk s y" if y: "om_find (blockMap s) i = Some y" for i y
      proof -
        have "y \<noteq> p" using attached_find(1) [OF calm_sound [OF calm] y] pend(3) by blast
        then show ?thesis using y 1(6,9) om.find_ins_new [OF ok pend(1)] pend(1) by auto
      qed
      ultimately have "progressed lib s t" using 1(2,5,8) h ht by (auto simp: progressed_def)
      moreover have "work s = Suc (work t)" using 1(3,5) d(1) DHashing by (simp add: work_def)
      ultimately show ?case using 1(1) by blast
    qed
  next
    case DExited
    then show ?thesis using d(2) by (simp add: daemon_fits_def)
  qed
qed

lemma work_done:
  assumes calm: "calm s" and "work s = 0"
  shows "blockQueue s = []" "hashing s = []" "daemons s = [DLoop]"
proof -
  obtain d where d: "daemons s = [d]" "daemon_fits s d" using calm by (auto simp: calm_def)
  have "d = DLoop" using d assms(2) by (cases d) (auto simp: work_def daemon_fits_def neq_Nil_conv)
  then show "blockQueue s = []" "hashing s = []" "daemons s = [DLoop]"
    using d(1) assms(2) by (simp_all add: work_def hashing_def)
qed

lemma daemon_progress:
  assumes "calm s" and lib: "lib_ok lib"
  shows "\<exists>cs t. run_events (bexec lib) (replicate (work s) (Daemon 0)) s = Some (Ok cs t) \<and>
    progressed lib s t \<and> work t = 0"
  using assms(1)
proof (induction "work s" arbitrary: s)
  case 0
  then show ?case using progressed_refl by simp
next
  case (Suc n)
  obtain t where t: "daemonFunction lib 0 s = Some (Ok () t)" "progressed lib s t" "work s = Suc (work t)"
    using progress_step [OF Suc.prems lib] Suc.hyps(2) by auto
  then have n: "n = work t" using Suc.hyps(2) by simp
  have "calm t" using t(2) by (simp add: progressed_def)
  then obtain cs u where u: "run_events (bexec lib) (replicate (work t) (Daemon 0)) t = Some (Ok cs u)"
      "progressed lib t u" "work u = 0" using Suc.hyps(1) [OF n] by blast
  have "run_events (bexec lib) (replicate (work s) (Daemon 0)) s = Some (Ok (Steps # cs) u)"
    using t(1,3) u(1) by (simp add: steps_def)
  then show ?case using progressed_trans [OF t(2) u(2)] u(3) by blast
qed

end
