(* ===== verification/Blockchain_Props.thy ===== *)
theory Blockchain_Props
  imports Blockchain_Live
begin

text \<open>
  The properties of the blockchain database. \<open>demo_lib\<close> is a library that keeps its promises,
  with a shuffle that reverses its list on the sixth draw and leaves it alone otherwise;
  \<open>bafter\<close> gives the state at the end of a list of events.
\<close>

definition demo_lib :: hashlib where
  "demo_lib = \<lparr>generate_nonce = (\<lambda>n i f. i + f), generate_hash = (\<lambda>d l n. ''h''),
     random_shuffle = (\<lambda>n xs. if n = 6 then rev xs else xs), create_ret = (\<lambda>n. 0), past_vec = (\<lambda>v. - 1),
     past_map = (\<lambda>n. (int n, None))\<rparr>"

definition bafter :: "bevent list \<Rightarrow> chain" where
  "bafter es = (case run_events (bexec demo_lib) es initial_chain of
     Some (Ok cs t) \<Rightarrow> t | _ \<Rightarrow> initial_chain)"

lemmas chain_eval = bafter_def initial_chain_def demo_lib_def init_blockchain_def add_block_def
  to_longest_def attach_now_def attach_poll_def was_added_def chain_size_def close_chain_def
  return_on_close_def returns_def steps_def new_block_def findMinIdx_def findFather_def map_at_def
  deref_def upd_block_def delete_block_def existBlock_def popBlock_def take_front_def hash_begin_def
  hash_finish_def addAndHash_def drain_round_def closeChainThread_def daemonFunction_def
  set_daemon_def drain.simps block_setters prune_chain_def sweep_def Let_def

lemma demo_lib_ok: "lib_ok demo_lib"
  by (simp add: lib_ok_def shuffles_def foreign_end_def demo_lib_def)

lemma breachable_run:
  "breachable lib s \<Longrightarrow> run_events (bexec lib) es s = Some (Ok cs t) \<Longrightarrow> breachable lib t"
proof (induction es arbitrary: s cs)
  case (Cons e es)
  from Cons.prems(2) obtain c u cs' where "bexec lib e s = Some (Ok c u)"
    and "run_events (bexec lib) es u = Some (Ok cs' t)"
    by (auto split: option.splits outcome.splits)
  with Cons.IH Cons.prems(1) breachable.step show ?case by blast
qed simp

lemma bafter_reachable: "breachable demo_lib (bafter es)"
  using breachable_run [OF breachable.initial, of demo_lib es] breachable.initial
  by (auto simp: bafter_def split: option.split outcome.split)

lemma run_calm:
  assumes "create_ret lib 1 = 0" and "lib_ok lib" and "list_all session_event es"
    and "run_events (bexec lib) (Init # es) initial_chain = Some (Ok cs t)"
  shows "calm t"
proof -
  obtain u where u: "init_blockchain lib initial_chain = Some (Ok SUCCESS u)"
    using init_ok [OF cinv_initial, of lib] assms(1) by (auto simp: initial_chain_def)
  then have "calm u" by (rule init_calm [OF first_initial])
  moreover obtain cs' where "run_events (bexec lib) es u = Some (Ok cs' t)"
    using assms(4) u by (auto simp: returns_def split: option.splits outcome.splits)
  ultimately show ?thesis using session.run_invar [where s = u and lib = lib] assms(2,3) by auto
qed

section \<open>Safety\<close>

text \<open>
  C16: Whatever calls and thread steps happened, with pruning and closing in any order: no two
  blocks that are attached, queued or being hashed have the same number; each of them is still
  allocated; the map finds every attached block under its own number; and as long as the chain
  is open the genesis block is in it.
\<close>

theorem block_numbers_unique:
  assumes "breachable lib s" and "lib_ok lib"
  shows "distinct (map (index_of s) (attached s @ blockQueue s @ hashing s)) \<and>
    (\<forall>p \<in> set (attached s @ blockQueue s @ hashing s). alive s p \<and> index_of s p \<in> set (vecIndex s)) \<and>
    (\<forall>p \<in> set (attached s). om_find (blockMap s) (index_of s p) = Some p) \<and>
    (isInitiated s \<longrightarrow> om_find (blockMap s) 0 \<noteq> None) \<and> length (hashing s) \<le> 1"
proof -
  have inv: "cinv s" by (rule breachable_cinv [OF assms])
  note snd = cinvD(1) [OF inv]
  have "distinct (map (index_of s) (attached s @ blockQueue s @ hashing s))"
      "index_of s ` set (attached s @ blockQueue s @ hashing s) \<subseteq> set (vecIndex s)"
    using snd unfolding sound_def numbered_def by blast+
  moreover have "\<forall>p \<in> set (attached s @ blockQueue s @ hashing s). alive s p"
    using snd unfolding sound_def by blast
  moreover have "isInitiated s \<longrightarrow> om_find (blockMap s) 0 \<noteq> None"
    using snd by (simp add: sound_def opened_def)
  moreover have "length (hashing s) \<le> 1" using inv by (simp add: cinv_def)
  ultimately show ?thesis using find_attached [OF snd] by blast
qed

theorem block_numbers_unique_witness:
  "let s = bafter [Init, AddBlock (Some ''a'') 1, AddBlock None 0, Daemon 0, Daemon 0, PruneChain]
   in distinct (map (index_of s) (attached s @ blockQueue s @ hashing s))"
  unfolding Let_def using block_numbers_unique [OF bafter_reachable demo_lib_ok] by blast

text \<open>\<open>printChain\<close> shows exactly the attached blocks other than the genesis block.\<close>

lemma print_from_alive:
  "\<forall>x \<in> set m. alive s (snd x) \<and> index_of s (snd x) = fst x \<Longrightarrow>
   print_from m s = Ok (map (\<lambda>(k, p). (k, b_fatherIndex (blk s p))) (filter (\<lambda>x. fst x \<noteq> 0) m)) s"
  by (induction m s rule: print_from.induct) (simp_all add: getIndex_def getFatherIndex_def)

lemma printChain_attached:
  assumes "breachable lib s" and "lib_ok lib"
  shows "printChain s =
    Ok (map (\<lambda>(k, p). (k, b_fatherIndex (blk s p))) (filter (\<lambda>x. fst x \<noteq> 0) (blockMap s))) s"
  unfolding printChain_def
proof (rule print_from_alive)
  have "sound (pending s) s" using breachable_cinv [OF assms] by (simp add: cinv_def)
  then show "\<forall>x \<in> set (blockMap s). alive s (snd x) \<and> index_of s (snd x) = fst x"
    by (auto simp: sound_def numbered_def)
qed

text \<open>
  The numbers of the blocks that are attached, queued or being hashed. \<open>vecIndex\<close> holds them all,
  and after pruning it may hold more: the numbers of blocks that are gone (\<open>lost\<close>).
\<close>

definition in_use :: "chain \<Rightarrow> int set" where
  "in_use s = index_of s ` set (attached s @ blockQueue s @ hashing s)"

definition lost :: "chain \<Rightarrow> int set" where
  "lost s = set (vecIndex s) - in_use s"

text \<open>
  C17: \<open>add_block\<close> on an open chain returns the lowest positive number that is neither in use
  nor lost: as long as no number is lost, the lowest free number. It appends to the queue a block
  with that number, a copy of the first \<open>length\<close> bytes of the data, and one of the deepest attached
  blocks as father; the map is not changed, and no number gets lost.
\<close>

theorem add_block_lowest:
  assumes "breachable lib s" and "lib_ok lib" and "isInitiated s" and "\<not> currentlyBlocked s"
    and "0 \<le> len" and "len \<le> int (length d)"
  shows "\<exists>t v p q. add_block lib (Some d) len s = Ok v t \<and>
    0 < v \<and> v \<notin> in_use s \<union> lost s \<and> {0..<v} \<subseteq> in_use s \<union> lost s \<and>
    in_use t = insert v (in_use s) \<and> lost t = lost s \<and>
    blockQueue t = blockQueue s @ [p] \<and> blockMap t = blockMap s \<and>
    b_index (blk t p) = v \<and> b_data (blk t p) = Some (take (nat len) d) \<and>
    deepest s q \<and> b_fatherIndex (blk t p) = index_of s q \<and> b_depth (blk t p) = b_depth (blk s q) + 1"
proof -
  have inv: "cinv s" by (rule breachable_cinv [OF assms(1,2)])
  have shuf: "shuffles lib" using assms(2) by (simp add: lib_ok_def)
  note snd = cinvD(1) [OF inv]
  note ok = sound_numbers_ok [OF snd]
  obtain f q where f: "findFather lib (snd (findMinIdx s)) = Ok f (snd (findMinIdx s)\<lparr>draws := draws s + 1\<rparr>)"
      "om_find (blockMap s) f = Some q" "deepest s q"
    using add_block_father [OF inv shuf assms(3)] by blast
  obtain nb where nb: "new_block (Some d) (fst (findMinIdx s)) f (b_depth (blk s q) + 1) len = Inr nb"
    using new_block_fits [where data = "Some d" and len = len] assms(5,6) by fastforce
  note add = add_block_ok(1) [OF inv shuf assms(3,4) nb f(1,2)] and b = new_block_Inr [OF nb]
  let ?t = "s\<lparr>bheap := bheap s @ [Some nb], vecIndex := sort (vecIndex s) @ [fst (findMinIdx s)],
      blockQueue := blockQueue s @ [length (bheap s)], draws := draws s + 1\<rparr>"
  have new: "blk ?t (length (bheap s)) = nb" by (rule blk_alloc(2)) simp
  have old: "blk ?t x = blk s x" if "x \<in> set (attached s @ blockQueue s @ hashing s)" for x
    using snd that by (intro blk_alloc(1)) (auto simp: sound_def)
  have use: "in_use ?t = insert (fst (findMinIdx s)) (in_use s)"
    using old new new_block_Inr(1) [OF nb] by (auto simp: in_use_def)
  have "in_use s \<subseteq> set (vecIndex s)" using snd unfolding sound_def numbered_def in_use_def by blast
  then have all: "in_use s \<union> lost s = set (vecIndex s)" by (auto simp: lost_def)
  have fresh: "fst (findMinIdx s) \<notin> set (vecIndex s)" by (rule nums.next_fresh [OF ok])
  have lost: "lost ?t = lost s" using use fresh by (auto simp: lost_def)
  have "om_find (blockMap s) 0 \<noteq> None" using snd assms(3) by (simp add: sound_def opened_def)
  then have "0 \<in> set (vecIndex s)" using attached_find(4) [OF snd] by blast
  then have "0 < fst (findMinIdx s)"
    using fresh nums.next_nonneg [OF ok] by (metis order.order_iff_strict)
  then show ?thesis
    using add use lost fresh new_block_Inr [OF nb] new f(3) attached_find(2) [OF snd f(2)] nums.next_least [OF ok]
    unfolding all
    by (intro exI [of _ ?t] exI [of _ "fst (findMinIdx s)"] exI [of _ "length (bheap s)"] exI [of _ q]) auto
qed

theorem add_block_lowest_witness:
  "\<exists>t v. add_block demo_lib (Some ''xyz'') 2 (bafter [Init, AddBlock None 0]) = Ok v t \<and>
     0 < v \<and> v \<notin> in_use (bafter [Init, AddBlock None 0])"
proof -
  let ?s = "bafter [Init, AddBlock None 0]"
  have s: "isInitiated ?s" "\<not> currentlyBlocked ?s" by (simp_all add: chain_eval)
  show ?thesis using add_block_lowest [OF bafter_reachable demo_lib_ok s, of 2 "''xyz''"] by auto
qed

text \<open>
  Numbers get lost by pruning: the loop over \<open>vecIndex\<close> stops one element early after an \<open>erase\<close>, and
  the number of a block that the daemon deletes is never erased.
\<close>

lemma pruning_loses_number:
  "let s = bafter ([Init, AddBlock None 0, AddBlock None 0, AddBlock None 0] @ replicate 9 (Daemon 0) @ [PruneChain])
   in vecIndex s = [0, 1, 3] \<and> in_use s = {0, 1}"
  by (simp add: chain_eval mark_longest.simps in_use_def hashing_def blk_def eval_nat_numeral)

lemma dropping_loses_number:
  "let s = bafter ([Init, AddBlock None 0, AddBlock None 0] @ replicate 6 (Daemon 0) @
     [AddBlock None 0, Daemon 0, Daemon 0, PruneChain, Daemon 0])
   in 3 \<in> lost s"
  by (simp add: chain_eval mark_longest.simps lost_def in_use_def hashing_def blk_def eval_nat_numeral)

text \<open>
  C21: In a session the blocks form a tree: following \<open>_next\<close> from an attached block leads to its
  father, which is attached and one less deep, up to the genesis block at depth 0; and
  \<open>chain_size\<close> is the number of attached blocks without the genesis block.
\<close>

theorem session_tree:
  assumes "create_ret lib 1 = 0" and "lib_ok lib" and "list_all session_event es"
    and "run_events (bexec lib) (Init # es) initial_chain = Some (Ok cs t)"
  shows "chain_size t = int (card (set (attached t))) - 1 \<and>
    (\<forall>p \<in> set (attached t). index_of t p \<noteq> 0 \<longrightarrow> (\<exists>q \<in> set (attached t). b_next (blk t p) = Some q \<and>
       b_fatherIndex (blk t p) = index_of t q \<and> b_depth (blk t p) = b_depth (blk t q) + 1)) \<and>
    (\<forall>p \<in> set (attached t). index_of t p = 0 \<longrightarrow> b_next (blk t p) = None \<and> b_depth (blk t p) = 0)"
proof -
  have calm: "calm t" by (rule run_calm [OF assms])
  note snd = calm_sound [OF calm]
  obtain rank where w: "woven rank t" using sound_woven [OF snd] by blast
  have "card (set (attached t)) = length (blockMap t)"
    using distinct_card [OF attached_distinct [OF snd]] by simp
  then have "chain_size t = int (card (set (attached t))) - 1" using calm by (simp add: chain_size_def calm_def)
  moreover have "\<exists>q \<in> set (attached t). b_next (blk t p) = Some q \<and>
       b_fatherIndex (blk t p) = index_of t q \<and> b_depth (blk t p) = b_depth (blk t q) + 1"
    if p: "p \<in> set (attached t)" "index_of t p \<noteq> 0" for p
  proof -
    obtain q where q: "b_next (blk t p) = Some q" using woven_next(3) [OF w p(1)] p(2) by auto
    then have "q \<in> set (attached t)" using woven_next(4) [OF w p(1)] by simp
    then show ?thesis using q calm p(1) by (auto simp: calm_def tree_def)
  qed
  moreover have "b_next (blk t p) = None \<and> b_depth (blk t p) = 0"
    if p: "p \<in> set (attached t)" "index_of t p = 0" for p
    using woven_next(3) [OF w p(1)] p calm by (auto simp: calm_def tree_def)
  ultimately show ?thesis by blast
qed

theorem session_tree_witness:
  "\<exists>t. run_events (bexec demo_lib) [Init, AddBlock None 0, Daemon 0, Daemon 0, Daemon 0] initial_chain
      = Some (Ok [Returns 0, Returns 1, Steps, Steps, Steps] t) \<and>
     chain_size t = int (card (set (attached t))) - 1"
proof -
  obtain t where t: "run_events (bexec demo_lib) [Init, AddBlock None 0, Daemon 0, Daemon 0, Daemon 0]
      initial_chain = Some (Ok [Returns 0, Returns 1, Steps, Steps, Steps] t)"
    by (simp add: chain_eval)
  then show ?thesis using session_tree [OF _ demo_lib_ok _ t] by (auto simp: demo_lib_def)
qed

section \<open>Attaching\<close>

text \<open>
  C22: The daemon attaches every pending block of a session: at any point after \<open>init_blockchain\<close>, as
  long as the chain was neither pruned nor closed, at most three of its steps per queued block and
  one more empty the queue. Each block that was queued or being hashed is then in the map under its
  number, with the hash of its data for a nonce of its number and father, and is counted.
\<close>

theorem daemon_attaches_queue:
  assumes "create_ret lib 1 = 0" and "lib_ok lib" and "list_all session_event es"
    and "run_events (bexec lib) (Init # es) initial_chain = Some (Ok cs s)"
  shows "\<exists>k ds t. k \<le> 3 * length (blockQueue s) + 1 \<and>
    run_events (bexec lib) (replicate k (Daemon 0)) s = Some (Ok ds t) \<and>
    blockQueue t = [] \<and> hashing t = [] \<and>
    chain_size t = chain_size s + int (length (blockQueue s @ hashing s)) \<and>
    (\<forall>p \<in> set (blockQueue s @ hashing s). om_find (blockMap t) (index_of s p) = Some p \<and>
       (\<exists>n. b_hashedData (blk t p) = Some (generate_hash lib (b_data (blk s p)) (b_lenData (blk s p))
          (generate_nonce lib n (index_of s p) (b_fatherIndex (blk t p))))))"
proof -
  have calm: "calm s" by (rule run_calm [OF assms])
  obtain ds t where t: "run_events (bexec lib) (replicate (work s) (Daemon 0)) s = Some (Ok ds t)"
      "progressed lib s t" "work t = 0" using daemon_progress [OF calm assms(2)] by blast
  have ct: "calm t" using t(2) by (simp add: progressed_def)
  note idle = work_done [OF ct t(3)]
  have "isInitiated s" "isInitiated t" using calm ct by (simp_all add: calm_def)
  then have "chain_size t = chain_size s + int (length (pendings s))"
    using t(2) idle by (simp add: chain_size_def progressed_def)
  moreover have "attached_as lib s t p" if "p \<in> set (pendings s)" for p
    using t(2) that idle unfolding progressed_def by auto
  ultimately show ?thesis using t(1) idle(1,2) work_bound [of s]
    by (intro exI [of _ "work s"] exI [of _ ds] exI [of _ t])
      (auto simp: attached_as_def hashed_as_def hash_value_def)
qed

lemma demo_calm:
  assumes "list_all session_event es"
    and "run_events (bexec demo_lib) (Init # es) initial_chain = Some (Ok cs t)"
  shows "calm (bafter (Init # es))"
  using run_calm [OF _ demo_lib_ok assms] assms(2) by (simp add: bafter_def demo_lib_def)

lemma two_queued:
  shows "calm (bafter [Init, AddBlock (Some ''ab'') 2, AddBlock None 0])"
    and "daemons (bafter [Init, AddBlock (Some ''ab'') 2, AddBlock None 0]) = [DLoop]"
    and "blockQueue (bafter [Init, AddBlock (Some ''ab'') 2, AddBlock None 0]) = [1, 2]"
proof -
  let ?es = "[AddBlock (Some ''ab'') 2, AddBlock None 0]"
  obtain cs t where "run_events (bexec demo_lib) (Init # ?es) initial_chain = Some (Ok cs t)"
    by (simp add: chain_eval)
  then show "calm (bafter [Init, AddBlock (Some ''ab'') 2, AddBlock None 0])"
    by (intro demo_calm) simp_all
qed (simp_all add: chain_eval)

theorem daemon_attaches_queue_witness:
  "\<exists>cs s. run_events (bexec demo_lib) [Init, AddBlock (Some ''ab'') 2, AddBlock None 0, Daemon 0, Daemon 0] initial_chain
       = Some (Ok cs s) \<and>
     (\<exists>k ds t. run_events (bexec demo_lib) (replicate k (Daemon 0)) s = Some (Ok ds t) \<and> blockQueue t = [] \<and>
        chain_size t = chain_size s + 2)"
proof -
  let ?es = "[AddBlock (Some ''ab'') 2, AddBlock None 0, Daemon 0, Daemon 0]"
  obtain cs s where s: "run_events (bexec demo_lib) (Init # ?es) initial_chain = Some (Ok cs s)"
      "length (blockQueue s @ hashing s) = 2"
    by (simp add: chain_eval hashing_def)
  have "create_ret demo_lib 1 = 0" "list_all session_event ?es" by (simp_all add: demo_lib_def)
  then show ?thesis using daemon_attaches_queue [OF _ demo_lib_ok _ s(1)] s by fastforce
qed

text \<open>
  \<open>attach_now\<close> takes a queued block before all others: with the daemon at the top of its loop,
  the call waits, the next round of the daemon attaches this block, and the waiting call then
  returns success; the other queued blocks keep their order.
\<close>

lemma attach_now_first:
  assumes "calm s" and "lib_ok lib" and "daemons s = [DLoop]" and "p \<in> set (blockQueue s)"
    and "isInDaemon s \<noteq> index_of s p"
  shows "\<exists>t. run_events (bexec lib)
      ([AttachNow (index_of s p)] @ replicate 3 (Daemon 0) @ [AttachPoll (index_of s p)]) s
      = Some (Ok ([Waits (index_of s p)] @ replicate 3 Steps @ [Returns SUCCESS]) t) \<and>
    om_find (blockMap t) (index_of s p) = Some p \<and> blockQueue t = remove1 p (blockQueue s)"
proof -
  have inv: "cinv s" and op: "\<not> currentlyBlocked s" using assms(1) by (simp_all add: calm_def)
  let ?u = "s\<lparr>blockQueue := p # remove1 p (blockQueue s)\<rparr>"
  have now: "attach_now (index_of s p) s = Ok (Waits (index_of s p)) ?u"
    by (rule attach_now_queued(1) [OF inv assms(4) refl op assms(5)])
  obtain v u where "attach_now (index_of s p) s = Ok v u" "calm u" by (rule calm_attach_now [OF assms(1)])
  then have calm: "calm ?u" using now by simp
  have d: "daemons ?u = [DLoop]" "blockQueue ?u = p # remove1 p (blockQueue s)" using assms(3) by simp_all
  obtain t where t: "run_events (bexec lib) (replicate 3 (Daemon 0)) ?u = Some (Ok (replicate 3 Steps) t)"
      "blockQueue t = remove1 p (blockQueue s)" "om_find (blockMap t) (index_of ?u p) = Some p"
  proof (rule calm_round [OF calm assms(2) d], goal_cases)
    case (1 t f x)
    then show ?case by (intro that [of t]) simp_all
  qed
  have first: "run_events (bexec lib) [AttachNow (index_of s p)] s = Some (Ok [Waits (index_of s p)] ?u)"
    using now by simp
  have last: "run_events (bexec lib) [AttachPoll (index_of s p)] t = Some (Ok [Returns SUCCESS] t)"
    using t(3) by (simp add: attach_poll_def)
  show ?thesis using run_events_append [OF first run_events_append [OF t(1) last]] t(2,3) by auto
qed

lemma attach_now_first_example:
  "let s = bafter [Init, AddBlock (Some ''ab'') 2, AddBlock None 0] in
   \<exists>t. run_events (bexec demo_lib) [AttachNow 2, Daemon 0, Daemon 0, Daemon 0, AttachPoll 2] s
      = Some (Ok [Waits 2, Steps, Steps, Steps, Returns 0] t) \<and> blockQueue t = [1]"
proof -
  let ?s = "bafter [Init, AddBlock (Some ''ab'') 2, AddBlock None 0]"
  have s: "2 \<in> set (blockQueue ?s)" "isInDaemon ?s \<noteq> index_of ?s 2" "index_of ?s 2 = 2"
    by (simp_all add: chain_eval blk_def)
  show ?thesis unfolding Let_def
    using attach_now_first [OF two_queued(1) demo_lib_ok two_queued(2) s(1,2)] s(3) two_queued(3)
    by (auto simp: numeral_3_eq_3)
qed

text \<open>
  \<open>to_longest\<close> defers the choice of the father to the time of attachment: when the block is
  taken, its father is one of the blocks that are deepest then, and the block is one deeper.
\<close>

lemma to_longest_at_attachment:
  assumes "calm s" and "lib_ok lib" and "daemons s = [DLoop]" and "blockQueue s = p # ps"
  shows "\<exists>t q. run_events (bexec lib) (ToLongest (index_of s p) # replicate 3 (Daemon 0)) s
      = Some (Ok (Returns SUCCESS # replicate 3 Steps) t) \<and>
    om_find (blockMap t) (index_of s p) = Some p \<and> deepest s q \<and> b_next (blk t p) = Some q \<and>
    b_fatherIndex (blk t p) = index_of s q \<and> b_depth (blk t p) = b_depth (blk s q) + 1"
proof -
  have inv: "cinv s" using assms(1) by (simp add: calm_def)
  let ?u = "set_blk (setAttachToLongest True) p s"
  have p: "p \<in> set (blockQueue s)" using assms(4) by simp
  note call = to_longest_queued(1) [OF inv p refl]
  have calm: "calm ?u" by (rule calm_to_longest [OF assms(1) call])
  have a: "alive s p" using queue_alive(1) [OF inv] p by simp
  have d: "daemons ?u = [DLoop]" "blockQueue ?u = p # ps" using assms(3,4) by simp_all
  have flag: "b_attachToLongest (blk ?u p)" using a by (simp add: blk_set_blk block_setters)
  obtain t f x where t: "run_events (bexec lib) (replicate 3 (Daemon 0)) ?u = Some (Ok (replicate 3 Steps) t)"
      "calm t" "om_find (blockMap t) (index_of ?u p) = Some p" "b_next (blk t p) = Some x"
      "b_fatherIndex (blk t p) = f" "om_find (blockMap ?u) f = Some x" "deepest ?u x"
      "\<And>y. y \<in> set (attached ?u) \<Longrightarrow> blk t y = blk ?u y"
  proof (rule calm_round [OF calm assms(2) d], goal_cases)
    case (1 t f x)
    then show ?case using flag by (intro that [of t x f]) simp_all
  qed
  have same: "index_of ?u y = index_of s y" "b_depth (blk ?u y) = b_depth (blk s y)" for y
    by (rule blk_set_blk_field, simp add: block_setters)+
  have "deepest s x" using t(7) same by (simp add: deepest_def)
  moreover have "index_of s x = f" using attached_find(2) [OF cinvD(1) [OF inv]] t(6) by simp
  moreover have "b_depth (blk t p) = b_depth (blk s x) + 1"
  proof -
    have "p \<in> set (attached t)" using om_find_in [OF t(3)] by force
    then have "b_depth (blk t p) = b_depth (blk t x) + 1" using t(2,4) by (auto simp: calm_def tree_def)
    then show ?thesis using t(7,8) same by (simp add: deepest_def)
  qed
  moreover have "run_events (bexec lib) (ToLongest (index_of s p) # replicate 3 (Daemon 0)) s
      = Some (Ok (Returns SUCCESS # replicate 3 Steps) t)"
    using call t(1) by (simp add: returns_def)
  ultimately show ?thesis using t(3-5) same by auto
qed

lemma to_longest_at_attachment_example:
  "let s = bafter [Init, AddBlock (Some ''ab'') 2, AddBlock None 0] in
   \<exists>t. run_events (bexec demo_lib) [ToLongest 1, Daemon 0, Daemon 0, Daemon 0] s
      = Some (Ok [Returns 0, Steps, Steps, Steps] t) \<and> om_find (blockMap t) 1 = Some 1"
proof -
  let ?s = "bafter [Init, AddBlock (Some ''ab'') 2, AddBlock None 0]"
  have "index_of ?s 1 = 1" by (simp add: chain_eval blk_def)
  then show ?thesis unfolding Let_def
    using to_longest_at_attachment [OF two_queued(1) demo_lib_ok two_queued(2,3)]
    by (auto simp: numeral_3_eq_3)
qed

section \<open>Pruning\<close>

text \<open>
  C23: \<open>prune_chain\<close> always comes back: the walk along \<open>_next\<close> that marks the longest chain ends.
\<close>

theorem prune_returns:
  assumes "breachable lib s" and "lib_ok lib"
  shows "\<exists>r. prune_chain lib s = Some r"
proof (cases "isInitiated s \<and> \<not> currentlyBlocked s")
  case True
  have lib: "shuffles lib" "foreign_end lib" using assms(2) by (simp_all add: lib_ok_def)
  have "cinv s" by (rule breachable_cinv [OF assms])
  then show ?thesis
  proof (rule prune_chain_ok [OF _ lib])
    fix m assume "prune_chain lib s = Some m"
    then show ?thesis by simp
  qed (use True in simp_all)
next
  case False
  then show ?thesis by (simp add: prune_chain_def)
qed

theorem prune_returns_witness:
  "\<exists>r. prune_chain demo_lib (bafter [Init, AddBlock None 0, Daemon 0, Daemon 0, Daemon 0]) = Some r"
  by (rule prune_returns [OF bafter_reachable demo_lib_ok])

text \<open>
  C24: What pruning leaves: if \<open>prune_chain\<close> on an open chain returns, it returns 0, and the map
  holds exactly the blocks from one of the deepest blocks to the genesis block; a number that
  became free was that of a block pruned away.
\<close>

theorem prune_keeps_longest:
  assumes "breachable lib s" and "lib_ok lib" and "isInitiated s" and "\<not> currentlyBlocked s"
    and "prune_chain lib s = Some (Ok v t)"
  shows "v = SUCCESS \<and> (\<exists>p. deepest s p \<and>
    blockMap t = filter (\<lambda>kq. leads s p (snd kq)) (blockMap s) \<and> blockQueue t = blockQueue s \<and>
    set (vecIndex t) \<subseteq> set (vecIndex s) \<and>
    (\<forall>i \<in> set (vecIndex s) - set (vecIndex t). \<exists>q. om_find (blockMap s) i = Some q \<and> \<not> leads s p q))"
proof -
  have lib: "shuffles lib" "foreign_end lib" using assms(2) by (simp_all add: lib_ok_def)
  have inv: "cinv s" by (rule breachable_cinv [OF assms(1,2)])
  obtain p w where v: "v = SUCCESS" and p: "deepest s p" and pr: "pruned p w s t"
  proof (rule prune_chain_ok [OF inv lib assms(3,4)])
    fix m assume m: "prune_chain lib s = Some m" "\<And>x t. m = Ok x t \<Longrightarrow>
      x = SUCCESS \<and> cinv t \<and> (\<exists>p v. deepest s p \<and> pruned p v s t)"
    then have "m = Ok v t" using assms(5) by simp
    then show thesis using m(2) that by blast
  qed
  obtain h where t: "t = s\<lparr>bheap := h, draws := draws s + 1, vecIndex := w,
      blockMap := filter (\<lambda>kq. leads s p (snd kq)) (blockMap s)\<rparr>"
    using pr unfolding pruned_def Let_def by blast
  have w: "set w \<subseteq> set (vecIndex s)"
      "\<forall>i \<in> set (vecIndex s). i \<notin> set w \<longrightarrow> (\<exists>q. om_find (blockMap s) i = Some q \<and> \<not> leads s p q)"
    using pr unfolding pruned_def Let_def by blast+
  show ?thesis using v p w by (intro conjI exI [of _ p]) (simp_all add: t)
qed

theorem prune_keeps_longest_witness:
  "\<exists>t. prune_chain demo_lib (bafter [Init, AddBlock None 0, AddBlock None 0, Daemon 0, Daemon 0, Daemon 0,
       Daemon 0, Daemon 0, Daemon 0]) = Some (Ok 0 t) \<and>
     set (vecIndex t) \<subseteq> {0, 1, 2} \<and> map fst (blockMap t) = [0, 1]"
proof -
  let ?s = "bafter [Init, AddBlock None 0, AddBlock None 0, Daemon 0, Daemon 0, Daemon 0,
       Daemon 0, Daemon 0, Daemon 0]"
  have s: "isInitiated ?s" "\<not> currentlyBlocked ?s" "vecIndex ?s = [0, 1, 2]" by (simp_all add: chain_eval)
  obtain t where t: "prune_chain demo_lib ?s = Some (Ok 0 t)" "map fst (blockMap t) = [0, 1]"
    by (simp add: chain_eval mark_longest.simps)
  show ?thesis
    using prune_keeps_longest [OF bafter_reachable demo_lib_ok s(1,2) t(1)] t s(3) by auto
qed

text \<open>
  C25: When \<open>prune_chain\<close> throws although there is nothing to prune: \<open>vecIndex\<close> also holds the numbers
  of pending blocks, and its loop calls \<open>blockMap.at\<close> for every number until it meets one that
  equals the \<open>int\<close> behind the end of the vector, which the loop condition dereferences (\<open>walked\<close>).
  If one of these numbers has no attached block, \<open>at\<close> throws \<open>out_of_range\<close>, which ends the process;
  otherwise the call returns 0.
\<close>

theorem prune_pending_throws:
  assumes "breachable lib s" and "lib_ok lib" and "isInitiated s" and "\<not> currentlyBlocked s"
    and "\<forall>p q. deepest s p \<and> q \<in> set (attached s) \<longrightarrow> leads s p q"
  shows "if \<exists>i \<in> set (walked lib (vecIndex s)). om_find (blockMap s) i = None
    then prune_chain lib s = Some (Faults OutOfRange) else (\<exists>t. prune_chain lib s = Some (Ok SUCCESS t))"
proof -
  have inv: "cinv s" by (rule breachable_cinv [OF assms(1,2)])
  have "shuffles lib" "foreign_end lib" using assms(2) by (simp_all add: lib_ok_def)
  then show ?thesis using prune_straight [OF inv _ _ assms(3,4)] assms(5) by blast
qed

theorem prune_pending_throws_witness:
  "prune_chain demo_lib (bafter [Init, AddBlock None 0]) = Some (Faults OutOfRange) \<and>
   (\<exists>t. prune_chain demo_lib (bafter [Init]) = Some (Ok SUCCESS t))"
proof -
  have straight: "\<forall>p q. deepest s p \<and> q \<in> set (attached s) \<longrightarrow> leads s p q" if "attached s = [0]" for s
    using that by (auto simp: deepest_def)
  let ?s = "bafter [Init, AddBlock None 0]" and ?t = "bafter [Init]"
  have "isInitiated ?s" "\<not> currentlyBlocked ?s" "attached ?s = [0]"
    and w: "\<exists>i \<in> set (walked demo_lib (vecIndex ?s)). om_find (blockMap ?s) i = None"
    by (simp_all add: chain_eval walked_def)
  then have 1: "prune_chain demo_lib ?s = Some (Faults OutOfRange)"
    using prune_pending_throws [OF bafter_reachable demo_lib_ok _ _ straight, of "[Init, AddBlock None 0]"] by simp
  have "isInitiated ?t" "\<not> currentlyBlocked ?t" "attached ?t = [0]"
    and v: "\<not> (\<exists>i \<in> set (walked demo_lib (vecIndex ?t)). om_find (blockMap ?t) i = None)"
    by (simp_all add: chain_eval walked_def)
  then have 2: "\<exists>t. prune_chain demo_lib ?t = Some (Ok SUCCESS t)"
    using prune_pending_throws [OF bafter_reachable demo_lib_ok _ _ straight, of "[Init]"] by simp
  show ?thesis using 1 2 by (rule conjI)
qed

section \<open>Closing\<close>

text \<open>
  C26: Closing a session, with its daemon at the test of its loop: \<open>close_chain\<close> and then the closing
  thread print one line for each pending block, in the order of the queue: its number and the hash
  of its data for a nonce of its number and the father it is attached to, which is the one chosen
  by \<open>add_block\<close> unless \<open>to_longest\<close> was called. All blocks are freed, and map, queue, numbers,
  counter, flags and \<open>s_mutex\<close> are as before \<open>init_blockchain\<close> (\<open>isInDaemon\<close> is not reset).
\<close>

theorem close_prints_pending:
  assumes "calm s" and "lib_ok lib" and "daemons s = [DLoop]" and "create_ret lib (draws s + 1) = 0"
  shows "\<exists>t out. run_events (bexec lib) [CloseChain, Closer] s = Some (Ok [Steps, Steps] t) \<and>
    stdout t = stdout s @ out \<and>
    list_all2 (\<lambda>(h, i) p. i = index_of s p \<and>
      (\<exists>n f. h = generate_hash lib (b_data (blk s p)) (b_lenData (blk s p)) (generate_nonce lib n i f) \<and>
         (\<not> b_attachToLongest (blk s p) \<longrightarrow> f = b_fatherIndex (blk s p)))) out (blockQueue s) \<and>
    (\<forall>p \<in> set (attached s @ blockQueue s). \<not> alive t p) \<and>
    blockMap t = [] \<and> blockQueue t = [] \<and> vecIndex t = [] \<and> g_sizeCounter t = 0 \<and>
    \<not> isInitiated t \<and> \<not> currentlyBlocked t \<and> \<not> s_mutex t"
proof -
  have h: "hashing s = []" using assms(3) by (simp add: hashing_def)
  have free: "\<not> queueMutex s" and op: "isInitiated s" using assms(1) h by (simp_all add: calm_def cinv_def)
  let ?u = "s\<lparr>currentlyBlocked := True, draws := draws s + 1, closers := Suc (closers s)\<rparr>"
  have c: "close_chain lib s = Ok () ?u" using op assms(4) by (simp add: close_chain_def Let_def)
  obtain t where t: "closeChainThread lib ?u = Some (Ok () t)"
      "\<exists>out. stdout t = stdout s @ out \<and> list_all2 (printed lib s) out (blockQueue s)"
      "\<forall>p \<in> set (attached s @ blockQueue s). \<not> alive t p"
      "cinv t" "\<not> isInitiated t" "\<not> currentlyBlocked t" "\<not> s_mutex t" "g_sizeCounter t = 0"
    by (rule calm_close [OF assms(1,2) free])
  obtain out where out: "stdout t = stdout s @ out" "list_all2 (printed lib s) out (blockQueue s)" using t(2) by blast
  have "run_events (bexec lib) [CloseChain, Closer] s = Some (Ok [Steps, Steps] t)"
    using c t(1) by (simp add: steps_def)
  moreover have "blockMap t = []" "blockQueue t = []" "vecIndex t = []"
    using cinvD(1) [OF t(4)] t(5) by (simp_all add: sound_def opened_def)
  moreover have "list_all2 (\<lambda>(h, i) p. i = index_of s p \<and>
      (\<exists>n f. h = generate_hash lib (b_data (blk s p)) (b_lenData (blk s p)) (generate_nonce lib n i f) \<and>
         (\<not> b_attachToLongest (blk s p) \<longrightarrow> f = b_fatherIndex (blk s p)))) out (blockQueue s)"
  proof (rule list_all2_mono [OF out(2)])
    fix x p assume "printed lib s x p"
    then obtain n f where "snd x = index_of s p" "fst x = generate_hash lib (b_data (blk s p)) (b_lenData (blk s p))
        (generate_nonce lib n (index_of s p) f)" "\<not> b_attachToLongest (blk s p) \<longrightarrow> f = b_fatherIndex (blk s p)"
      by (auto simp: printed_def hash_value_def)
    then show "(case x of (h, i) \<Rightarrow> \<lambda>p. i = index_of s p \<and>
      (\<exists>n f. h = generate_hash lib (b_data (blk s p)) (b_lenData (blk s p)) (generate_nonce lib n i f) \<and>
         (\<not> b_attachToLongest (blk s p) \<longrightarrow> f = b_fatherIndex (blk s p)))) p"
      by (cases x) (simp, blast)
  qed
  ultimately show ?thesis using t(3,5-8) out(1) by blast
qed

theorem close_prints_pending_witness:
  "\<exists>t. run_events (bexec demo_lib) [CloseChain, Closer] (bafter [Init, AddBlock (Some ''ab'') 2, AddBlock None 0])
     = Some (Ok [Steps, Steps] t) \<and> map snd (stdout t) = [1, 2]"
proof -
  let ?s = "bafter [Init, AddBlock (Some ''ab'') 2, AddBlock None 0]"
  have s: "create_ret demo_lib (draws ?s + 1) = 0" "stdout ?s = []"
      "index_of ?s 1 = 1" "index_of ?s 2 = 2"
    by (simp_all add: chain_eval blk_def)
  show ?thesis
    using close_prints_pending [OF two_queued(1) demo_lib_ok two_queued(2) s(1)] s(2-4) two_queued(3)
    by (auto simp: list_all2_Cons2)
qed

text \<open>
  C28: The closing thread reads a freed block: when the block at the front of the queue has a
  father that was pruned away, \<open>addAndHash\<close> deletes the block, and \<open>closeChainThread\<close> then prints
  the hash it reads out of it.
\<close>

theorem closing_uses_freed:
  assumes "breachable lib s" and "lib_ok lib" and "0 < closers s" and "\<not> queueMutex s"
    and "blockQueue s = p # ps" and "\<not> b_attachToLongest (blk s p)"
    and "om_find (blockMap s) (b_fatherIndex (blk s p)) = None"
  shows "closeChainThread lib s = Some (Faults UseAfterFree)"
proof -
  have inv: "cinv s" by (rule breachable_cinv [OF assms(1,2)])
  then have "hashing s = []" using assms(4) by (simp add: cinv_def)
  then have snd: "sound (p # ps) s" using cinvD(1) [OF inv] assms(5) by simp
  have a: "alive s p" using pending_not_found(2) [OF snd, of p] by simp
  let ?s = "s\<lparr>blockQueue := ps\<rparr>"
  have h: "hash_begin lib p ?s = Ok (Some (b_fatherIndex (blk s p))) (?s\<lparr>isInDaemon := index_of s p\<rparr>)"
    using hash_begin_direct [of ?s p lib] a assms(6) by simp
  have "drain_round lib s = Faults UseAfterFree"
    by (rule drain_round_orphan [OF snd assms(5) h]) (use snd assms(7) in simp_all)
  then have "drain lib s = Faults UseAfterFree" using assms(5) by (simp add: drain.simps [of lib s])
  then show ?thesis using assms(3,4) by (simp add: closeChainThread_def)
qed

theorem closing_uses_freed_witness:
  "closeChainThread demo_lib (bafter ([Init, AddBlock None 0, AddBlock None 0] @ replicate 6 (Daemon 0) @
     [AddBlock None 0, PruneChain, CloseChain])) = Some (Faults UseAfterFree)"
proof -
  let ?s = "bafter ([Init, AddBlock None 0, AddBlock None 0] @ replicate 6 (Daemon 0) @
     [AddBlock None 0, PruneChain, CloseChain])"
  have "0 < closers ?s" "\<not> queueMutex ?s" "blockQueue ?s = [3]" "\<not> b_attachToLongest (blk ?s 3)"
    "om_find (blockMap ?s) (b_fatherIndex (blk ?s 3)) = None"
    by (simp_all add: chain_eval mark_longest.simps blk_def eval_nat_numeral)
  then show ?thesis by (rule closing_uses_freed [OF bafter_reachable demo_lib_ok])
qed

text \<open>
  \<open>isInDaemon\<close> outlives its block: for the number of the block that the daemon took last,
  when no block has that number any more, \<open>was_added\<close> answers that the block is not attached yet
  instead of -2, and \<open>attach_now\<close> starts to wait for it although it is not in the queue.
\<close>

lemma stale_number:
  assumes "breachable lib s" and "lib_ok lib" and "isInitiated s" and "\<not> currentlyBlocked s"
    and "isInDaemon s \<notin> set (vecIndex s)"
  shows "was_added (isInDaemon s) s = Ok NOT_FOUND s \<and> attach_now (isInDaemon s) s = Ok (Waits (isInDaemon s)) s"
proof -
  have inv: "cinv s" by (rule breachable_cinv [OF assms(1,2)])
  have "om_find (blockMap s) (isInDaemon s) = None"
    using attached_find(4) [OF cinvD(1) [OF inv]] assms(5) by (cases "om_find (blockMap s) (isInDaemon s)") auto
  then show ?thesis using was_added_cases [OF inv assms(3)] assms(3,4) by (simp add: attach_now_def)
qed

lemma stale_number_example:
  "let s = bafter ([Init, AddBlock None 0] @ replicate 3 (Daemon 0) @ [CloseChain, Closer, Init])
   in was_added 1 s = Ok NOT_FOUND s"
proof -
  let ?s = "bafter ([Init, AddBlock None 0] @ replicate 3 (Daemon 0) @ [CloseChain, Closer, Init])"
  have s: "isInitiated ?s" "\<not> currentlyBlocked ?s" "isInDaemon ?s \<notin> set (vecIndex ?s)" "isInDaemon ?s = 1"
    by (simp_all add: chain_eval blk_def eval_nat_numeral)
  show ?thesis unfolding Let_def using stale_number [OF bafter_reachable demo_lib_ok s(1-3)] s(4) by simp
qed

end
