(* ===== verification/Blockchain_Race.thy ===== *)
theory Blockchain_Race
  imports Blockchain_Props
begin

text \<open>
  \<open>add_block\<close> of several threads at the same time. It takes no lock but around \<open>findFather\<close>, so a call
  is three steps here: the test and the search for a number, the choice of the father, and the
  entry of the new block. Between them any other step of the database may come.
\<close>

section \<open>Calls in three parts\<close>

datatype adder =
    Begins "string option" int
  | ChoosesFather "string option" int int          \<comment> \<open>with its number\<close>
  | Enters "string option" int int int             \<comment> \<open>and the father's index\<close>
  | Returned int

text \<open>What follows the choice of the father.\<close>

definition enter_block :: "string option \<Rightarrow> int \<Rightarrow> int \<Rightarrow> int \<Rightarrow> chain \<Rightarrow> int bres" where
  "enter_block data len idx fatherIdx s =
     and_then (map_at fatherIdx s) (\<lambda>q s.
     and_then (deref q s) (\<lambda>fb s.
       case new_block data idx fatherIdx (getDepth fb + 1) len of
         Inl e \<Rightarrow> Faults e
       | Inr newBlock \<Rightarrow>
           let p = length (bheap s) in
           Ok idx (s\<lparr>bheap := bheap s @ [Some newBlock],
                     vecIndex := vecIndex s @ [getIndex newBlock],
                     blockQueue := blockQueue s @ [p]\<rparr>)))"

fun add_step :: "hashlib \<Rightarrow> adder \<Rightarrow> chain \<Rightarrow> adder bres" where
  "add_step lib (Begins data len) s =
     (if \<not> isInitiated s \<or> currentlyBlocked s then Ok (Returned FAIL) s
      else let (idx, s) = findMinIdx s in Ok (ChoosesFather data len idx) s)"
| "add_step lib (ChoosesFather data len idx) s =
     and_then (findFather lib s) (\<lambda>fatherIdx. Ok (Enters data len idx fatherIdx))"
| "add_step lib (Enters data len idx fatherIdx) s =
     and_then (enter_block data len idx fatherIdx s) (\<lambda>v. Ok (Returned v))"
| "add_step lib (Returned v) s = Ok (Returned v) s"

record race =
  shared :: chain
  adders :: "adder list"

datatype race_event = Call "string option" int | Proceed nat | Other bevent

definition in_race :: "('a \<Rightarrow> adder list) \<Rightarrow> 'a bres \<Rightarrow> (unit, race) outcome" where
  "in_race as m =
     (case m of
        Ok a t \<Rightarrow> Ok () \<lparr>shared = t, adders = as a\<rparr>
      | Exits c t \<Rightarrow> Exits c \<lparr>shared = t, adders = []\<rparr>
      | Faults e \<Rightarrow> Faults e)"

fun race_exec :: "hashlib \<Rightarrow> race_event \<Rightarrow> race \<Rightarrow> (unit, race) outcome option" where
  "race_exec lib (Call data len) r = Some (Ok () (r\<lparr>adders := adders r @ [Begins data len]\<rparr>))"
| "race_exec lib (Proceed i) r =
     (if i < length (adders r)
      then Some (in_race (\<lambda>a. (adders r)[i := a]) (add_step lib (adders r ! i) (shared r)))
      else None)"
| "race_exec lib (Other e) r = map_option (in_race (\<lambda>_. adders r)) (bexec lib e (shared r))"

lemma in_race_Ok [simp]: "in_race as (Ok a t) = Ok () \<lparr>shared = t, adders = as a\<rparr>"
  by (simp add: in_race_def)

text \<open>With nothing in between the parts are the call.\<close>

lemma add_block_parts:
  "add_block lib data len s =
     (if \<not> isInitiated s \<or> currentlyBlocked s then Ok FAIL s
      else let (idx, s) = findMinIdx s in
        and_then (findFather lib s) (\<lambda>f s. enter_block data len idx f s))"
  by (simp add: add_block_def enter_block_def)

lemma call_alone:
  assumes "add_block lib data len s = Ok v t"
  shows "\<exists>us. run_events (race_exec lib) [Call data len, Proceed 0, Proceed 0, Proceed 0] \<lparr>shared = s, adders = []\<rparr> =
    Some (Ok us \<lparr>shared = t, adders = [Returned v]\<rparr>)"
proof (cases "\<not> isInitiated s \<or> currentlyBlocked s")
  case True
  then show ?thesis using assms by (auto simp: add_block_parts)
next
  case False
  obtain i s1 where m: "findMinIdx s = (i, s1)" by (cases "findMinIdx s")
  obtain f s2 where f: "findFather lib s1 = Ok f s2" and e: "enter_block data len i f s2 = Ok v t"
    using assms False m by (auto simp: add_block_parts and_then_eq_Ok_iff)
  show ?thesis using False m f e by simp
qed

section \<open>Two calls at the same time\<close>

lemma findMinIdx_again: "findMinIdx (s\<lparr>vecIndex := sort (vecIndex s)\<rparr>) = findMinIdx s"
  by (simp add: findMinIdx_def Let_def sorted_sort_id)

text \<open>What the entry of a block does, when its father is attached.\<close>

lemma enter_block_ok:
  assumes "om_find (blockMap s) f = Some q" and "alive s q" and "0 \<le> len" and "len \<le> int (length d)"
  shows "\<exists>nb. enter_block (Some d) len i f s = Ok i (s\<lparr>bheap := bheap s @ [Some nb], vecIndex := vecIndex s @ [i],
      blockQueue := blockQueue s @ [length (bheap s)]\<rparr>) \<and> b_index nb = i \<and> b_data nb = Some (take (nat len) d)"
proof -
  obtain nb where nb: "new_block (Some d) i f (b_depth (blk s q) + 1) len = Inr nb"
    using new_block_fits [where data = "Some d" and len = len] assms(3,4) by fastforce
  then show ?thesis using assms(1,2) new_block_Inr [OF nb] by (intro exI [of _ nb]) (simp add: enter_block_def)
qed

text \<open>
  C19: \<open>add_block\<close> takes no lock around the choice of the number: when two calls search for it before
  either has entered its block, both return the same number, and two blocks with this number
  wait in the queue.
\<close>

theorem race_same_number:
  assumes "breachable lib s" and "lib_ok lib" and "isInitiated s" and "\<not> currentlyBlocked s"
    and "0 \<le> len" "len \<le> int (length d)" and "0 \<le> len'" "len' \<le> int (length d')"
  shows "\<exists>us n p q t. run_events (race_exec lib)
      [Call (Some d) len, Call (Some d') len', Proceed 0, Proceed 1, Proceed 0, Proceed 0, Proceed 1, Proceed 1]
      \<lparr>shared = s, adders = []\<rparr> = Some (Ok us t) \<and> adders t = [Returned n, Returned n] \<and>
    blockQueue (shared t) = blockQueue s @ [p, q] \<and> p \<noteq> q \<and>
    index_of (shared t) p = n \<and> index_of (shared t) q = n \<and>
    b_data (blk (shared t) p) = Some (take (nat len) d) \<and> b_data (blk (shared t) q) = Some (take (nat len') d')"
proof -
  have inv: "cinv s" by (rule breachable_cinv [OF assms(1,2)])
  have shuf: "shuffles lib" using assms(2) by (simp add: lib_ok_def)
  obtain i s1 where m: "findMinIdx s = (i, s1)" by (cases "findMinIdx s")
  have s1: "s1 = s\<lparr>vecIndex := sort (vecIndex s)\<rparr>" using findMinIdx_snd [of s] m by simp
  have m1: "findMinIdx s1 = (i, s1)" using findMinIdx_again [of s] m s1 by simp
  let ?s2 = "s1\<lparr>draws := draws s + 1\<rparr>"
  obtain f q where f0: "findFather lib (snd (findMinIdx s)) = Ok f (snd (findMinIdx s)\<lparr>draws := draws s + 1\<rparr>)"
    and q: "om_find (blockMap s) f = Some q"
    by (rule add_block_father [OF inv shuf assms(3)])
  have f: "findFather lib s1 = Ok f ?s2" using f0 m by simp
  have "alive s q" by (rule attached_find(3) [OF cinvD(1) [OF inv] q])
  then obtain nb where e: "enter_block (Some d) len i f ?s2 = Ok i (?s2\<lparr>bheap := bheap ?s2 @ [Some nb],
      vecIndex := vecIndex ?s2 @ [i], blockQueue := blockQueue ?s2 @ [length (bheap ?s2)]\<rparr>)"
    and nb: "b_index nb = i" "b_data nb = Some (take (nat len) d)"
    using enter_block_ok [of ?s2 f q len d i] q assms(5,6) s1 by auto
  let ?t = "?s2\<lparr>bheap := bheap ?s2 @ [Some nb], vecIndex := vecIndex ?s2 @ [i],
      blockQueue := blockQueue ?s2 @ [length (bheap ?s2)]\<rparr>"
  have "add_block lib (Some d) len s = Ok i ?t" using assms(3,4) m f e by (simp add: add_block_parts)
  then have invt: "cinv ?t" by (rule add_block_inv [OF inv shuf])
  have opt: "isInitiated ?t" using assms(3) s1 by simp
  obtain f' q' where f': "findFather lib ?t = Ok f' (?t\<lparr>draws := draws ?t + 1\<rparr>)"
    and q': "om_find (blockMap ?t) f' = Some q'"
    by (rule findFather_deepest [OF cinvD(1) [OF invt] opt shuf])
  let ?t2 = "?t\<lparr>draws := draws ?t + 1\<rparr>"
  have "alive ?t q'" by (rule attached_find(3) [OF cinvD(1) [OF invt] q'])
  then have alive: "alive ?t2 q'" by (simp add: alive_def)
  obtain nb' where e': "enter_block (Some d') len' i f' ?t2 = Ok i (?t2\<lparr>bheap := bheap ?t2 @ [Some nb'],
      vecIndex := vecIndex ?t2 @ [i], blockQueue := blockQueue ?t2 @ [length (bheap ?t2)]\<rparr>)"
    and nb': "b_index nb' = i" "b_data nb' = Some (take (nat len') d')"
    using enter_block_ok [of ?t2 f' q' len' d' i] q' alive assms(7,8) by auto
  let ?u = "?t2\<lparr>bheap := bheap ?t2 @ [Some nb'], vecIndex := vecIndex ?t2 @ [i],
      blockQueue := blockQueue ?t2 @ [length (bheap ?t2)]\<rparr>"
  have blks: "blk ?u (length (bheap s)) = nb" "blk ?u (Suc (length (bheap s))) = nb'"
    using s1 by (simp_all add: blk_def nth_append)
  have op1: "isInitiated s1" "\<not> currentlyBlocked s1" using assms(3,4) s1 by simp_all
  have "run_events (race_exec lib)
      [Call (Some d) len, Call (Some d') len', Proceed 0, Proceed 1, Proceed 0, Proceed 0, Proceed 1, Proceed 1]
      \<lparr>shared = s, adders = []\<rparr> = Some (Ok (replicate 8 ()) \<lparr>shared = ?u, adders = [Returned i, Returned i]\<rparr>)"
    using assms(3,4) op1 m m1 f e f' e' by (simp add: numeral_eq_Suc)
  moreover have "blockQueue ?u = blockQueue s @ [length (bheap s), Suc (length (bheap s))]" using s1 by simp
  ultimately show ?thesis using blks nb nb'
    by (intro exI [of _ "replicate 8 ()"] exI [of _ i] exI [of _ "length (bheap s)"]
        exI [of _ "Suc (length (bheap s))"] exI [of _ "\<lparr>shared = ?u, adders = [Returned i, Returned i]\<rparr>"]) simp
qed

theorem race_same_number_witness:
  "\<exists>us t. run_events (race_exec demo_lib)
      [Call (Some ''a'') 1, Call (Some ''b'') 1, Proceed 0, Proceed 1, Proceed 0, Proceed 0, Proceed 1, Proceed 1]
      \<lparr>shared = bafter [Init], adders = []\<rparr> = Some (Ok us t) \<and> (\<exists>n. adders t = [Returned n, Returned n])"
proof -
  have "isInitiated (bafter [Init])" "\<not> currentlyBlocked (bafter [Init])" by (simp_all add: chain_eval)
  then show ?thesis
    using race_same_number [OF bafter_reachable [of "[Init]"] demo_lib_ok, where len = 1 and d = "''a''" and len' = 1 and d' = "''b''"]
    by fastforce
qed

text \<open>
  The second of the two blocks is lost when the daemon attaches it, since the map has an entry under
  its number: two blocks are counted, one can be found.
\<close>

lemma race_loses_block:
  "\<exists>us t. run_events (race_exec demo_lib)
      ([Other Init, Call (Some ''a'') 1, Call (Some ''b'') 1, Proceed 0, Proceed 1, Proceed 0, Proceed 0, Proceed 1,
        Proceed 1] @ map Other [Daemon 0, Daemon 0, Daemon 0, Daemon 0, Daemon 0, Daemon 0])
      \<lparr>shared = initial_chain, adders = []\<rparr> = Some (Ok us t) \<and>
    chain_size (shared t) = 2 \<and> map fst (blockMap (shared t)) = [0, 1]"
  by (simp add: chain_eval enter_block_def)

end
