(* ===== verification/Blockchain_Spec.thy ===== *)
theory Blockchain_Spec
  imports Blockchain_Props
begin

text \<open>
  What the blockchain database promises during a session, over block numbers alone: no blocks on
  a heap, pointers, vector of numbers or locks. \<open>ledger_step\<close> is the specification; its answers are
  those that the comments in \<open>blockchain.cpp\<close> promise, but for one: \<open>to_longest\<close> answers -2 for a
  block that is being hashed, although it exists. \<open>ledger_of\<close> reads a ledger off a state of the
  library; every call and every step of the daemon is a step of the specification (interpretation
  \<open>ledgers\<close> of \<open>event_refinement\<close>), except for calls about the number that \<open>isInDaemon\<close> has at the
  start: -1 in the first session. For that number, which no block has, \<open>was_added\<close> answers 0 and
  \<open>attach_now\<close> waits for ever (\<open>reserved_number\<close>).
\<close>

section \<open>The ledger\<close>

datatype phase =
    Idle
  | Awake                \<comment> \<open>the daemon saw a block in the queue\<close>
  | Attaching int int    \<comment> \<open>it hashes this block, for this father\<close>

record ledger =
  l_tree :: "int \<rightharpoonup> int \<times> int"            \<comment> \<open>father and depth of the attached blocks\<close>
  l_queue :: "(int \<times> int \<times> bool) list"   \<comment> \<open>number, father, whether \<open>to_longest\<close> was called\<close>
  l_phase :: phase

definition ledger_init :: ledger where
  "ledger_init = \<lparr>l_tree = [0 \<mapsto> (- 1, 0)], l_queue = [], l_phase = Idle\<rparr>"

definition queued :: "ledger \<Rightarrow> int set" where
  "queued A = fst ` set (l_queue A)"

definition in_work :: "ledger \<Rightarrow> int set" where
  "in_work A = (case l_phase A of Attaching k f \<Rightarrow> {k} | _ \<Rightarrow> {})"

definition known :: "ledger \<Rightarrow> int set" where
  "known A = dom (l_tree A) \<union> queued A \<union> in_work A"

definition longest :: "ledger \<Rightarrow> int \<Rightarrow> bool" where
  "longest A f \<longleftrightarrow>
     (\<exists>g d. l_tree A f = Some (g, d) \<and> (\<forall>j h e. l_tree A j = Some (h, e) \<longrightarrow> e \<le> d))"

definition to_front :: "int \<Rightarrow> (int \<times> int \<times> bool) list \<Rightarrow> (int \<times> int \<times> bool) list" where
  "to_front n q = filter (\<lambda>e. fst e = n) q @ filter (\<lambda>e. fst e \<noteq> n) q"

definition flag :: "int \<Rightarrow> int \<times> int \<times> bool \<Rightarrow> int \<times> int \<times> bool" where
  "flag n = (\<lambda>(k, f, b). (k, f, b \<or> k = n))"

inductive ledger_step :: "ledger \<Rightarrow> bevent \<Rightarrow> bcontrol \<Rightarrow> ledger \<Rightarrow> bool" where
  Init_again: "ledger_step A Init (Returns FAIL) A"
| Add: "0 \<le> k \<Longrightarrow> k \<notin> known A \<Longrightarrow> {0..<k} \<subseteq> known A \<Longrightarrow> longest A f \<Longrightarrow>
    ledger_step A (AddBlock data len) (Returns k) (A\<lparr>l_queue := l_queue A @ [(k, f, False)]\<rparr>)"
| To_longest_attached: "n \<in> dom (l_tree A) \<Longrightarrow> ledger_step A (ToLongest n) (Returns FOUND) A"
| To_longest: "n \<in> queued A \<Longrightarrow>
    ledger_step A (ToLongest n) (Returns SUCCESS) (A\<lparr>l_queue := map (flag n) (l_queue A)\<rparr>)"
| To_longest_late: "n \<in> in_work A \<Longrightarrow> ledger_step A (ToLongest n) (Returns UNSUCCESSFUL) A"
| To_longest_unknown: "n \<notin> known A \<Longrightarrow> ledger_step A (ToLongest n) (Returns UNSUCCESSFUL) A"
| Attach_now_attached: "n \<in> dom (l_tree A) \<Longrightarrow> ledger_step A (AttachNow n) (Returns SUCCESS) A"
| Attach_now_taken: "n \<in> in_work A \<Longrightarrow> ledger_step A (AttachNow n) (Waits n) A"
| Attach_now: "n \<in> queued A \<Longrightarrow>
    ledger_step A (AttachNow n) (Waits n) (A\<lparr>l_queue := to_front n (l_queue A)\<rparr>)"
| Attach_now_unknown: "n \<notin> known A \<Longrightarrow> ledger_step A (AttachNow n) (Returns UNSUCCESSFUL) A"
| Poll_attached: "n \<in> dom (l_tree A) \<Longrightarrow> ledger_step A (AttachPoll n) (Returns SUCCESS) A"
| Poll_waits: "n \<notin> dom (l_tree A) \<Longrightarrow> ledger_step A (AttachPoll n) (Waits n) A"
| Was_added: "n \<in> dom (l_tree A) \<Longrightarrow> ledger_step A (WasAdded n) (Returns FOUND) A"
| Was_added_pending: "n \<in> queued A \<union> in_work A \<Longrightarrow> ledger_step A (WasAdded n) (Returns NOT_FOUND) A"
| Was_added_unknown: "n \<notin> known A \<Longrightarrow> ledger_step A (WasAdded n) (Returns UNSUCCESSFUL) A"
| Chain_size: "ledger_step A ChainSize (Returns (int (card (dom (l_tree A))) - 1)) A"
| Not_closing: "ledger_step A ReturnOnClose (Returns UNSUCCESSFUL) A"
| Sleep: "l_phase A = Idle \<Longrightarrow> l_queue A = [] \<Longrightarrow> ledger_step A (Daemon 0) Steps A"
| Wake: "l_phase A = Idle \<Longrightarrow> l_queue A \<noteq> [] \<Longrightarrow> ledger_step A (Daemon 0) Steps (A\<lparr>l_phase := Awake\<rparr>)"
| Take: "l_phase A = Awake \<Longrightarrow> l_queue A = (k, f, late) # q \<Longrightarrow> (if late then longest A g else g = f) \<Longrightarrow>
    ledger_step A (Daemon 0) Steps (A\<lparr>l_queue := q, l_phase := Attaching k g\<rparr>)"
| Attach: "l_phase A = Attaching k f \<Longrightarrow> l_tree A f = Some (g, d) \<Longrightarrow>
    ledger_step A (Daemon 0) Steps (A\<lparr>l_tree := (l_tree A)(k \<mapsto> (f, d + 1)), l_phase := Idle\<rparr>)"

inductive_simps add_step: "ledger_step A (AddBlock data len) c B"

inductive_simps attach_step: "ledger_step A (AttachNow n) c B"

section \<open>What follows from the specification\<close>

fun new_number :: "bevent \<Rightarrow> bcontrol \<Rightarrow> int set" where
  "new_number (AddBlock data len) (Returns k) = {k}"
| "new_number e c = {}"

lemma in_work_simps [simp]:
  "in_work (A\<lparr>l_tree := m\<rparr>) = in_work A" "in_work (A\<lparr>l_queue := q\<rparr>) = in_work A"
  "in_work (A\<lparr>l_phase := Idle\<rparr>) = {}" "in_work (A\<lparr>l_phase := Awake\<rparr>) = {}"
  "in_work (A\<lparr>l_phase := Attaching k f\<rparr>) = {k}"
  by (simp_all add: in_work_def)

lemma fst_flag [simp]: "fst (flag n e) = fst e"
  by (cases e) (simp add: flag_def)

lemma set_to_front [simp]: "set (to_front n q) = set q"
  by (auto simp: to_front_def)

text \<open>A number, once given, stays known: attached, queued or being hashed.\<close>

lemma step_known: "ledger_step A e c B \<Longrightarrow> known B = known A \<union> new_number e c"
  by (induction rule: ledger_step.induct) (auto simp: known_def queued_def in_work_def image_image)

text \<open>A call of \<open>attach_now\<close> waits for a block that is known, and stays so.\<close>

lemma run_waits:
  "spec_run ledger_step A es cs B \<Longrightarrow>
   known A \<subseteq> known B \<and> (\<forall>n. (AttachNow n, Waits n) \<in> set (zip es cs) \<longrightarrow> n \<in> known B)"
proof (induction rule: spec_run.induct)
  case (more A e c A' es cs B)
  have "n \<in> known A" if "e = AttachNow n" "c = Waits n" for n
    using more.hyps(1) that by (auto simp: attach_step known_def)
  then show ?case using more.IH step_known [OF more.hyps(1)] by auto
qed simp

text \<open>The numbers that \<open>add_block\<close> returned, in order.\<close>

fun numbers_of :: "bevent list \<Rightarrow> bcontrol list \<Rightarrow> int list" where
  "numbers_of (AddBlock data len # es) (Returns k # cs) = k # numbers_of es cs"
| "numbers_of (e # es) (c # cs) = numbers_of es cs"
| "numbers_of es cs = []"

fun is_add :: "bevent \<Rightarrow> bool" where
  "is_add (AddBlock data len) = True"
| "is_add e = False"

text \<open>The numbers are given out one after the other, and no block gets lost.\<close>

lemma least_unknown:
  fixes k n :: int
  assumes "0 \<le> n" "0 \<le> k" "k \<notin> {0..<n}" "{0..<k} \<subseteq> {0..<n}"
  shows "k = n"
proof (rule ccontr)
  assume "k \<noteq> n"
  then have "n \<in> {0..<k}" using assms(1-3) by auto
  then show False using assms(4) by auto
qed

lemma run_numbers:
  assumes "spec_run ledger_step A es cs B" and "known A = {0..<n}" and "0 \<le> n"
  shows "numbers_of es cs = [n..n + int (length (filter is_add es)) - 1] \<and>
    known B = {0..<n + int (length (filter is_add es))}"
  using assms
proof (induction arbitrary: n rule: spec_run.induct)
  case (more A e c A' es cs B)
  note known = step_known [OF more.hyps(1)] more.prems
  show ?case
  proof (cases "is_add e")
    case True
    then obtain data len where e: "e = AddBlock data len" by (cases e) simp_all
    obtain k where k: "c = Returns k" "0 \<le> k" "k \<notin> known A" "{0..<k} \<subseteq> known A"
      using more.hyps(1) [unfolded e add_step] by blast
    then have c: "c = Returns n" using least_unknown [of n k] more.prems by simp
    then have "known A' = {0..<n + 1}" using known e by auto
    then have ih: "numbers_of es cs = [n + 1..n + 1 + int (length (filter is_add es)) - 1] \<and>
        known B = {0..<n + 1 + int (length (filter is_add es))}" using more.IH more.prems(2) by simp
    let ?m = "int (length (filter is_add es))"
    have m: "int (length (filter is_add (e # es))) = ?m + 1" using True by simp
    have "[n..n + ?m] = n # [n + 1..n + ?m]" by (rule upto_rec1) simp
    then have "numbers_of (e # es) (c # cs) = [n..n + ?m]" using ih e c by simp
    moreover have "known B = {0..<n + (?m + 1)}" using ih by (simp only: ac_simps)
    ultimately show ?thesis unfolding m by simp
  next
    case False
    then have "new_number e c = {}" "numbers_of (e # es) (c # cs) = numbers_of es cs"
      by (cases e; simp)+
    then show ?thesis using more.IH [of n] known False by simp
  qed
qed simp

section \<open>The ledger of a state\<close>

definition entry :: "block \<Rightarrow> int \<times> int" where
  "entry b = (b_fatherIndex b, b_depth b)"

definition waiting :: "block \<Rightarrow> int \<times> int \<times> bool" where
  "waiting b = (b_index b, b_fatherIndex b, b_attachToLongest b)"

definition phase_of :: "chain \<Rightarrow> phase" where
  "phase_of s =
     (case daemons s of
        [DEntered] \<Rightarrow> Awake
      | [DHashing p f] \<Rightarrow> Attaching (index_of s p) f
      | _ \<Rightarrow> Idle)"

definition ledger_of :: "chain \<Rightarrow> ledger" where
  "ledger_of s =
     \<lparr>l_tree = (\<lambda>i. map_option (\<lambda>p. entry (blk s p)) (om_find (blockMap s) i)),
      l_queue = map (\<lambda>p. waiting (blk s p)) (blockQueue s),
      l_phase = phase_of s\<rparr>"

lemma ledger_of_sel [simp]:
  "l_tree (ledger_of s) i = map_option (\<lambda>p. entry (blk s p)) (om_find (blockMap s) i)"
  "l_queue (ledger_of s) = map (\<lambda>p. waiting (blk s p)) (blockQueue s)"
  "l_phase (ledger_of s) = phase_of s"
  "n \<in> dom (l_tree (ledger_of s)) \<longleftrightarrow> om_find (blockMap s) n \<noteq> None"
  "queued (ledger_of s) = index_of s ` set (blockQueue s)"
  by (auto simp: ledger_of_def queued_def waiting_def image_image)

lemma ledger_eqI:
  fixes A B :: ledger
  assumes "\<And>i. l_tree A i = l_tree B i" and "l_queue A = l_queue B" and "l_phase A = l_phase B"
  shows "A = B"
  using assms by (cases A, cases B) (auto simp: fun_eq_iff)

lemma longest_deepest:
  assumes "sound ps s" and "om_find (blockMap s) f = Some q" and "deepest s q"
  shows "longest (ledger_of s) f"
  using assms(2,3) attached_find(1) [OF assms(1)] unfolding longest_def
  by (auto simp: deepest_def entry_def)

text \<open>In a session every number of the vector is the number of a block.\<close>

definition numbers_exact :: "chain \<Rightarrow> bool" where
  "numbers_exact s \<longleftrightarrow> set (vecIndex s) = known (ledger_of s)"

lemma known_ledger: "known (ledger_of s) =
    {i. om_find (blockMap s) i \<noteq> None} \<union> index_of s ` set (blockQueue s) \<union> in_work (ledger_of s)"
  by (auto simp: known_def)

text \<open>
  \<open>isInDaemon\<close> is the number of the block that is being hashed, or of one that was and is attached; at
  the start of a session it has some other value \<open>i\<close>. The calls that look at it and name \<open>i\<close> are not
  in the contract.
\<close>

definition traced :: "int \<Rightarrow> chain \<Rightarrow> bool" where
  "traced i s \<longleftrightarrow>
     in_work (ledger_of s) \<subseteq> {isInDaemon s} \<and>
     (isInDaemon s = i \<or> om_find (blockMap s) (isInDaemon s) \<noteq> None \<or> isInDaemon s \<in> in_work (ledger_of s))"

lemma traced_cong:
  assumes "traced i s" and "blockMap t = blockMap s" and "isInDaemon t = isInDaemon s"
    and "in_work (ledger_of t) = in_work (ledger_of s)"
  shows "traced i t"
  using assms by (simp add: traced_def)

lemma traced_taken:
  assumes "traced i s" and "n \<noteq> i" and "om_find (blockMap s) n = None"
  shows "isInDaemon s = n \<longleftrightarrow> n \<in> in_work (ledger_of s)"
  using assms by (auto simp: traced_def)

fun names_other :: "int \<Rightarrow> bevent \<Rightarrow> bool" where
  "names_other i (AttachNow n) = (n \<noteq> i)"
| "names_other i (WasAdded n) = (n \<noteq> i)"
| "names_other i e = True"

lemma is_add_named: "filter is_add (filter (names_other i) es) = filter is_add es"
proof (induction es)
  case (Cons e es)
  then show ?case by (cases e) simp_all
qed simp

definition in_contract :: "int \<Rightarrow> bevent \<Rightarrow> bool" where
  "in_contract i e \<longleftrightarrow> session_event e \<and> names_other i e"

lemma in_work_hashing: "calm s \<Longrightarrow> in_work (ledger_of s) = index_of s ` set (hashing s)"
  by (auto simp: calm_def in_work_def phase_of_def hashing_def split: daemon.splits)

text \<open>Two states with the same map and the same data in its blocks have the same tree.\<close>

lemma ledger_tree_cong:
  assumes "sound ps s" and "blockMap t = blockMap s"
    and "\<And>p. p \<in> set (attached s) \<Longrightarrow> entry (blk t p) = entry (blk s p)"
  shows "l_tree (ledger_of t) = l_tree (ledger_of s)"
proof
  fix i
  show "l_tree (ledger_of t) i = l_tree (ledger_of s) i"
    using attached_find(1) [OF assms(1)] assms(2,3)
    by (cases "om_find (blockMap s) i") auto
qed

lemma phase_cong:
  assumes "daemons t = daemons s" and "\<And>p. p \<in> set (hashing s) \<Longrightarrow> index_of t p = index_of s p"
  shows "phase_of t = phase_of s"
  using assms by (auto simp: phase_of_def hashing_def split: list.splits daemon.splits)

section \<open>Every call is a step of the specification\<close>

lemma ledger_add:
  assumes calm: "calm s" and num: "numbers_exact s" and lib: "lib_ok lib" and tr: "traced i s"
    and data: "session_event (AddBlock data len)" and ex: "add_block lib data len s = Ok v t"
  shows "ledger_step (ledger_of s) (AddBlock data len) (Returns v) (ledger_of t) \<and> numbers_exact t \<and> traced i t"
proof -
  obtain f q nb where add: "add_block lib data len s = Ok (fst (findMinIdx s))
        (s\<lparr>bheap := bheap s @ [Some nb], vecIndex := sort (vecIndex s) @ [fst (findMinIdx s)],
           blockQueue := blockQueue s @ [length (bheap s)], draws := draws s + 1\<rparr>)"
      "om_find (blockMap s) f = Some q" "deepest s q"
      "new_block data (fst (findMinIdx s)) f (b_depth (blk s q) + 1) len = Inr nb"
    using calm_add [OF calm lib data, of thesis] by blast
  let ?k = "fst (findMinIdx s)"
  have t: "v = ?k" "t = s\<lparr>bheap := bheap s @ [Some nb], vecIndex := sort (vecIndex s) @ [?k],
           blockQueue := blockQueue s @ [length (bheap s)], draws := draws s + 1\<rparr>"
    using add(1) ex by simp_all
  note snd = calm_sound [OF calm]
  note ok = sound_numbers_ok [OF snd]
  have heap: "bheap t = bheap s @ [Some nb]" using t(2) by simp
  have old: "blk t x = blk s x" if "x \<in> set (attached s @ blockQueue s @ hashing s)" for x
    using blk_alloc(1) [OF heap] snd that by (auto simp: sound_def)
  have new: "blk t (length (bheap s)) = nb" by (rule blk_alloc(2) [OF heap])
  have nb: "waiting nb = (?k, f, False)" using new_block_Inr [OF add(4)] by (simp add: waiting_def)
  have "l_tree (ledger_of t) = l_tree (ledger_of s)"
    by (rule ledger_tree_cong [OF snd]) (use t(2) old in auto)
  moreover have "phase_of t = phase_of s" by (rule phase_cong) (use t(2) old in auto)
  ultimately have lt: "ledger_of t = (ledger_of s)\<lparr>l_queue := l_queue (ledger_of s) @ [(?k, f, False)]\<rparr>"
    using t(2) old new nb by (intro ledger_eqI) auto
  have ex: "known (ledger_of s) = set (vecIndex s)" using num by (simp add: numbers_exact_def)
  have step: "ledger_step (ledger_of s) (AddBlock data len) (Returns v) (ledger_of t)"
    unfolding lt t(1)
  proof (rule ledger_step.Add)
    show "0 \<le> ?k" by (rule nums.next_nonneg [OF ok])
    show "?k \<notin> known (ledger_of s)" using nums.next_fresh [OF ok] ex by simp
    show "{0..<?k} \<subseteq> known (ledger_of s)" using nums.next_least [OF ok] ex by auto
    show "longest (ledger_of s) f" by (rule longest_deepest [OF snd add(2,3)])
  qed
  then have "numbers_exact t" using step_known [OF step] ex t by (simp add: numbers_exact_def)
  moreover have "traced i t" by (rule traced_cong [OF tr]) (use lt in \<open>simp_all add: t(2)\<close>)
  ultimately show ?thesis using step by blast
qed

lemma ledger_to_longest:
  assumes calm: "calm s" and tr: "traced j s" and ex: "to_longest i s = Ok v t"
  shows "ledger_step (ledger_of s) (ToLongest i) (Returns v) (ledger_of t) \<and> vecIndex t = vecIndex s \<and> traced j t"
proof -
  have inv: "cinv s" and op: "isInitiated s" using calm by (simp_all add: calm_def)
  show ?thesis
  proof (cases "i \<in> index_of s ` set (blockQueue s)")
    case True
    then obtain p where p: "p \<in> set (blockQueue s)" "index_of s p = i" by auto
    let ?t = "set_blk (setAttachToLongest True) p s"
    have t: "v = SUCCESS" "t = ?t" using to_longest_queued(1) [OF inv p] ex by simp_all
    have a: "alive s p" using queue_alive(1) [OF inv] p(1) by simp
    have b: "blk t x = (if x = p then setAttachToLongest True (blk s x) else blk s x)" for x
      using blk_set_blk [OF a] t(2) by simp
    have keep: "blockMap t = blockMap s" "daemons t = daemons s" "blockQueue t = blockQueue s"
        "isInDaemon t = isInDaemon s" "vecIndex t = vecIndex s" by (simp_all add: t(2))
    have w: "waiting (blk t x) = flag i (waiting (blk s x))" if "x \<in> set (blockQueue s)" for x
    proof (cases "x = p")
      case False
      then have "index_of s x \<noteq> i" using queue_member(4) [OF inv p that] by blast
      then show ?thesis using False by (simp add: b waiting_def flag_def)
    qed (use p(2) in \<open>simp add: b waiting_def flag_def block_setters\<close>)
    have "l_tree (ledger_of t) = l_tree (ledger_of s)"
      by (rule ledger_tree_cong [OF calm_sound [OF calm]]) (simp_all add: keep b entry_def block_setters)
    moreover have "phase_of t = phase_of s"
      by (rule phase_cong) (simp_all add: keep b block_setters)
    ultimately have lt: "ledger_of t = (ledger_of s)\<lparr>l_queue := map (flag i) (l_queue (ledger_of s))\<rparr>"
      using w keep by (intro ledger_eqI) (simp_all add: fun_eq_iff)
    have "traced j t" by (rule traced_cong [OF tr]) (use lt keep in simp_all)
    then show ?thesis unfolding lt t(1) using True keep by (intro conjI ledger_step.To_longest) simp_all
  next
    case False
    then have "existBlock i s = Ok FAIL s" by (rule existBlock_absent [OF inv])
    then have "t = s" "v = (if om_find (blockMap s) i \<noteq> None then FOUND else UNSUCCESSFUL)"
      using ex op by (auto simp: to_longest_def split: if_splits)
    moreover have "i \<in> in_work (ledger_of s) \<or> i \<notin> known (ledger_of s)" if "om_find (blockMap s) i = None"
      using that False by (simp add: known_ledger)
    ultimately show ?thesis using False tr
      by (auto intro: ledger_step.To_longest_attached ledger_step.To_longest_late ledger_step.To_longest_unknown)
  qed
qed

lemma to_front_remove1:
  assumes "distinct (map h xs)" and "p \<in> set xs"
  shows "filter (\<lambda>x. h x = h p) xs = [p] \<and> filter (\<lambda>x. h x \<noteq> h p) xs = remove1 p xs"
  using assms
proof (induction xs)
  case (Cons x xs)
  show ?case
  proof (cases "x = p")
    case True
    then have "\<forall>y \<in> set xs. h y \<noteq> h p" using Cons.prems(1) by (auto dest: sym)
    then have "filter (\<lambda>x. h x = h p) xs = []" "filter (\<lambda>x. h x \<noteq> h p) xs = xs"
      by (simp_all add: filter_empty_conv)
    then show ?thesis using True by simp
  next
    case False
    then have "p \<in> set xs" using Cons.prems(2) by simp
    then have "h x \<noteq> h p" using Cons.prems(1) by force
    then show ?thesis using Cons \<open>p \<in> set xs\<close> False by simp
  qed
qed simp

lemma ledger_attach_now:
  assumes calm: "calm s" and tr: "traced j s" and other: "i \<noteq> j" and ex: "attach_now i s = Ok c t"
  shows "ledger_step (ledger_of s) (AttachNow i) c (ledger_of t) \<and> vecIndex t = vecIndex s \<and> traced j t"
proof -
  have inv: "cinv s" and op: "isInitiated s" "\<not> currentlyBlocked s" using calm by (simp_all add: calm_def)
  consider "om_find (blockMap s) i \<noteq> None"
    | "om_find (blockMap s) i = None" "isInDaemon s = i"
    | p where "p \<in> set (blockQueue s)" "index_of s p = i" "isInDaemon s \<noteq> i"
    | "om_find (blockMap s) i = None" "i \<notin> index_of s ` set (blockQueue s)" "isInDaemon s \<noteq> i"
    by blast
  then show ?thesis
  proof cases
    case 1
    then have "t = s" "c = Returns SUCCESS" using ex op by (simp_all add: attach_now_def)
    then show ?thesis using 1 tr by (auto intro: ledger_step.Attach_now_attached)
  next
    case 2
    then have "t = s" "c = Waits i" using ex op by (simp_all add: attach_now_def)
    then show ?thesis using 2 tr traced_taken [OF tr other] by (auto intro: ledger_step.Attach_now_taken)
  next
    case (3 p)
    have t: "c = Waits i" "t = s\<lparr>blockQueue := p # remove1 p (blockQueue s)\<rparr>"
      using attach_now_queued(1) [OF inv 3(1,2) op(2) 3(3)] ex by simp_all
    have "to_front i (map (\<lambda>p. waiting (blk s p)) (blockQueue s))
        = map (\<lambda>p. waiting (blk s p)) (p # remove1 p (blockQueue s))"
      using to_front_remove1 [OF queue_alive(2) [OF inv] 3(1)] 3(2)
      by (simp add: to_front_def filter_map o_def waiting_def flip: map_append)
    then have lt: "ledger_of t = (ledger_of s)\<lparr>l_queue := to_front i (l_queue (ledger_of s))\<rparr>"
      using t(2) phase_cong [of t s] by (intro ledger_eqI) simp_all
    have "traced j t" by (rule traced_cong [OF tr]) (use lt t(2) in simp_all)
    then show ?thesis unfolding lt t(1) using 3 t(2) by (intro conjI ledger_step.Attach_now) auto
  next
    case 4
    then have "existBlock i s = Ok FAIL s" by (intro existBlock_absent [OF inv])
    then have "t = s" "c = Returns UNSUCCESSFUL" using ex op 4 by (simp_all add: attach_now_def)
    moreover have "i \<notin> known (ledger_of s)" using 4 traced_taken [OF tr other] by (simp add: known_ledger)
    ultimately show ?thesis using tr by (auto intro: ledger_step.Attach_now_unknown)
  qed
qed

text \<open>The steps of the daemon.\<close>

lemma ledger_loop:
  assumes calm: "calm s" and tr: "traced i s" and d: "daemons s = [DLoop]"
    and ex: "daemonFunction lib 0 s = Some (Ok u t)"
  shows "ledger_step (ledger_of s) (Daemon 0) Steps (ledger_of t) \<and> vecIndex t = vecIndex s \<and> traced i t"
proof -
  have t: "t = (if blockQueue s = [] then s else set_daemon 0 DEntered s)"
    using calm_loop(1) [OF calm d, of lib] ex by simp
  have ph: "phase_of s = Idle" using d by (simp add: phase_of_def)
  show ?thesis
  proof (cases "blockQueue s = []")
    case True
    then show ?thesis using t ph tr by (auto intro: ledger_step.Sleep)
  next
    case False
    have lt: "ledger_of t = (ledger_of s)\<lparr>l_phase := Awake\<rparr>"
      using t False d by (intro ledger_eqI) (simp_all add: phase_of_def set_daemon_def)
    have "in_work (ledger_of t) = in_work (ledger_of s)" unfolding lt using ph by (simp add: in_work_def)
    then have "traced i t" using t False by (intro traced_cong [OF tr]) simp_all
    then show ?thesis unfolding lt using False ph t
      by (intro conjI ledger_step.Wake) (simp_all add: set_daemon_def)
  qed
qed

lemma ledger_take:
  assumes calm: "calm s" and lib: "lib_ok lib" and d: "daemons s = [DEntered]" and q: "blockQueue s = p # ps"
    and ex: "daemonFunction lib 0 s = Some (Ok u t)"
  shows "ledger_step (ledger_of s) (Daemon 0) Steps (ledger_of t) \<and> vecIndex t = vecIndex s \<and> traced i t"
proof -
  note snd = calm_sound [OF calm]
  obtain f where t: "daemons t = [DHashing p f]" "blockQueue t = ps" "blockMap t = blockMap s"
      "index_of t p = index_of s p" "\<forall>x \<in> set (attached s). blk t x = blk s x"
      "b_attachToLongest (blk s p) \<longrightarrow> (\<exists>q. om_find (blockMap s) f = Some q \<and> deepest s q)"
      "\<not> b_attachToLongest (blk s p) \<longrightarrow> f = b_fatherIndex (blk s p)"
      "\<forall>x \<in> set ps. blk t x = blk s x" "isInDaemon t = index_of s p" "vecIndex t = vecIndex s"
  proof (rule calm_take [OF calm lib d q], goal_cases)
    case (1 f t)
    then show ?case using ex by (intro that [of f]) simp_all
  qed
  have "l_tree (ledger_of t) = l_tree (ledger_of s)"
    by (rule ledger_tree_cong [OF snd t(3)]) (use t(5) in auto)
  then have lt: "ledger_of t = (ledger_of s)\<lparr>l_queue := map (\<lambda>p. waiting (blk s p)) ps,
      l_phase := Attaching (index_of s p) f\<rparr>"
    using t by (intro ledger_eqI) (simp_all add: phase_of_def)
  have "if b_attachToLongest (blk s p) then longest (ledger_of s) f else f = b_fatherIndex (blk s p)"
    using t(6,7) longest_deepest [OF snd] by auto
  then have "ledger_step (ledger_of s) (Daemon 0) Steps (ledger_of t)"
    unfolding lt using d q
    by (intro ledger_step.Take) (simp_all add: phase_of_def waiting_def)
  moreover have "traced i t" using t(9) by (simp add: traced_def lt)
  ultimately show ?thesis using t(10) by blast
qed

lemma ledger_attach:
  assumes calm: "calm s" and tr: "traced i s" and d: "daemons s = [DHashing p f]"
    and ex: "daemonFunction lib 0 s = Some (Ok u t)"
  shows "ledger_step (ledger_of s) (Daemon 0) Steps (ledger_of t) \<and> vecIndex t = vecIndex s \<and> traced i t"
proof -
  note snd = calm_sound [OF calm]
  obtain q h where t: "daemons t = [DLoop]" "om_find (blockMap s) f = Some q" "blockQueue t = blockQueue s"
      "blockMap t = om_insert (index_of s p) p (blockMap s)" "\<forall>x. x \<noteq> p \<longrightarrow> blk t x = blk s x"
      "blk t p = settled h f q (blk s p)" "isInDaemon t = isInDaemon s" "vecIndex t = vecIndex s"
  proof (rule calm_finish [where lib = lib, OF calm d], goal_cases)
    case (1 q t)
    then show ?case using ex by (intro that [of q]) simp_all
  qed
  have p: "p \<in> set (blockQueue s @ hashing s)" using d by (simp add: hashing_def)
  note pend = pending_not_found [OF snd p]
  have ok: "om_ok (blockMap s)" using snd by (simp add: sound_def)
  have depth: "b_depth (blk s p) = b_depth (blk s q) + 1"
    using calm d t(2) by (auto simp: calm_def daemon_fits_def fits_def)
  have tree: "l_tree (ledger_of t) i
      = ((l_tree (ledger_of s))(index_of s p \<mapsto> (f, b_depth (blk s q) + 1))) i" for i
  proof (cases "om_find (blockMap s) i")
    case None
    then show ?thesis using t(4,6) depth om.find_ins [OF ok] pend(1)
      by (simp add: entry_def settled_def)
  next
    case (Some x)
    then have "x \<noteq> p" "i \<noteq> index_of s p" using attached_find(1) [OF snd Some] pend(1,3) by auto
    then show ?thesis using Some t(4,5) om.find_ins [OF ok] pend(1) by simp
  qed
  have "p \<notin> set (blockQueue s)"
    using snd d by (auto simp: sound_def numbered_def hashing_def)
  then have "map (\<lambda>p. waiting (blk t p)) (blockQueue s) = map (\<lambda>p. waiting (blk s p)) (blockQueue s)"
    using t(5) by auto
  then have lt: "ledger_of t = (ledger_of s)\<lparr>l_tree := (l_tree (ledger_of s))
      (index_of s p \<mapsto> (f, b_depth (blk s q) + 1)), l_phase := Idle\<rparr>"
    using t tree by (intro ledger_eqI) (simp_all add: phase_of_def)
  have "ledger_step (ledger_of s) (Daemon 0) Steps (ledger_of t)"
    unfolding lt using d t(2)
    by (intro ledger_step.Attach) (simp_all add: phase_of_def entry_def)
  moreover have "isInDaemon s = index_of s p"
    using tr d by (simp add: traced_def in_work_def phase_of_def)
  then have "traced i t" using t(4,7) om.find_ins [OF ok] pend(1) lt by (simp add: traced_def)
  ultimately show ?thesis using t(8) by blast
qed

lemma ledger_daemon:
  assumes calm: "calm s" and lib: "lib_ok lib" and tr: "traced i s" and ex: "daemonFunction lib 0 s = Some (Ok u t)"
  shows "ledger_step (ledger_of s) (Daemon 0) Steps (ledger_of t) \<and> vecIndex t = vecIndex s \<and> traced i t"
proof -
  obtain d where d: "daemons s = [d]" "daemon_fits s d" using calm by (auto simp: calm_def)
  show ?thesis
  proof (cases d)
    case DLoop
    then show ?thesis using ledger_loop [OF calm tr _ ex] d(1) by simp
  next
    case DEntered
    then obtain p ps where "blockQueue s = p # ps"
      using d(2) by (cases "blockQueue s") (auto simp: daemon_fits_def)
    then show ?thesis using ledger_take [OF calm lib _ _ ex] d(1) DEntered by simp
  next
    case (DHashing p f)
    then show ?thesis using ledger_attach [OF calm tr _ ex] d(1) by simp
  qed (use d(2) in \<open>simp add: daemon_fits_def\<close>)
qed

lemma size_ledger:
  assumes "sound ps s"
  shows "card (dom (l_tree (ledger_of s))) = length (blockMap s)"
proof -
  have ok: "om_ok (blockMap s)" using assms by (simp add: sound_def)
  have "dom (l_tree (ledger_of s)) = set (om_keys (blockMap s))" using om.keys_find [OF ok] by auto
  then show ?thesis using om.length_keys [OF ok] by simp
qed

lemma ledger_other:
  assumes calm: "calm s" and tr: "traced i s" and lib: "lib_ok lib"
    and e: "session_event e" "names_other i e" "\<not> is_add e" and ex: "bexec lib e s = Some (Ok c t)"
  shows "ledger_step (ledger_of s) e c (ledger_of t) \<and> vecIndex t = vecIndex s \<and> traced i t"
proof (cases e)
  case Init
  then have "c = Returns FAIL" "t = s"
    using ex calm by (auto simp: init_blockchain_def returns_def calm_def)
  then show ?thesis using Init tr by (simp add: ledger_step.Init_again)
next
  case (ToLongest n)
  then obtain v where "to_longest n s = Ok v t" "c = Returns v"
    using ex by (auto simp: returns_def and_then_eq_Ok_iff)
  then show ?thesis using ledger_to_longest [OF calm tr] ToLongest by simp
next
  case (AttachNow n)
  then show ?thesis using ledger_attach_now [OF calm tr] e(2) ex by simp
next
  case (AttachPoll n)
  then show ?thesis using ex tr
    by (auto simp: attach_poll_def intro: ledger_step.Poll_attached ledger_step.Poll_waits split: if_splits)
next
  case (WasAdded n)
  let ?v = "if om_find (blockMap s) n \<noteq> None then FOUND
        else if n \<in> index_of s ` set (blockQueue s) \<or> n = isInDaemon s then NOT_FOUND else UNSUCCESSFUL"
  have "was_added n s = Ok ?v s" using calm by (intro was_added_cases) (simp_all add: calm_def)
  then have "bexec lib e s = Some (Ok (Returns ?v) s)" unfolding WasAdded by (simp only: bexec.simps returns_def and_then.simps)
  then have t: "t = s" "c = Returns ?v" using ex by simp_all
  show ?thesis
  proof (cases "om_find (blockMap s) n")
    case None
    then have "isInDaemon s = n \<longleftrightarrow> n \<in> in_work (ledger_of s)" using traced_taken [OF tr] e(2) WasAdded by simp
    then show ?thesis unfolding WasAdded t using None tr
      by (auto simp: known_ledger intro!: ledger_step.Was_added_pending ledger_step.Was_added_unknown)
  qed (use t tr WasAdded in \<open>auto intro: ledger_step.Was_added\<close>)
next
  case ChainSize
  have "chain_size s = int (card (dom (l_tree (ledger_of s)))) - 1"
    using calm size_ledger [OF calm_sound [OF calm]] by (simp add: chain_size_def calm_def)
  then have "t = s" "c = Returns (int (card (dom (l_tree (ledger_of s)))) - 1)"
    using ex unfolding ChainSize bexec.simps by auto
  then show ?thesis unfolding ChainSize using tr by (simp only: ledger_step.Chain_size simp_thms)
next
  case ReturnOnClose
  then have "t = s" "c = Returns UNSUCCESSFUL" using ex calm by (auto simp: return_on_close_def calm_def)
  then show ?thesis unfolding ReturnOnClose using tr by (simp add: ledger_step.Not_closing)
next
  case (Daemon i)
  then have "i = 0" using e(1) by simp
  moreover from this obtain u where "daemonFunction lib 0 s = Some (Ok u t)" "c = Steps"
    using ex Daemon by (auto simp: steps_def and_then_eq_Ok_iff)
  ultimately show ?thesis using ledger_daemon [OF calm lib tr] Daemon by simp
qed (use e in simp_all)

lemma ledger_exec:
  assumes calm: "calm s" and num: "numbers_exact s" and lib: "lib_ok lib" and tr: "traced i s"
    and e: "in_contract i e" and ex: "bexec lib e s = Some (Ok c t)"
  shows "ledger_step (ledger_of s) e c (ledger_of t) \<and> numbers_exact t \<and> traced i t"
proof (cases "is_add e")
  case True
  then obtain data len where add: "e = AddBlock data len" by (cases e) simp_all
  then obtain v where "add_block lib data len s = Ok v t" "c = Returns v"
    using ex by (auto simp: returns_def and_then_eq_Ok_iff)
  then show ?thesis using ledger_add [OF calm num lib tr] e add by (simp add: in_contract_def)
next
  case False
  then have step: "ledger_step (ledger_of s) e c (ledger_of t)" "vecIndex t = vecIndex s" "traced i t"
    using ledger_other [OF calm tr lib _ _ _ ex] e by (simp_all add: in_contract_def)
  moreover have "new_number e c = {}" using False by (cases e) simp_all
  ultimately show ?thesis using step_known [OF step(1)] num by (simp add: numbers_exact_def)
qed

interpretation ledgers: event_refinement "bexec lib" "\<lambda>s. calm s \<and> numbers_exact s \<and> traced i s \<and> lib_ok lib"
    "in_contract i" ledger_of ledger_step for lib i
proof unfold_locales
  fix s e c t
  assume s: "calm s \<and> numbers_exact s \<and> traced i s \<and> lib_ok lib" and e: "in_contract i e"
    and ex: "bexec lib e s = Some (Ok c t)"
  show "ledger_step (ledger_of s) e c (ledger_of t)" using ledger_exec s e ex by blast
  have "calm t" using session.exec_invar [of s lib e c t] s e ex by (simp add: in_contract_def)
  then show "calm t \<and> numbers_exact t \<and> traced i t \<and> lib_ok lib" using ledger_exec s e ex by blast
qed

text \<open>The state after \<open>init_blockchain\<close>.\<close>

lemma ledger_opened:
  assumes "first_state s" and "isInDaemon s = i" and "init_blockchain lib s = Some (Ok SUCCESS t)"
  shows "ledger_of t = ledger_init" "numbers_exact t" "traced i t" "isInDaemon t = i"
proof -
  have s: "cinv s" "\<not> isInitiated s" "\<not> currentlyBlocked s" "daemons s = []"
    using assms(1) by (simp_all add: first_state_def)
  have ok: "\<not> s_mutex s" "create_ret lib (draws s + 1) = 0"
    using assms(3) s(2,3) by (auto simp: init_blockchain_def Let_def split: if_splits)
  have e: "blockMap s = []" "blockQueue s = []"
    using cinvD(1) [OF s(1)] s(2) by (simp_all add: sound_def opened_def)
  obtain g where g: "new_block None 0 (- 1) 0 0 = Inr g" and t: "t = s\<lparr>s_mutex := True, draws := draws s + 1,
      daemons := daemons s @ [DLoop], bheap := bheap s @ [Some g],
      blockMap := [(0, length (bheap s))], vecIndex := [0], isInitiated := True\<rparr>"
    using init_ok [OF s(1-3) ok] assms(3) by (metis option.inject outcome.inject(1))
  have heap: "bheap t = bheap s @ [Some g]" using t by simp
  have b: "entry (blk t (length (bheap s))) = (- 1, 0)"
    using blk_alloc(2) [OF heap] new_block_Inr [OF g] by (simp add: entry_def)
  show l: "ledger_of t = ledger_init"
    using t b e s(4) by (intro ledger_eqI) (simp_all add: ledger_init_def phase_of_def)
  show "numbers_exact t"
    unfolding numbers_exact_def l using t by (auto simp: known_def ledger_init_def queued_def in_work_def split: if_splits)
  show "isInDaemon t = i" using t assms(2) by simp
  then show "traced i t" unfolding traced_def l by (simp add: ledger_init_def in_work_def)
qed

section \<open>Attached blocks do not change\<close>

definition kept :: "chain \<Rightarrow> chain \<Rightarrow> bool" where
  "kept s t \<longleftrightarrow>
     (\<forall>i p. om_find (blockMap s) i = Some p \<longrightarrow> om_find (blockMap t) i = Some p \<and> blk t p = blk s p)"

lemma keptI:
  assumes "sound ps s" and "blockMap t = blockMap s" and "\<And>p. p \<in> set (attached s) \<Longrightarrow> blk t p = blk s p"
  shows "kept s t"
  using attached_find(1) [OF assms(1)] assms(2,3) by (simp add: kept_def)

lemma kept_daemon:
  assumes calm: "calm s" and lib: "lib_ok lib" and ex: "daemonFunction lib 0 s = Some (Ok u t)"
  shows "kept s t"
proof -
  note snd = calm_sound [OF calm]
  obtain d where d: "daemons s = [d]" "daemon_fits s d" using calm by (auto simp: calm_def)
  show ?thesis
  proof (cases d)
    case DLoop
    then have "t = (if blockQueue s = [] then s else set_daemon 0 DEntered s)"
      using calm_loop(1) [OF calm, of lib] d(1) ex by simp
    then show ?thesis by (simp add: kept_def set_daemon_def)
  next
    case DEntered
    then obtain p ps where q: "blockQueue s = p # ps"
      using d(2) by (cases "blockQueue s") (auto simp: daemon_fits_def)
    show ?thesis
    proof (rule calm_take [OF calm lib d(1) [unfolded DEntered] q], goal_cases)
      case (1 f v)
      then have "v = t" using ex by simp
      then show ?case using 1(5,8) by (intro keptI [OF snd]) simp_all
    qed
  next
    case (DHashing p f)
    have "p \<in> set (blockQueue s @ hashing s)" using d(1) DHashing by (simp add: hashing_def)
    note pend = pending_not_found(1,3) [OF snd this]
    have ok: "om_ok (blockMap s)" using snd by (simp add: sound_def)
    show ?thesis
    proof (rule calm_finish [where lib = lib, OF calm d(1) [unfolded DHashing]], goal_cases)
      case (1 q v)
      then have v: "v = t" using ex by simp
      have "x \<noteq> p" if "om_find (blockMap s) i = Some x" for i x
        using attached_find(1) [OF snd that] pend(2) by blast
      then show ?case using 1(6,9) v om.find_ins_new [OF ok pend(1)] pend(1) by (auto simp: kept_def)
    qed
  next
    case DExited
    then show ?thesis using d(2) by (simp add: daemon_fits_def)
  qed
qed

lemma kept_exec:
  assumes calm: "calm s" and lib: "lib_ok lib" and e: "session_event e" and ex: "bexec lib e s = Some (Ok c t)"
  shows "kept s t"
proof -
  note snd = calm_sound [OF calm]
  have inv: "cinv s" and op: "isInitiated s" "\<not> currentlyBlocked s" using calm by (simp_all add: calm_def)
  show ?thesis
  proof (cases e)
    case (AddBlock data len)
    show ?thesis
    proof (rule calm_add [OF calm lib e [unfolded AddBlock]], goal_cases)
      case (1 f q nb u)
      then have t: "bheap t = bheap s @ [Some nb]" "blockMap t = blockMap s"
        using ex AddBlock by (auto simp: returns_def)
      have "blk t p = blk s p" if "p \<in> set (attached s)" for p
        using snd that by (intro blk_alloc(1) [OF t(1)]) (simp add: sound_def)
      then show ?case by (intro keptI [OF snd t(2)])
    qed
  next
    case (ToLongest n)
    then obtain v where v: "to_longest n s = Ok v t" using ex by (auto simp: returns_def and_then_eq_Ok_iff)
    show ?thesis
    proof (cases "n \<in> index_of s ` set (blockQueue s)")
      case True
      then obtain p where p: "p \<in> set (blockQueue s)" "index_of s p = n" by auto
      then have t: "t = set_blk (setAttachToLongest True) p s" using to_longest_queued(1) [OF inv p] v by simp
      have a: "alive s p" and np: "p \<notin> set (attached s)" using queue_alive(1,3) [OF inv] p(1) by simp_all
      then have "blk t x = blk s x" if "x \<in> set (attached s)" for x using blk_set_blk [OF a] that t by auto
      then show ?thesis using t by (intro keptI [OF snd]) simp_all
    next
      case False
      then have "t = s" using v op existBlock_absent [OF inv False] by (auto simp: to_longest_def split: if_splits)
      then show ?thesis by (simp add: kept_def)
    qed
  next
    case (AttachNow n)
    then have ex: "attach_now n s = Ok c t" using ex by simp
    show ?thesis
    proof (cases "n \<in> index_of s ` set (blockQueue s) \<and> isInDaemon s \<noteq> n")
      case True
      then obtain p where "p \<in> set (blockQueue s)" "index_of s p = n" by auto
      then have "t = s\<lparr>blockQueue := p # remove1 p (blockQueue s)\<rparr>"
        using attach_now_queued(1) [OF inv _ _ op(2)] True ex by simp
      then show ?thesis by (simp add: kept_def)
    next
      case False
      then have "n \<notin> index_of s ` set (blockQueue s) \<or> isInDaemon s = n" by blast
      then have "t = s" using ex op existBlock_absent [OF inv, of n] by (auto simp: attach_now_def split: if_splits)
      then show ?thesis by (simp add: kept_def)
    qed
  next
    case (WasAdded n)
    then have "t = s" using ex was_added_cases [OF inv op(1), of n] by (simp add: returns_def)
    then show ?thesis by (simp add: kept_def)
  next
    case (Daemon i)
    then obtain u where "daemonFunction lib 0 s = Some (Ok u t)"
      using ex e by (auto simp: steps_def and_then_eq_Ok_iff)
    then show ?thesis by (rule kept_daemon [OF calm lib])
  qed (use ex e op in \<open>auto simp: kept_def returns_def init_blockchain_def attach_poll_def split: if_splits\<close>)
qed

lemma kept_run:
  assumes "calm s" and lib: "lib_ok lib" and "list_all session_event es"
    and "run_events (bexec lib) es s = Some (Ok cs t)"
  shows "kept s t"
  using assms(1,3,4)
proof (induction es arbitrary: s cs)
  case Nil
  then show ?case by (simp add: kept_def)
next
  case (Cons e es)
  obtain c u cs' where u: "bexec lib e s = Some (Ok c u)" "run_events (bexec lib) es u = Some (Ok cs' t)"
    using Cons.prems(3) by (auto split: option.splits outcome.splits)
  have "calm u" using session.exec_invar [of s lib e c u] Cons.prems u(1) lib by simp
  then have "kept u t" using Cons.IH Cons.prems(2) u(2) by simp
  moreover have "kept s u" using kept_exec [OF _ lib _ u(1)] Cons.prems by simp
  ultimately show ?case unfolding kept_def by metis
qed

section \<open>The number -1\<close>

text \<open>
  Before the first block is hashed \<open>isInDaemon\<close> is -1: \<open>was_added\<close> takes -1 for a block that is not
  attached yet, and \<open>attach_now\<close> waits for it, however long the daemon runs. No block ever has
  this number, and calls about it change nothing.
\<close>

lemma negative_unused:
  assumes "calm s" and "n < 0"
  shows "om_find (blockMap s) n = None" "n \<notin> index_of s ` set (blockQueue s)"
proof -
  note snd = calm_sound [OF assms(1)]
  show "om_find (blockMap s) n = None" using attached_find(5) [OF snd] assms(2) by (meson not_less option.exhaust)
  have "index_of s ` set (attached s @ blockQueue s @ hashing s) \<subseteq> {0..}"
    using snd unfolding sound_def numbered_def by fastforce
  then show "n \<notin> index_of s ` set (blockQueue s)" using assms(2) by auto
qed

lemma reserved_idle:
  assumes calm: "calm s" and "session_event e" and "\<not> names_other (- 1) e" and ex: "bexec lib e s = Some (Ok c t)"
  shows "t = s"
proof -
  have inv: "cinv s" and op: "isInitiated s" "\<not> currentlyBlocked s" using calm by (simp_all add: calm_def)
  have none: "om_find (blockMap s) (- 1) = None" "- 1 \<notin> index_of s ` set (blockQueue s)"
    using negative_unused [OF calm, of "- 1"] by simp_all
  show ?thesis
  proof (cases e)
    case (AttachNow n)
    then have "attach_now (- 1) s = Ok c t" using assms(3) ex by simp
    then show ?thesis using op none(1) existBlock_absent [OF inv none(2)] by (auto simp: attach_now_def split: if_splits)
  next
    case (WasAdded n)
    then show ?thesis using assms(3) ex was_added_cases [OF inv op(1), of n] by (simp add: returns_def)
  qed (use assms(3) in simp_all)
qed

lemma drop_reserved:
  assumes "calm s" and lib: "lib_ok lib" and "list_all session_event es"
    and "run_events (bexec lib) es s = Some (Ok cs t)"
  shows "\<exists>ds. run_events (bexec lib) (filter (names_other (- 1)) es) s = Some (Ok ds t) \<and>
    zip (filter (names_other (- 1)) es) ds = filter (names_other (- 1) \<circ> fst) (zip es cs) \<and>
    numbers_of (filter (names_other (- 1)) es) ds = numbers_of es cs"
  using assms(1,3,4)
proof (induction es arbitrary: s cs)
  case (Cons e es)
  obtain c u cs' where u: "bexec lib e s = Some (Ok c u)" "run_events (bexec lib) es u = Some (Ok cs' t)" "cs = c # cs'"
    using Cons.prems(3) by (auto split: option.splits outcome.splits)
  have "calm u" using session.exec_invar [of s lib e c u] Cons.prems u(1) lib by simp
  moreover have "list_all session_event es" using Cons.prems(2) by simp
  ultimately obtain ds where ds: "run_events (bexec lib) (filter (names_other (- 1)) es) u = Some (Ok ds t)"
      "zip (filter (names_other (- 1)) es) ds = filter (names_other (- 1) \<circ> fst) (zip es cs')"
      "numbers_of (filter (names_other (- 1)) es) ds = numbers_of es cs'"
    using Cons.IH [OF _ _ u(2)] by blast
  show ?case
  proof (cases "names_other (- 1) e")
    case True
    have "numbers_of (e # filter (names_other (- 1)) es) (c # ds) = numbers_of (e # es) (c # cs')"
      using ds(3) by (cases e; cases c) simp_all
    then show ?thesis using True ds u by (intro exI [of _ "c # ds"]) (simp add: comp_def)
  next
    case False
    then have "u = s" using reserved_idle [OF Cons.prems(1) _ False u(1)] Cons.prems(2) by simp
    moreover have "numbers_of (e # es) (c # cs') = numbers_of es cs'" using False by (cases e) simp_all
    ultimately show ?thesis using False ds u by (intro exI [of _ ds]) (simp add: comp_def)
  qed
qed simp

section \<open>Runs from the start\<close>

lemma opened:
  assumes "create_ret lib 1 = 0"
  obtains u where "bexec lib Init initial_chain = Some (Ok (Returns SUCCESS) u)"
    and "calm u" and "numbers_exact u" and "traced (- 1) u" and "ledger_of u = ledger_init" and "isInDaemon u = - 1"
proof -
  have i: "isInDaemon initial_chain = - 1" by (simp add: initial_chain_def)
  have "create_ret lib (draws initial_chain + 1) = 0" "\<not> isInitiated initial_chain" "\<not> currentlyBlocked initial_chain"
      "\<not> s_mutex initial_chain" using assms(1) by (simp_all add: initial_chain_def)
  then obtain u where u: "init_blockchain lib initial_chain = Some (Ok SUCCESS u)"
    using init_ok [OF cinv_initial] by metis
  then have "bexec lib Init initial_chain = Some (Ok (Returns SUCCESS) u)" by (simp add: returns_def)
  then show thesis
  proof (rule that)
    show "calm u" by (rule init_calm [OF first_initial u])
    show "numbers_exact u" "traced (- 1) u" "ledger_of u = ledger_init" "isInDaemon u = - 1"
      by (rule ledger_opened [OF first_initial i u])+
  qed
qed

lemma opened_run:
  assumes "create_ret lib 1 = 0" and run: "run_events (bexec lib) (Init # es) initial_chain = Some (Ok cs t)"
  obtains u cs' where "cs = Returns SUCCESS # cs'" and "run_events (bexec lib) es u = Some (Ok cs' t)"
    and "calm u" and "numbers_exact u" and "traced (- 1) u" and "ledger_of u = ledger_init"
proof -
  obtain u where u: "bexec lib Init initial_chain = Some (Ok (Returns SUCCESS) u)"
    "calm u" "numbers_exact u" "traced (- 1) u" "ledger_of u = ledger_init" by (rule opened [OF assms(1)])
  obtain cs' where "cs = Returns SUCCESS # cs'" "run_events (bexec lib) es u = Some (Ok cs' t)"
    using run unfolding run_events.simps u(1) by (auto split: option.splits outcome.splits)
  then show thesis using that u(2-5) by blast
qed

lemma session_runs:
  assumes "create_ret lib 1 = 0" and lib: "lib_ok lib" and es: "list_all session_event es"
  obtains cs t where "run_events (bexec lib) (Init # es) initial_chain = Some (Ok cs t)"
proof -
  obtain u where u: "bexec lib Init initial_chain = Some (Ok (Returns SUCCESS) u)" "calm u"
    by (rule opened [OF assms(1)])
  obtain cs t where "run_events (bexec lib) es u = Some (Ok cs t)"
    using session.run_answers [of u lib es] u(2) lib es by blast
  then show thesis using that unfolding run_events.simps u(1) by simp
qed

lemma opened_refines:
  assumes "create_ret lib 1 = 0" and lib: "lib_ok lib" and es: "list_all session_event es"
    and "run_events (bexec lib) (Init # es) initial_chain = Some (Ok cs t)"
  obtains cs' ds where "cs = Returns SUCCESS # cs'"
    and "spec_run ledger_step ledger_init (filter (names_other (- 1)) es) ds (ledger_of t)"
    and "zip (filter (names_other (- 1)) es) ds = filter (names_other (- 1) \<circ> fst) (zip es cs')"
    and "numbers_of (filter (names_other (- 1)) es) ds = numbers_of es cs'"
    and "numbers_exact t"
proof -
  obtain u cs' where cs: "cs = Returns SUCCESS # cs'" and run: "run_events (bexec lib) es u = Some (Ok cs' t)"
    and u: "calm u" "numbers_exact u" "traced (- 1) u" and init: "ledger_of u = ledger_init"
    by (rule opened_run [OF assms(1,4)])
  obtain ds where ds: "run_events (bexec lib) (filter (names_other (- 1)) es) u = Some (Ok ds t)"
      "zip (filter (names_other (- 1)) es) ds = filter (names_other (- 1) \<circ> fst) (zip es cs')"
      "numbers_of (filter (names_other (- 1)) es) ds = numbers_of es cs'"
    using drop_reserved [OF u(1) lib es run] by blast
  have "list_all (in_contract (- 1)) (filter (names_other (- 1)) es)"
    using es by (auto simp: list_all_iff in_contract_def)
  note led = ledgers.run_refines [OF _ this ds(1)] ledgers.run_invar [OF _ this ds(1)]
  show thesis
    using that [OF cs _ ds(2,3)] led u lib init by auto
qed

text \<open>No number gets lost in a session: \<open>add_block\<close> then returns the lowest number that is not in use.\<close>

lemma session_nothing_lost:
  assumes "create_ret lib 1 = 0" and "lib_ok lib" and "list_all session_event es"
    and "run_events (bexec lib) (Init # es) initial_chain = Some (Ok cs t)"
  shows "lost t = {}"
proof -
  have num: "numbers_exact t" by (rule opened_refines [OF assms])
  have calm: "calm t" by (rule run_calm [OF assms])
  have "{i. om_find (blockMap t) i \<noteq> None} \<subseteq> index_of t ` set (attached t)"
    using attached_find(1,2) [OF calm_sound [OF calm]] by blast
  then have "known (ledger_of t) \<subseteq> in_use t"
    unfolding known_ledger in_use_def in_work_hashing [OF calm] set_append image_Un by blast
  then show ?thesis using num by (auto simp: lost_def numbers_exact_def)
qed

lemma reserved_number:
  assumes "create_ret lib 1 = 0" and "lib_ok lib"
  shows "\<exists>s. run_events (bexec lib) [Init, WasAdded (- 1), AttachNow (- 1)] initial_chain
      = Some (Ok [Returns SUCCESS, Returns NOT_FOUND, Waits (- 1)] s) \<and>
    (\<forall>es cs t. list_all session_event es \<and> run_events (bexec lib) es s = Some (Ok cs t) \<longrightarrow>
      attach_poll (- 1) t = Ok (Waits (- 1)) t)"
proof -
  obtain s where s: "bexec lib Init initial_chain = Some (Ok (Returns SUCCESS) s)" and calm: "calm s"
    and i: "isInDaemon s = - 1" by (rule opened [OF assms(1)])
  have inv: "cinv s" and op: "isInitiated s" "\<not> currentlyBlocked s" using calm by (simp_all add: calm_def)
  have none: "om_find (blockMap s) (- 1) = None" using negative_unused(1) [OF calm, of "- 1"] by simp
  have "run_events (bexec lib) [WasAdded (- 1), AttachNow (- 1)] s = Some (Ok [Returns NOT_FOUND, Waits (- 1)] s)"
    using was_added_cases [OF inv op(1), of "- 1"] op none i by (simp add: returns_def attach_now_def)
  then have "run_events (bexec lib) [Init, WasAdded (- 1), AttachNow (- 1)] initial_chain
      = Some (Ok [Returns SUCCESS, Returns NOT_FOUND, Waits (- 1)] s)"
    by (simp only: run_events.simps s) simp
  moreover have "attach_poll (- 1) t = Ok (Waits (- 1)) t"
    if "list_all session_event es" "run_events (bexec lib) es s = Some (Ok cs t)" for es cs t
  proof -
    have "calm t" using session.run_invar [of s lib es cs t] calm assms(2) that by auto
    then show ?thesis using negative_unused(1) [of t "- 1"] by (simp add: attach_poll_def)
  qed
  ultimately show ?thesis by blast
qed

section \<open>Calls that wait\<close>

text \<open>A call that waits for a known block comes back when the daemon gets the steps it needs.\<close>

lemma waiting_served:
  assumes calm: "calm s" and lib: "lib_ok lib" and known: "n \<in> known (ledger_of s)"
  shows "\<exists>k ds t. k \<le> 3 * length (blockQueue s) + 1 \<and>
    run_events (bexec lib) (replicate k (Daemon 0) @ [AttachPoll n]) s = Some (Ok (ds @ [Returns SUCCESS]) t)"
proof -
  obtain ds t where t: "run_events (bexec lib) (replicate (work s) (Daemon 0)) s = Some (Ok ds t)"
      "progressed lib s t" "work t = 0" using daemon_progress [OF calm lib] by blast
  have "calm t" using t(2) by (simp add: progressed_def)
  then have none: "pendings t = []" using work_done t(3) by simp
  have "om_find (blockMap t) n \<noteq> None"
  proof (cases "om_find (blockMap s) n")
    case None
    then obtain p where "p \<in> set (pendings s)" "index_of s p = n"
      using known in_work_hashing [OF calm] by (auto simp: known_ledger)
    then show ?thesis using t(2) none by (auto simp: progressed_def attached_as_def)
  qed (use t(2) in \<open>auto simp: progressed_def\<close>)
  then have "run_events (bexec lib) [AttachPoll n] t = Some (Ok [Returns SUCCESS] t)" by (simp add: attach_poll_def)
  then show ?thesis using run_events_append [OF t(1)] work_bound by blast
qed

section \<open>Properties\<close>

text \<open>
  C14: The database implements the ledger: whatever sequence of calls and daemon steps follows a
  successful \<open>init_blockchain\<close>, without pruning and closing and without calls of \<open>attach_now\<close> and
  \<open>was_added\<close> about the number -1, its answers and the state it ends in are those of a run of the
  specification.
\<close>

theorem session_refines:
  assumes "create_ret lib 1 = 0" and "lib_ok lib" and "list_all (in_contract (- 1)) es"
    and "run_events (bexec lib) (Init # es) initial_chain = Some (Ok cs t)"
  shows "\<exists>cs'. cs = Returns SUCCESS # cs' \<and> spec_run ledger_step ledger_init es cs' (ledger_of t)"
proof -
  obtain u cs' where cs: "cs = Returns SUCCESS # cs'" and run: "run_events (bexec lib) es u = Some (Ok cs' t)"
    and u: "calm u" "numbers_exact u" "traced (- 1) u" and init: "ledger_of u = ledger_init"
    by (rule opened_run [OF assms(1,4)])
  show ?thesis using ledgers.run_refines [OF _ assms(3) run] u assms(2) cs init by auto
qed

theorem session_refines_witness:
  "\<exists>A. spec_run ledger_step ledger_init
     [AddBlock None 0, AddBlock None 0, AttachNow 2, Daemon 0, Daemon 0, ToLongest 1, WasAdded 2, Daemon 0, ChainSize]
     [Returns 1, Returns 2, Waits 2, Steps, Steps, Returns 0, Returns 0, Steps, Returns 1] A \<and>
     l_tree A 2 = Some (0, 1) \<and> l_queue A = [(1, 0, True)]"
proof -
  let ?es = "[AddBlock None 0, AddBlock None 0, AttachNow 2, Daemon 0, Daemon 0, ToLongest 1, WasAdded 2, Daemon 0, ChainSize]"
  let ?t = "bafter (Init # ?es)"
  have r: "run_events (bexec demo_lib) (Init # ?es) initial_chain = Some (Ok
      [Returns 0, Returns 1, Returns 2, Waits 2, Steps, Steps, Returns 0, Returns 0, Steps, Returns 1] ?t)"
    by (simp add: chain_eval)
  have "l_tree (ledger_of ?t) 2 = Some (0, 1)" "l_queue (ledger_of ?t) = [(1, 0, True)]"
    by (simp_all add: ledger_of_def chain_eval blk_def entry_def waiting_def)
  moreover have "create_ret demo_lib 1 = 0" "list_all (in_contract (- 1)) ?es"
    by (simp_all add: demo_lib_def in_contract_def)
  then obtain cs where "[Returns 0, Returns 1, Returns 2, Waits 2, Steps, Steps, Returns 0, Returns 0, Steps, Returns 1]
      = Returns SUCCESS # cs" "spec_run ledger_step ledger_init ?es cs (ledger_of ?t)"
    using session_refines [OF _ demo_lib_ok _ r] by blast
  ultimately show ?thesis by (metis list.inject)
qed

text \<open>
  C18: Numbers are given out without gaps and no block gets lost: in a session the calls of
  \<open>add_block\<close> return 1, 2, 3 and so on, and each of these blocks is attached, queued, or being
  hashed, exactly once; \<open>chain_size\<close> counts those that are attached.
\<close>

theorem numbers_in_order:
  assumes "create_ret lib 1 = 0" and "lib_ok lib" and "list_all session_event es"
    and "run_events (bexec lib) (Init # es) initial_chain = Some (Ok cs t)"
  shows "let N = int (length (filter is_add es)) in
    numbers_of (Init # es) cs = [1..N] \<and>
    sort (map (index_of t) (attached t @ blockQueue t @ hashing t)) = [0..N] \<and>
    chain_size t = N - int (length (blockQueue t @ hashing t))"
proof -
  let ?N = "int (length (filter is_add es))" and ?xs = "map (index_of t) (attached t @ blockQueue t @ hashing t)"
  let ?es = "filter (names_other (- 1)) es"
  obtain cs' ds where cs: "cs = Returns SUCCESS # cs'" "spec_run ledger_step ledger_init ?es ds (ledger_of t)"
      "numbers_of ?es ds = numbers_of es cs'"
    by (rule opened_refines [OF assms])
  have adds: "filter is_add ?es = filter is_add es" by (rule is_add_named)
  have known: "known ledger_init = {0..<1}"
    by (auto simp: known_def ledger_init_def queued_def in_work_def split: if_splits)
  then have num: "numbers_of es cs' = [1..?N]" "known (ledger_of t) = {0..<1 + ?N}"
    using run_numbers [OF cs(2) known] cs(3) adds by simp_all
  have calm: "calm t" by (rule run_calm [OF assms])
  note snd = calm_sound [OF calm]
  have "i \<in> index_of t ` set (attached t) \<longleftrightarrow> om_find (blockMap t) i \<noteq> None" for i
  proof
    assume "i \<in> index_of t ` set (attached t)"
    then obtain p where "p \<in> set (attached t)" "i = index_of t p" by blast
    then show "om_find (blockMap t) i \<noteq> None" using find_attached [OF snd] by blast
  next
    assume "om_find (blockMap t) i \<noteq> None"
    then obtain p where "om_find (blockMap t) i = Some p" by blast
    then show "i \<in> index_of t ` set (attached t)" using attached_find(1,2) [OF snd] by blast
  qed
  then have "index_of t ` set (attached t) = {i. om_find (blockMap t) i \<noteq> None}" by blast
  moreover have "in_work (ledger_of t) = index_of t ` set (hashing t)" by (rule in_work_hashing [OF calm])
  ultimately have "index_of t ` set (attached t) \<union> index_of t ` set (blockQueue t) \<union> index_of t ` set (hashing t)
      = {0..<1 + ?N}" using num(2) unfolding known_ledger by argo
  moreover have "{0..<1 + ?N} = {0..?N}" by auto
  ultimately have "set ?xs = {0..?N}" by (simp only: set_map set_append image_Un Un_assoc)
  moreover have dist: "distinct ?xs" using snd unfolding sound_def numbered_def by blast
  ultimately have sorted: "sort ?xs = [0..?N]"
    by (intro sorted_distinct_set_unique) simp_all
  then have "int (length ?xs) = int (length [0..?N])" by (metis length_sort)
  then have "int (length (blockMap t)) + int (length (blockQueue t @ hashing t)) = ?N + 1" by simp
  then have "chain_size t = ?N - int (length (blockQueue t @ hashing t))"
    using calm by (simp add: chain_size_def calm_def)
  then show ?thesis using num(1) sorted cs(1) by (simp add: Let_def)
qed

theorem numbers_in_order_witness:
  "\<exists>cs t. run_events (bexec demo_lib) [Init, AddBlock None 0, AddBlock None 0, Daemon 0, Daemon 0] initial_chain
       = Some (Ok cs t) \<and>
     numbers_of [Init, AddBlock None 0, AddBlock None 0, Daemon 0, Daemon 0] cs = [1..2] \<and>
     sort (map (index_of t) (attached t @ blockQueue t @ hashing t)) = [0..2]"
proof -
  let ?es = "[AddBlock None 0, AddBlock None 0, Daemon 0, Daemon 0]"
  obtain cs t where r: "run_events (bexec demo_lib) (Init # ?es) initial_chain = Some (Ok cs t)"
    by (simp add: chain_eval)
  have "create_ret demo_lib 1 = 0" "list_all session_event ?es" by (simp_all add: demo_lib_def)
  note * = numbers_in_order [OF this(1) demo_lib_ok this(2) r]
  have "int (length (filter is_add ?es)) = 2" by simp
  then show ?thesis using * r unfolding Let_def by metis
qed

text \<open>
  C20: In a session no call throws or uses freed memory, whatever calls and daemon steps come
  before: every sequence of them runs, and the calls that look at the memory of the database come
  back at once. \<open>attach_now\<close> waits in a loop for the daemon; if the number it is called with is not -1, then from
  wherever the session has got to at most three steps of the daemon for each queued block, and one
  more, make its loop end, and it returns 0. (With -1 it never returns: \<open>reserved_number\<close>.)
\<close>

theorem session_safe:
  assumes "create_ret lib 1 = 0" and "lib_ok lib" and "list_all session_event es"
  shows "\<exists>cs t. run_events (bexec lib) (Init # es) initial_chain = Some (Ok cs t) \<and>
    (\<forall>n. n \<noteq> - 1 \<and> (AttachNow n, Waits n) \<in> set (zip (Init # es) cs) \<longrightarrow>
      (\<exists>k ds u. k \<le> 3 * length (blockQueue t) + 1 \<and>
        run_events (bexec lib) (replicate k (Daemon 0) @ [AttachPoll n]) t = Some (Ok (ds @ [Returns SUCCESS]) u)))"
proof -
  obtain cs t where run: "run_events (bexec lib) (Init # es) initial_chain = Some (Ok cs t)"
    using session_runs [OF assms] by blast
  let ?es = "filter (names_other (- 1)) es"
  obtain cs' ds where cs: "cs = Returns SUCCESS # cs'" "spec_run ledger_step ledger_init ?es ds (ledger_of t)"
      "zip ?es ds = filter (names_other (- 1) \<circ> fst) (zip es cs')"
    by (rule opened_refines [OF assms run])
  have "n \<in> known (ledger_of t)" if "n \<noteq> - 1" "(AttachNow n, Waits n) \<in> set (zip (Init # es) cs)" for n
    using run_waits [OF cs(2)] that cs(1,3) by auto
  then show ?thesis using waiting_served [OF run_calm [OF assms run] assms(2)] run by blast
qed

theorem session_safe_witness:
  "\<exists>t k ds u. run_events (bexec demo_lib) [Init, AddBlock None 0, AttachNow 1, ToLongest 1, Daemon 0] initial_chain
       = Some (Ok [Returns 0, Returns 1, Waits 1, Returns 0, Steps] t) \<and> k \<le> 4 \<and>
     run_events (bexec demo_lib) (replicate k (Daemon 0) @ [AttachPoll 1]) t = Some (Ok (ds @ [Returns 0]) u)"
proof -
  let ?es = "[AddBlock None 0, AttachNow 1, ToLongest 1, Daemon 0]"
  have "create_ret demo_lib 1 = 0" "list_all session_event ?es" by (simp_all add: demo_lib_def)
  then obtain cs t where t: "run_events (bexec demo_lib) (Init # ?es) initial_chain = Some (Ok cs t)"
    and served: "\<forall>n. n \<noteq> - 1 \<and> (AttachNow n, Waits n) \<in> set (zip (Init # ?es) cs) \<longrightarrow>
      (\<exists>k ds u. k \<le> 3 * length (blockQueue t) + 1 \<and>
        run_events (bexec demo_lib) (replicate k (Daemon 0) @ [AttachPoll n]) t = Some (Ok (ds @ [Returns SUCCESS]) u))"
    using session_safe [OF _ demo_lib_ok, of ?es] by blast
  have "cs = [Returns 0, Returns 1, Waits 1, Returns 0, Steps] \<and> length (blockQueue t) = 1"
    using t by (auto simp: chain_eval)
  then show ?thesis using t served [rule_format, of 1] by auto
qed

text \<open>
  C15: The chain is immutable: once a block is attached, no later call and no step of the daemon
  takes it out of the map or changes any of its fields (number, father, depth, data, hash), as
  long as the chain is neither pruned nor closed.
\<close>

theorem blocks_immutable:
  assumes "create_ret lib 1 = 0" and "lib_ok lib" and "list_all session_event (es @ es')"
    and "run_events (bexec lib) (Init # es) initial_chain = Some (Ok cs s)"
    and "run_events (bexec lib) es' s = Some (Ok cs' t)"
  shows "\<forall>i p. om_find (blockMap s) i = Some p \<longrightarrow> om_find (blockMap t) i = Some p \<and> bheap t ! p = bheap s ! p"
proof -
  have calm: "calm s" by (rule run_calm [OF assms(1,2) _ assms(4)]) (use assms(3) in simp)
  then have "kept s t" using kept_run [OF calm assms(2) _ assms(5)] assms(3) by simp
  moreover have "calm t" using session.run_invar [where s = s and lib = lib] calm assms(2,3,5) by auto
  ultimately show ?thesis
    using attached_find(3) [OF calm_sound [OF calm]] attached_find(3) [OF calm_sound [of t]]
    unfolding kept_def alive_def blk_def by (metis option.expand)
qed

theorem blocks_immutable_witness:
  "let s = bafter [Init, AddBlock None 0, Daemon 0, Daemon 0, Daemon 0] in
   \<exists>cs t. run_events (bexec demo_lib) [AddBlock None 0, Daemon 0, Daemon 0, Daemon 0] s = Some (Ok cs t) \<and>
     om_find (blockMap s) 1 = Some 1 \<and> om_find (blockMap t) 1 = Some 1 \<and> bheap t ! 1 = bheap s ! 1"
proof -
  let ?es = "[AddBlock None 0, Daemon 0, Daemon 0, Daemon 0]"
  let ?s = "bafter (Init # ?es)"
  obtain cs where s: "run_events (bexec demo_lib) (Init # ?es) initial_chain = Some (Ok cs ?s)"
    by (simp add: chain_eval)
  obtain cs' t where t: "run_events (bexec demo_lib) ?es ?s = Some (Ok cs' t)" by (simp add: chain_eval)
  have f: "om_find (blockMap ?s) 1 = Some 1" by (simp add: chain_eval)
  have "create_ret demo_lib 1 = 0" "list_all session_event (?es @ ?es)" by (simp_all add: demo_lib_def)
  then have "om_find (blockMap t) 1 = Some 1 \<and> bheap t ! 1 = bheap ?s ! 1"
    using blocks_immutable [OF _ demo_lib_ok _ s t] f by blast
  then show ?thesis using t f unfolding Let_def by blast
qed

end
