(* ===== verification/Blockchain_Close.thy ===== *)
theory Blockchain_Close
  imports Blockchain_Spec
begin

text \<open>
  The daemons of a chain that is closed and opened again. \<open>close_chain\<close> does not stop the daemon:
  it ends when it sees \<open>currentlyBlocked\<close>, and \<open>init_blockchain\<close> starts another one in any case. If
  the old daemon has ended, the next session is as safe as the first; if it has not, two daemons
  share the queue, whose test is outside the lock, or one daemon shares it with the closing thread.
\<close>

section \<open>Operations that do not look at the daemons\<close>

text \<open>\<open>framed h m n\<close>: \<open>n\<close> is \<open>m\<close> but for the daemons, which are changed by \<open>h\<close>.\<close>

abbreviation framed :: "(daemon list \<Rightarrow> daemon list) \<Rightarrow> 'a bres \<Rightarrow> 'a bres" where
  "framed h m \<equiv> map_outcome id (daemons_update h) m"

lemma and_then_framed2:
  assumes "\<And>a t. k a (daemons_update h t) = framed h (l a t)"
  shows "and_then (framed h m) k = framed h (and_then m l)"
  using assms by (cases m) simp_all

lemmas and_then_framed = and_then_framed2 [where k = k and l = k for k]

named_theorems framing

lemma updates_framed [framing]:
  "bheap_update f (daemons_update h s) = daemons_update h (bheap_update f s)"
  "blockMap_update f1 (daemons_update h s) = daemons_update h (blockMap_update f1 s)"
  "blockQueue_update f2 (daemons_update h s) = daemons_update h (blockQueue_update f2 s)"
  "vecIndex_update f3 (daemons_update h s) = daemons_update h (vecIndex_update f3 s)"
  "isInitiated_update f4 (daemons_update h s) = daemons_update h (isInitiated_update f4 s)"
  "currentlyBlocked_update f5 (daemons_update h s) = daemons_update h (currentlyBlocked_update f5 s)"
  "isInDaemon_update f6 (daemons_update h s) = daemons_update h (isInDaemon_update f6 s)"
  "g_sizeCounter_update f7 (daemons_update h s) = daemons_update h (g_sizeCounter_update f7 s)"
  "s_mutex_update f8 (daemons_update h s) = daemons_update h (s_mutex_update f8 s)"
  "queueMutex_update f8 (daemons_update h s) = daemons_update h (queueMutex_update f8 s)"
  "closers_update f9 (daemons_update h s) = daemons_update h (closers_update f9 s)"
  "stdout_update f10 (daemons_update h s) = daemons_update h (stdout_update f10 s)"
  "draws_update f11 (daemons_update h s) = daemons_update h (draws_update f11 s)"
  by simp_all

lemma deref_framed [framing]: "deref p (daemons_update h s) = framed h (deref p s)"
  by (simp add: deref_def split: option.split)

lemma map_at_framed [framing]: "map_at i (daemons_update h s) = framed h (map_at i s)"
  by (simp add: map_at_def split: option.split)

lemma upd_block_framed [framing]: "upd_block g p (daemons_update h s) = framed h (upd_block g p s)"
  by (simp add: upd_block_def framing and_then_framed)

lemma delete_block_framed [framing]: "delete_block p (daemons_update h s) = framed h (delete_block p s)"
  by (simp add: delete_block_def framing and_then_framed)

lemma delete_all_framed [framing]: "delete_all ps (daemons_update h s) = framed h (delete_all ps s)"
  by (induction ps arbitrary: s) (simp_all add: framing and_then_framed)

lemma deref_all_framed [framing]: "deref_all ps (daemons_update h s) = framed h (deref_all ps s)"
  by (induction ps arbitrary: s) (simp_all add: framing and_then_framed)

lemma exist_from_framed [framing]:
  "exist_from n i ps (daemons_update h s) = framed h (exist_from n i ps s)"
  by (induction ps arbitrary: i s) (simp_all add: framing and_then_framed)

lemma existBlock_framed [framing]: "existBlock n (daemons_update h s) = framed h (existBlock n s)"
  by (simp add: existBlock_def framing)

lemma pop_from_framed: "pop_from n before ps (daemons_update h s) = framed h (pop_from n before ps s)"
  by (induction ps arbitrary: before s) (simp_all add: framing and_then_framed)

lemma popBlock_framed [framing]: "popBlock n (daemons_update h s) = framed h (popBlock n s)"
  by (simp add: popBlock_def pop_from_framed)

lemma findFather_framed [framing]: "findFather lib (daemons_update h s) = framed h (findFather lib s)"
  by (simp add: findFather_def framing and_then_framed Let_def split: list.split)

lemma hash_begin_framed [framing]: "hash_begin lib p (daemons_update h s) = framed h (hash_begin lib p s)"
  by (simp add: hash_begin_def Let_def framing and_then_framed)

lemma hash_finish_framed [framing]: "hash_finish lib p f (daemons_update h s) = framed h (hash_finish lib p f s)"
  by (simp add: hash_finish_def Let_def framing and_then_framed split: option.split)

lemma addAndHash_framed [framing]: "addAndHash lib b (daemons_update h s) = framed h (addAndHash lib b s)"
  by (simp add: addAndHash_def framing and_then_framed split: option.split)

lemma take_front_framed [framing]: "take_front lib (daemons_update h s) = framed h (take_front lib s)"
  by (simp add: take_front_def framing and_then_framed split: list.split option.split)

lemma drain_round_framed [framing]: "drain_round lib (daemons_update h s) = framed h (drain_round lib s)"
  by (simp add: drain_round_def framing and_then_framed split: list.split option.split)

lemma drain_framed [framing]: "drain lib (daemons_update h s) = framed h (drain lib s)"
proof (induction lib s rule: drain.induct)
  case (1 lib s)
  then show ?case
    by (cases "drain_round lib s") (simp_all add: framing drain.simps [of lib s] drain.simps [of lib "daemons_update h s"])
qed

section \<open>Calls\<close>

lemma init_framed [framing]:
  "init_blockchain lib (daemons_update ((@) ds) s) = map_option (framed ((@) ds)) (init_blockchain lib s)"
  by (simp add: init_blockchain_def Let_def split: sum.split)

lemma add_block_framed [framing]: "add_block lib d n (daemons_update h s) = framed h (add_block lib d n s)"
  by (simp add: add_block_def findMinIdx_def Let_def framing and_then_framed split: sum.split)

lemma to_longest_framed [framing]: "to_longest n (daemons_update h s) = framed h (to_longest n s)"
  by (simp add: to_longest_def framing and_then_framed)

lemma attach_now_framed [framing]: "attach_now n (daemons_update h s) = framed h (attach_now n s)"
  by (simp add: attach_now_def framing and_then_framed split: option.split)

lemma was_added_framed [framing]: "was_added n (daemons_update h s) = framed h (was_added n s)"
  by (simp add: was_added_def framing and_then_framed)

lemma close_chain_framed [framing]: "close_chain lib (daemons_update h s) = framed h (close_chain lib s)"
  by (simp add: close_chain_def Let_def)

lemma close_thread_framed [framing]:
  "closeChainThread lib (daemons_update h s) = map_option (framed h) (closeChainThread lib s)"
  by (simp add: closeChainThread_def framing and_then_framed)

lemma returns_framed [framing]: "returns (framed h m) = framed h (returns m)"
  by (simp add: returns_def and_then_framed)

lemma steps_framed [framing]: "steps (framed h m) = framed h (steps m)"
  by (simp add: steps_def and_then_framed)

section \<open>Threads that have ended\<close>

text \<open>
  \<open>behind ds s\<close>: the state \<open>s\<close> with the daemons \<open>ds\<close> before its own, whose numbers \<open>shifted\<close> adapts.
\<close>

abbreviation behind :: "daemon list \<Rightarrow> chain \<Rightarrow> chain" where
  "behind ds \<equiv> daemons_update ((@) ds)"

fun shifted :: "nat \<Rightarrow> bevent \<Rightarrow> bevent" where
  "shifted n (Daemon i) = Daemon (n + i)"
| "shifted n e = e"

lemma set_daemon_behind [framing]:
  "set_daemon (length ds + i) d (behind ds s) = behind ds (set_daemon i d s)"
  by (simp add: set_daemon_def list_update_append)

lemma daemon_behind:
  "daemonFunction lib (length ds + i) (behind ds s) = map_option (framed ((@) ds)) (daemonFunction lib i s)"
proof (cases "i < length (daemons s)")
  case True
  show ?thesis
  proof (cases "daemons s ! i")
    case DEntered
    then show ?thesis using True
      by (auto simp: daemonFunction_def take_front_framed updates_framed set_daemon_behind
          intro!: and_then_framed2 split: prod.split option.split)
  next
    case (DHashing p f)
    then show ?thesis using True
      by (auto simp: daemonFunction_def hash_finish_framed updates_framed set_daemon_behind
          intro!: and_then_framed2)
  qed (use True in \<open>simp_all add: daemonFunction_def framing\<close>)
qed (simp add: daemonFunction_def)

lemma exec_behind:
  assumes "e \<noteq> PruneChain"
  shows "bexec lib (shifted (length ds) e) (behind ds s) = map_option (framed ((@) ds)) (bexec lib e s)"
proof (cases e)
  case (Daemon i)
  then show ?thesis using daemon_behind [of lib ds i s]
    by (cases "daemonFunction lib i s") (simp_all add: steps_framed)
qed (use assms in \<open>simp_all add: framing attach_poll_def chain_size_def return_on_close_def option.map_comp comp_def\<close>)

interpretation behind: event_embedding "bexec lib" "bexec lib" "shifted (length ds)" "behind ds" "\<lambda>e. e \<noteq> PruneChain"
  for lib ds
  by unfold_locales (rule exec_behind)

section \<open>Opening again\<close>

lemma blk_framed [simp]: "blk (daemons_update h s) = blk s" "alive (daemons_update h s) = alive s"
  by (simp_all add: fun_eq_iff blk_def alive_def)

text \<open>The chain is open, \<open>k\<close> daemons of earlier sessions have ended, and one is left.\<close>

definition alone :: "nat \<Rightarrow> chain \<Rightarrow> bool" where
  "alone k s \<longleftrightarrow> (\<exists>u. s = behind (replicate k DExited) u \<and> calm u)"

lemma behind_none: "behind [] s = s"
  by (cases s) simp

lemma alone_calm: "calm u \<Longrightarrow> alone k (behind (replicate k DExited) u)"
  by (auto simp: alone_def)

text \<open>
  What a session of the chain comes to when other daemons have ended before: it runs, and a call of
  \<open>attach_now\<close> that waits is served if no call names the number \<open>isInDaemon\<close> had at the start.
\<close>

definition well_served :: "hashlib \<Rightarrow> nat \<Rightarrow> chain \<Rightarrow> bevent list \<Rightarrow> bool" where
  "well_served lib k s es \<longleftrightarrow>
     (\<exists>cs t. run_events (bexec lib) (map (shifted k) es) s = Some (Ok cs t) \<and> alone k t \<and>
       (list_all (names_other (isInDaemon s)) es \<longrightarrow>
         (\<forall>n. (AttachNow n, Waits n) \<in> set (zip es cs) \<longrightarrow>
           (\<exists>j ds u. j \<le> 3 * length (blockQueue t) + 1 \<and>
              run_events (bexec lib) (replicate j (Daemon k) @ [AttachPoll n]) t
                = Some (Ok (ds @ [Returns SUCCESS]) u)))))"

lemma alone_served:
  assumes calm: "calm u" and num: "numbers_exact u" and tr: "traced (isInDaemon u) u" and lib: "lib_ok lib"
    and es: "list_all session_event es"
  shows "well_served lib k (behind (replicate k DExited) u) es"
proof -
  let ?b = "behind (replicate k DExited)"
  have emb: "run_events (bexec lib) (map (shifted k) es) (?b v) = Some (Ok cs (?b w))"
    if "list_all (\<lambda>e. e \<noteq> PruneChain) es" "run_events (bexec lib) es v = Some (Ok cs w)" for es v cs w
    using behind.run_embeds [of es lib "replicate k DExited" v] that by simp
  obtain cs v where v: "run_events (bexec lib) es u = Some (Ok cs v)" "calm v"
    using session.run_answers [of u lib es] calm lib es by blast
  have "list_all (\<lambda>e. e \<noteq> PruneChain) es" using es by (auto simp: list_all_iff)
  then have run: "run_events (bexec lib) (map (shifted k) es) (?b u) = Some (Ok cs (?b v))" using emb v(1) by blast
  moreover have "\<exists>j ds w. j \<le> 3 * length (blockQueue (?b v)) + 1 \<and>
      run_events (bexec lib) (replicate j (Daemon k) @ [AttachPoll n]) (?b v) = Some (Ok (ds @ [Returns SUCCESS]) w)"
    if other: "list_all (names_other (isInDaemon (?b u))) es" and n: "(AttachNow n, Waits n) \<in> set (zip es cs)" for n
  proof -
    have "list_all (in_contract (isInDaemon u)) es" using es other by (auto simp: list_all_iff in_contract_def)
    then have "spec_run ledger_step (ledger_of u) es cs (ledger_of v)"
      using ledgers.run_refines [OF _ _ v(1)] calm num tr lib by blast
    then have "n \<in> known (ledger_of v)" using run_waits n by blast
    then obtain j ds w where w: "j \<le> 3 * length (blockQueue v) + 1"
        "run_events (bexec lib) (replicate j (Daemon 0) @ [AttachPoll n]) v = Some (Ok (ds @ [Returns SUCCESS]) w)"
      using waiting_served [OF v(2) lib] by blast
    have "list_all (\<lambda>e. e \<noteq> PruneChain) (replicate j (Daemon 0) @ [AttachPoll n])" by (simp add: list_all_iff)
    from emb [OF this w(2)] show ?thesis using w(1) by (intro exI [of _ j]) (auto simp: map_replicate)
  qed
  ultimately show ?thesis unfolding well_served_def using alone_calm [OF v(2)] by blast
qed

lemma close_and_open:
  assumes calm: "calm s" and lib: "lib_ok lib" and d: "daemons s = [DLoop]" and thread: "\<forall>n. create_ret lib n = 0"
  obtains t where
      "run_events (bexec lib) [CloseChain, Daemon 0, Closer, Init] s
         = Some (Ok [Steps, Steps, Steps, Returns SUCCESS] (behind [DExited] t))"
    and "calm t" and "numbers_exact t" and "traced (isInDaemon t) t"
    and "daemons t = [DLoop]" and "g_sizeCounter t = 0" and "map fst (blockMap t) = [0]"
    and "map snd (stdout t) = map snd (stdout s) @ map (index_of s) (blockQueue s)"
proof -
  have h: "hashing s = []" using d by (simp add: hashing_def)
  have free: "\<not> queueMutex s" and op: "isInitiated s" using calm h by (simp_all add: calm_def cinv_def)
  let ?u = "s\<lparr>currentlyBlocked := True, draws := draws s + 1, closers := Suc (closers s)\<rparr>"
  have close: "close_chain lib s = Ok () ?u" using op thread by (simp add: close_chain_def Let_def)
  obtain u where u: "closeChainThread lib ?u = Some (Ok () u)"
      "\<exists>out. stdout u = stdout s @ out \<and> list_all2 (printed lib s) out (blockQueue s)"
      "cinv u" "\<not> isInitiated u" "\<not> currentlyBlocked u" "\<not> s_mutex u" "daemons u = daemons s" "g_sizeCounter u = 0"
    by (rule calm_close [OF calm lib free])
  have out: "map snd (stdout u) = map snd (stdout s) @ map (index_of s) (blockQueue s)"
    using u(2) printed_numbers by fastforce
  let ?ended = "\<lambda>_. [DExited]" and ?v = "u\<lparr>daemons := []\<rparr>"
  have ends: "daemonFunction lib 0 ?u = Some (Ok () (daemons_update ?ended ?u))"
    using d by (simp add: daemonFunction_def set_daemon_def)
  have drained: "closeChainThread lib (daemons_update ?ended ?u) = Some (Ok () (behind [DExited] ?v))"
    using u(1) by (simp only: close_thread_framed) simp
  have inv: "cinv ?v" using u(3,7) d by (simp add: cinv_def pending_def hashing_def)
  have first: "first_state ?v" using inv u(4,5,8) by (simp add: first_state_def)
  have create: "create_ret lib (draws ?v + 1) = 0" using thread by blast
  obtain g where g: "new_block None 0 (- 1) 0 0 = Inr g" and init: "init_blockchain lib ?v = Some (Ok SUCCESS
      (?v\<lparr>s_mutex := True, draws := draws ?v + 1, daemons := daemons ?v @ [DLoop], bheap := bheap ?v @ [Some g],
        blockMap := [(0, length (bheap ?v))], vecIndex := [0], isInitiated := True\<rparr>))"
    by (rule init_ok [OF inv, of lib]) (use u(4-6) create in simp_all)
  let ?t = "?v\<lparr>s_mutex := True, draws := draws ?v + 1, daemons := daemons ?v @ [DLoop], bheap := bheap ?v @ [Some g],
        blockMap := [(0, length (bheap ?v))], vecIndex := [0], isInitiated := True\<rparr>"
  note opened = ledger_opened [OF first refl init]
  have again: "init_blockchain lib (behind [DExited] ?v) = Some (Ok SUCCESS (behind [DExited] ?t))"
    by (simp only: init_framed init) simp
  show thesis
  proof (rule that)
    show "run_events (bexec lib) [CloseChain, Daemon 0, Closer, Init] s
         = Some (Ok [Steps, Steps, Steps, Returns SUCCESS] (behind [DExited] ?t))"
      using close ends drained again by (simp add: steps_def returns_def)
    show "calm ?t" by (rule init_calm [OF first init])
    show "numbers_exact ?t" "traced (isInDaemon ?t) ?t" using opened by simp_all
  qed (use u out in simp_all)
qed



text \<open>In the second session the number of the last block hashed in the first is reserved.\<close>

lemma reopened_reserved_example:
  "let s = bafter ([Init, AddBlock None 0] @ replicate 3 (Daemon 0) @ [CloseChain, Daemon 0, Closer, Init])
   in isInDaemon s = 1 \<and> map fst (blockMap s) = [0] \<and> attach_now 1 s = Ok (Waits 1) s \<and> was_added 1 s = Ok NOT_FOUND s"
  by (simp add: chain_eval eval_nat_numeral)

section \<open>Daemons that have not ended\<close>

text \<open>
  A daemon tests whether the queue is empty before it takes the lock. When the closing thread
  empties the queue in between, the daemon takes the front of an empty vector.
\<close>

lemma take_front_empty: "blockQueue s = [] \<Longrightarrow> take_front lib s = Faults OutOfRange"
  by (simp add: take_front_def)

lemma daemon_empty:
  assumes "i < length (daemons s)" and "daemons s ! i = DEntered" and "\<not> queueMutex s" and "blockQueue s = []"
  shows "daemonFunction lib i s = Some (Faults OutOfRange)"
  using assms by (simp add: daemonFunction_def take_front_empty)

lemma closing_crashes_daemon:
  assumes "breachable lib s" and "lib_ok lib" and "i < length (daemons s)" and "daemons s ! i = DEntered"
    and "closeChainThread lib s = Some (Ok u t)"
  shows "run_events (bexec lib) [Closer, Daemon i] s = Some (Faults OutOfRange)"
proof -
  have inv: "cinv s" by (rule breachable_cinv [OF assms(1,2)])
  have shuf: "shuffles lib" using assms(2) by (simp add: lib_ok_def)
  note t = close_thread_ok [OF inv shuf assms(5)]
  have "blockQueue t = []" "hashing t = []" using cinvD(1) [OF t(1)] t(2) by (simp_all add: sound_def opened_def)
  moreover from this have "\<not> queueMutex t" using t(1) by (simp add: cinv_def)
  ultimately have "daemonFunction lib i t = Some (Faults OutOfRange)"
    using t(7) assms(3,4) by (intro daemon_empty) simp_all
  then show ?thesis using assms(5) by (simp add: steps_def)
qed

lemma closing_crashes_daemon_example:
  "run_events (bexec demo_lib) [Init, AddBlock None 0, Daemon 0, CloseChain, Closer, Daemon 0] initial_chain
    = Some (Faults OutOfRange)"
  by (simp add: chain_eval)

text \<open>
  A daemon that does not look while the chain closes goes on in the next session. The two of them
  then find the same block, and the one that gets the lock second takes the front of an empty queue.
\<close>

lemma two_daemons:
  assumes inv: "cinv s" and lib: "lib_ok lib" and open_: "\<not> currentlyBlocked s" and free: "\<not> queueMutex s"
    and q: "blockQueue s = [p]" and d: "daemons s = [DLoop, DLoop]"
  shows "run_events (bexec lib) [Daemon 0, Daemon 1, Daemon 0, Daemon 0, Daemon 1] s = Some (Faults OutOfRange)"
proof -
  have shuf: "shuffles lib" using lib by (simp add: lib_ok_def)
  let ?s = "s\<lparr>daemons := [DEntered, DEntered]\<rparr>"
  have e: "run_events (bexec lib) [Daemon 0, Daemon 1] s = Some (Ok [Steps, Steps] ?s)"
    using open_ q d by (simp add: daemonFunction_def set_daemon_def steps_def)
  have inv': "cinv ?s" using inv d by (simp add: cinv_def pending_def hashing_def)
  obtain f t where t: "daemonFunction lib 0 ?s = Some (Ok () (set_daemon 0 (DHashing p f) (t\<lparr>queueMutex := True\<rparr>)))"
      "same_rest (?s\<lparr>blockQueue := []\<rparr>) t" "cinv (set_daemon 0 (DHashing p f) (t\<lparr>queueMutex := True\<rparr>))"
    by (rule daemon_take_ok [OF inv' shuf, of 0 p "[]"]) (use q free in simp_all)
  let ?t = "set_daemon 0 (DHashing p f) (t\<lparr>queueMutex := True\<rparr>)"
  have dt: "daemons ?t = [DHashing p f, DEntered]" "blockQueue ?t = []" using t(2) by (simp_all add: same_rest_def)
  obtain u where u: "daemonFunction lib 0 ?t = Some (Ok () (set_daemon 0 DLoop
       (u\<lparr>g_sizeCounter := g_sizeCounter ?t + 1, queueMutex := False\<rparr>)))" "same_rest ?t u"
    by (rule daemon_finish_ok [OF t(3), of 0 p f lib]) (use dt in simp_all)
  let ?u = "set_daemon 0 DLoop (u\<lparr>g_sizeCounter := g_sizeCounter ?t + 1, queueMutex := False\<rparr>)"
  have "daemonFunction lib 1 ?u = Some (Faults OutOfRange)"
    by (rule daemon_empty) (use u(2) dt in \<open>simp_all add: same_rest_def\<close>)
  then have "run_events (bexec lib) [Daemon 0, Daemon 0, Daemon 1] ?s = Some (Faults OutOfRange)"
    using t(1) u(1) by (simp add: steps_def)
  then show ?thesis using e by (auto split: option.splits outcome.splits)
qed

lemma survivor_crashes_example:
  "run_events (bexec demo_lib) ([Init, CloseChain, Closer, Init, AddBlock None 0] @
     [Daemon 0, Daemon 1, Daemon 0, Daemon 0, Daemon 1]) initial_chain = Some (Faults OutOfRange)"
  by (simp add: chain_eval eval_nat_numeral)

section \<open>A closed chain\<close>

text \<open>
  A closed chain stays closed until \<open>init_blockchain\<close> is called. A call of \<open>attach_now\<close> that waits
  when the chain is closed goes on waiting: the loop in it tests the map only.
\<close>

lemma closed_exec:
  assumes inv: "cinv s" and closed: "\<not> isInitiated s" and lib: "lib_ok lib" and e: "e \<noteq> Init"
    and ex: "bexec lib e s = Some (Ok c t)"
  shows "\<not> isInitiated t"
proof (cases e)
  case (Daemon i)
  have quiet: "hashing s = []" "blockQueue s = []" using cinvD(1) [OF inv] closed by (simp_all add: sound_def opened_def)
  obtain u where u: "daemonFunction lib i s = Some (Ok u t)"
    using ex Daemon by (auto simp: steps_def and_then_eq_Ok_iff)
  then have i: "i < length (daemons s)" by (auto simp: daemonFunction_def split: if_splits)
  then have "held (daemons s ! i) = []" using quiet(1) by (auto simp: hashing_def)
  then show ?thesis using u i closed quiet(2)
    by (cases "daemons s ! i") (auto simp: daemonFunction_def take_front_empty split: if_splits)
next
  case Closer
  have "shuffles lib" using lib by (simp add: lib_ok_def)
  then show ?thesis using ex Closer close_thread_ok(2) [OF inv]
    by (auto simp: steps_def and_then_eq_Ok_iff)
qed (use ex e closed in \<open>auto simp: returns_def steps_def add_block_def to_longest_def attach_now_def attach_poll_def
    was_added_def prune_chain_def close_chain_def split: if_splits\<close>)

interpretation closed: event_invar "bexec lib" "\<lambda>s. cinv s \<and> lib_ok lib \<and> \<not> isInitiated s" "\<lambda>e. e \<noteq> Init" for lib
  by unfold_locales (use bexec_inv closed_exec in \<open>auto simp: lib_ok_def\<close>)

lemma waiting_for_closed:
  assumes "breachable lib s" and "lib_ok lib" and "\<not> isInitiated s"
    and "Init \<notin> set es" and "run_events (bexec lib) es s = Some (Ok cs t)"
  shows "attach_poll n t = Ok (Waits n) t"
proof -
  have "cinv s" by (rule breachable_cinv [OF assms(1,2)])
  then have "cinv t \<and> lib_ok lib \<and> \<not> isInitiated t"
    using closed.run_invar [of s lib es cs t] assms by (auto simp: list_all_iff)
  then have "blockMap t = []" using cinvD(1) [of t] by (simp add: sound_def opened_def)
  then show ?thesis by (simp add: attach_poll_def)
qed

lemma waiting_for_closed_example:
  "let s = bafter [Init, AddBlock None 0, AttachNow 1, CloseChain, Closer] in
   attach_poll 1 s = Ok (Waits 1) s"
proof -
  let ?s = "bafter [Init, AddBlock None 0, AttachNow 1, CloseChain, Closer]"
  have "\<not> isInitiated ?s" by (simp add: chain_eval)
  then show ?thesis unfolding Let_def
    by (rule waiting_for_closed [OF bafter_reachable demo_lib_ok, of _ "[]"]) simp_all
qed

section \<open>A dropped block\<close>

text \<open>The daemon counts the block it hashed, also when it deleted the block since its father was pruned.\<close>

lemma dropped_counted:
  assumes "breachable lib s" and "lib_ok lib" and "i < length (daemons s)" and "daemons s ! i = DHashing p f"
    and "om_find (blockMap s) f = None"
  shows "\<exists>t. daemonFunction lib i s = Some (Ok () t) \<and> g_sizeCounter t = g_sizeCounter s + 1 \<and>
    blockMap t = blockMap s \<and> \<not> alive t p"
proof -
  have inv: "cinv s" by (rule breachable_cinv [OF assms(1,2)])
  obtain t where t: "daemonFunction lib i s = Some (Ok () (set_daemon i DLoop
       (t\<lparr>g_sizeCounter := g_sizeCounter s + 1, queueMutex := False\<rparr>)))"
      "hash_finish lib p f s = Ok () t" "sound (p # blockQueue s) s"
    by (rule daemon_finish_ok [OF inv assms(3,4), of lib])
  have "alive s p" using pending_not_found(2) [OF t(3), of p] by simp
  then have "t = dropped p s" "p < length (bheap s)"
    using t(2) hash_finish_orphan [OF _ assms(5)] by (simp_all add: alive_def)
  then show ?thesis using t(1) by (auto simp: dropped_def alive_def)
qed

lemma dropped_counted_example:
  "let s = bafter ([Init, AddBlock None 0, AddBlock None 0] @ replicate 6 (Daemon 0) @
     [AddBlock None 0, Daemon 0, Daemon 0, PruneChain, Daemon 0])
   in chain_size s = 3 \<and> map fst (blockMap s) = [0, 2]"
  by (simp add: chain_eval mark_longest.simps eval_nat_numeral)

end
