(* ===== verification/C_Lib.thy ===== *)
theory C_Lib
  imports Prelude "HOL-Library.Signed_Division"
begin

text \<open>
  What ex4 and ex5 use of C and its library: the conversions between integer types, strings that
  end with a null byte in buffers of a fixed size, decimal numbers (\<open>operator<<\<close>, \<open>to_string\<close>,
  \<open>strtol\<close>, \<open>atoi\<close>). The results are those of 64-bit Linux: \<open>atoi\<close> is \<open>strtol\<close> converted to
  \<open>int\<close>, and \<open>strtol\<close> stops at the ends of \<open>long\<close>.
\<close>

section \<open>Integer types\<close>

text \<open>Values of type \<open>int\<close>, \<open>unsigned int\<close> and \<open>size_t\<close>; division is \<open>sdiv\<close>, which rounds to zero.\<close>

definition as_int :: "int \<Rightarrow> int" where
  "as_int x = (x + 2147483648) mod 4294967296 - 2147483648"

definition as_uint :: "int \<Rightarrow> int" where
  "as_uint x = x mod 4294967296"

definition as_size :: "int \<Rightarrow> int" where
  "as_size x = x mod 18446744073709551616"

definition INT_MAX :: int where
  "INT_MAX = 2147483647"

lemma as_int_small: "- 2147483648 \<le> x \<Longrightarrow> x \<le> 2147483647 \<Longrightarrow> as_int x = x"
  by (simp add: as_int_def)

lemma as_int_range: "- 2147483648 \<le> as_int x \<and> as_int x \<le> INT_MAX"
proof -
  have "0 \<le> (x + 2147483648) mod 4294967296" "(x + 2147483648) mod 4294967296 < 4294967296" by simp_all
  then show ?thesis unfolding as_int_def INT_MAX_def by linarith
qed

lemma as_uint_small: "0 \<le> x \<Longrightarrow> x < 4294967296 \<Longrightarrow> as_uint x = x"
  by (simp add: as_uint_def)

lemma as_size_small: "0 \<le> x \<Longrightarrow> x < 18446744073709551616 \<Longrightarrow> as_size x = x"
  by (simp add: as_size_def)

lemma sdiv_nonneg: "0 \<le> a \<Longrightarrow> 0 < b \<Longrightarrow> a sdiv b = a div (b :: int)"
  by (simp add: signed_divide_int_def sgn_if)

section \<open>Strings in buffers\<close>

text \<open>
  The bytes up to the first null byte, as \<open>strlen\<close>, \<open>strcpy\<close> and \<open>operator<<\<close> see them. A buffer
  has a size; \<open>None\<close> are bytes nobody has written.
\<close>

definition c_str :: "string \<Rightarrow> string" where
  "c_str s = takeWhile (\<lambda>c. c \<noteq> CHR 0x00) s"

lemma c_str_id: "CHR 0x00 \<notin> set s \<Longrightarrow> c_str s = s"
  by (auto simp: c_str_def takeWhile_eq_all_conv)

lemma c_str_no_nul: "CHR 0x00 \<notin> set (c_str s)"
  by (auto simp: c_str_def dest: set_takeWhileD)

lemma length_c_str: "length (c_str s) \<le> length s"
  by (simp add: c_str_def length_takeWhile_le)

record cbuf =
  b_size :: nat
  b_text :: "string option"

definition strcpy :: "cbuf \<Rightarrow> string \<Rightarrow> cbuf option" where
  "strcpy b s = (if length s < b_size b then Some (b\<lparr>b_text := Some s\<rparr>) else None)"

section \<open>Decimal numbers\<close>

definition digit :: "nat \<Rightarrow> char" where
  "digit n = char_of (48 + n)"

definition digit_value :: "char \<Rightarrow> int" where
  "digit_value c = int (of_char c) - 48"

definition isdigit :: "char \<Rightarrow> bool" where
  "isdigit c \<longleftrightarrow> 0 \<le> digit_value c \<and> digit_value c \<le> 9"

definition isspace :: "char \<Rightarrow> bool" where
  "isspace c \<longleftrightarrow> c = CHR '' '' \<or> (of_char c :: nat) \<in> {9..13}"

fun nat_text :: "nat \<Rightarrow> string" where
  "nat_text n = (if n < 10 then [digit n] else nat_text (n div 10) @ [digit (n mod 10)])"

declare nat_text.simps [simp del]

definition int_text :: "int \<Rightarrow> string" where
  "int_text x = (if x < 0 then CHR ''-'' # nat_text (nat (- x)) else nat_text (nat x))"

fun digits :: "int \<Rightarrow> string \<Rightarrow> int \<times> string" where
  "digits acc [] = (acc, [])"
| "digits acc (c # cs) = (if isdigit c then digits (10 * acc + digit_value c) cs else (acc, c # cs))"

definition LONG_MAX :: int where
  "LONG_MAX = 9223372036854775807"

definition clamp_long :: "int \<Rightarrow> int" where
  "clamp_long x = max (- LONG_MAX - 1) (min LONG_MAX x)"

text \<open>The number and what follows it; with no digits the number is 0 and everything follows.\<close>

definition strtol :: "string \<Rightarrow> int \<times> string" where
  "strtol s =
     (let t = dropWhile isspace s;
          neg = (t \<noteq> [] \<and> hd t = CHR ''-'');
          u = (if t \<noteq> [] \<and> hd t \<in> {CHR ''-'', CHR ''+''} then tl t else t)
      in if u = [] \<or> \<not> isdigit (hd u) then (0, s)
         else (case digits 0 u of (v, rest) \<Rightarrow> (clamp_long (if neg then - v else v), rest)))"

definition atoi :: "string \<Rightarrow> int" where
  "atoi s = as_int (fst (strtol (c_str s)))"

lemma digit_value_digit [simp]: "n < 10 \<Longrightarrow> digit_value (digit n) = int n"
  by (simp add: digit_value_def digit_def)

lemma isdigit_digit [simp]: "n < 10 \<Longrightarrow> isdigit (digit n)"
  by (simp add: isdigit_def)

lemma digit_not_nul [simp]: "n < 10 \<Longrightarrow> digit n \<noteq> CHR 0x00"
  by (auto dest: arg_cong [where f = digit_value] simp: digit_value_def [of "CHR 0x00"])

lemma isdigit_not_special:
  assumes "isdigit c"
  shows "\<not> isspace c" "c \<noteq> CHR ''-''" "c \<noteq> CHR ''+''" "c \<noteq> CHR 0x00"
  using assms by (auto simp: isdigit_def digit_value_def isspace_def)

lemma digits_append:
  "list_all isdigit xs \<Longrightarrow> digits acc (xs @ ys) = digits (fst (digits acc xs)) ys"
  by (induction xs arbitrary: acc) auto

lemma digits_rest: "snd (digits acc xs) = dropWhile isdigit xs"
  by (induction xs arbitrary: acc) auto

lemma nat_text_digits: "list_all isdigit (nat_text n) \<and> nat_text n \<noteq> []"
proof (induction n rule: nat_text.induct)
  case (1 n)
  then show ?case by (subst (1 2) nat_text.simps) auto
qed

lemma digits_nat_text: "digits 0 (nat_text n) = (int n, [])"
proof (induction n rule: nat_text.induct)
  case (1 n)
  show ?case
  proof (cases "n < 10")
    case True
    then show ?thesis by (simp add: nat_text.simps [of n])
  next
    case False
    then have "digits 0 (nat_text n) = digits (int (n div 10)) [digit (n mod 10)]"
      using 1 digits_append [of "nat_text (n div 10)" 0 "[digit (n mod 10)]"] nat_text_digits
      by (simp add: nat_text.simps [of n])
    moreover have "10 * int (n div 10) + int (n mod 10) = int n" by presburger
    ultimately show ?thesis by simp
  qed
qed

lemma nat_text_no_nul: "CHR 0x00 \<notin> set (nat_text n)"
  using nat_text_digits [of n] isdigit_not_special(4) by (auto simp: list_all_iff)

lemma int_text_no_nul: "CHR 0x00 \<notin> set (int_text x)"
  using nat_text_no_nul by (auto simp: int_text_def)

text \<open>Reading back a number that was printed.\<close>

lemma strtol_unsigned:
  assumes "list_all isdigit u" and "u \<noteq> []"
  shows "strtol u = (clamp_long (fst (digits 0 u)), [])"
proof -
  have hd: "isdigit (hd u)" using assms by (cases u) auto
  then have "dropWhile isspace u = u" using isdigit_not_special(1) assms by (cases u) auto
  moreover have "digits 0 u = (fst (digits 0 u), [])"
    using assms(1) digits_rest [of 0 u] by (simp add: prod_eq_iff list_all_iff)
  ultimately show ?thesis
    using hd assms(2) isdigit_not_special(2,3) [OF hd] by (auto simp: strtol_def split: prod.splits)
qed

lemma strtol_minus:
  assumes "list_all isdigit u" and "u \<noteq> []"
  shows "strtol (CHR ''-'' # u) = (clamp_long (- fst (digits 0 u)), [])"
proof -
  have hd: "isdigit (hd u)" using assms by (cases u) auto
  have "dropWhile isspace (CHR ''-'' # u) = CHR ''-'' # u" by (simp add: isspace_def)
  moreover have "digits 0 u = (fst (digits 0 u), [])"
    using assms(1) digits_rest [of 0 u] by (simp add: prod_eq_iff list_all_iff)
  ultimately show ?thesis using hd assms(2) by (auto simp: strtol_def isspace_def split: prod.splits)
qed

lemma clamp_long_small: "- LONG_MAX - 1 \<le> x \<Longrightarrow> x \<le> LONG_MAX \<Longrightarrow> clamp_long x = x"
  by (simp add: clamp_long_def)

lemma atoi_int_text:
  assumes "- INT_MAX - 1 \<le> x" and "x \<le> INT_MAX"
  shows "atoi (int_text x) = x"
proof -
  have nt: "list_all isdigit (nat_text n)" "nat_text n \<noteq> []" for n using nat_text_digits by auto
  have "fst (strtol (int_text x)) = clamp_long x"
    using strtol_unsigned [OF nt] strtol_minus [OF nt] by (simp add: int_text_def digits_nat_text)
  moreover have "clamp_long x = x" using assms by (intro clamp_long_small) (simp_all add: INT_MAX_def LONG_MAX_def)
  ultimately show ?thesis
    using assms by (simp add: atoi_def c_str_id int_text_no_nul as_int_small INT_MAX_def)
qed

end
