(* ===== verification/Cache_Block.thy ===== *)
theory Cache_Block
  imports C_Lib
begin

text \<open>
  The classes \<open>CacheBlock\<close> and \<open>CacheDir\<close> of \<open>CachingFileSystem.cpp\<close>. A block owns two buffers; the
  one for the data has room for \<open>blockSize\<close> bytes and the null byte, the one for the path is as
  long as the first path that was stored. A write past the end is a fault.
\<close>

section \<open>CacheBlock\<close>

record cache_block =
  cb_path :: "cbuf option"
  cb_data :: cbuf
  cb_blockEnumerator :: int
  cb_counter :: int

definition CacheBlock_new :: "int \<Rightarrow> cache_block" where
  "CacheBlock_new bs =
     \<lparr>cb_path = None, cb_data = \<lparr>b_size = nat (bs + 1), b_text = None\<rparr>, cb_blockEnumerator = 0,
      cb_counter = 0\<rparr>"

definition CacheBlock_with :: "int \<Rightarrow> string \<Rightarrow> string \<Rightarrow> int \<Rightarrow> (unit, cache_block) outcome" where
  "CacheBlock_with bs path data n =
     (case strcpy \<lparr>b_size = nat (bs + 1), b_text = None\<rparr> data of
        None \<Rightarrow> Faults BufferOverflow
      | Some d \<Rightarrow>
          Ok () \<lparr>cb_path = Some \<lparr>b_size = length path + 1, b_text = Some path\<rparr>, cb_data = d,
                 cb_blockEnumerator = n, cb_counter = 1\<rparr>)"

definition CacheBlock_getCounter :: "cache_block \<Rightarrow> int" where
  "CacheBlock_getCounter b = cb_counter b"

definition CacheBlock_setCounter :: "int \<Rightarrow> cache_block \<Rightarrow> cache_block" where
  "CacheBlock_setCounter n b = b\<lparr>cb_counter := n\<rparr>"

definition CacheBlock_getData :: "cache_block \<Rightarrow> string option" where
  "CacheBlock_getData b = b_text (cb_data b)"

definition CacheBlock_setData :: "string \<Rightarrow> cache_block \<Rightarrow> (unit, cache_block) outcome" where
  "CacheBlock_setData data b =
     (case strcpy (cb_data b) data of
        None \<Rightarrow> Faults BufferOverflow
      | Some d \<Rightarrow> Ok () (b\<lparr>cb_data := d\<rparr>))"

definition CacheBlock_increaseCount :: "cache_block \<Rightarrow> cache_block" where
  "CacheBlock_increaseCount b = b\<lparr>cb_counter := cb_counter b + 1\<rparr>"

text \<open>\<open>None\<close> is the null pointer: a path buffer is never left without text.\<close>

definition CacheBlock_getPath :: "cache_block \<Rightarrow> string option" where
  "CacheBlock_getPath b = (case cb_path b of None \<Rightarrow> None | Some p \<Rightarrow> b_text p)"

definition CacheBlock_setPath :: "string \<Rightarrow> cache_block \<Rightarrow> (unit, cache_block) outcome" where
  "CacheBlock_setPath path b =
     (let buf = (case cb_path b of
                   None \<Rightarrow> \<lparr>b_size = length path + 1, b_text = Some ''''\<rparr>
                 | Some p \<Rightarrow> p)
      in case strcpy buf path of
           None \<Rightarrow> Faults BufferOverflow
         | Some p \<Rightarrow> Ok () (b\<lparr>cb_path := Some p\<rparr>))"

definition CacheBlock_getBlockEnumerator :: "cache_block \<Rightarrow> int" where
  "CacheBlock_getBlockEnumerator b = cb_blockEnumerator b"

definition CacheBlock_setBlockEnumerator :: "int \<Rightarrow> cache_block \<Rightarrow> cache_block" where
  "CacheBlock_setBlockEnumerator n b = b\<lparr>cb_blockEnumerator := n\<rparr>"

text \<open>The copy constructor and the assignment write the same members; both read the path and data
  of the other block.\<close>

definition CacheBlock_copy :: "int \<Rightarrow> cache_block \<Rightarrow> (unit, cache_block) outcome" where
  "CacheBlock_copy bs b =
     (case CacheBlock_getPath b of
        None \<Rightarrow> Faults NullDeref
      | Some path \<Rightarrow>
          (case CacheBlock_getData b of
             None \<Rightarrow> Faults UninitRead
           | Some data \<Rightarrow>
               (case strcpy \<lparr>b_size = nat (bs + 1), b_text = Some ''''\<rparr> data of
                  None \<Rightarrow> Faults BufferOverflow
                | Some d \<Rightarrow>
                    Ok () \<lparr>cb_path = Some \<lparr>b_size = length path + 1, b_text = Some path\<rparr>,
                           cb_data = d, cb_blockEnumerator = CacheBlock_getBlockEnumerator b,
                           cb_counter = CacheBlock_getCounter b\<rparr>)))"

text \<open>\<open>updateBlock\<close>: the block gets a new key and new data; \<open>caching_read\<close> then counts the use.\<close>

definition updateBlock :: "string \<Rightarrow> string \<Rightarrow> int \<Rightarrow> cache_block \<Rightarrow> (unit, cache_block) outcome" where
  "updateBlock path data n b =
     and_then (CacheBlock_setData data (CacheBlock_setCounter 0 (CacheBlock_setBlockEnumerator n b)))
       (\<lambda>_. CacheBlock_setPath path)"

section \<open>CacheDir\<close>

record cache_dir =
  d_ptr :: "int option"
  d_entry :: "string option"
  d_offset :: int

definition CacheDir_new :: cache_dir where
  "CacheDir_new = \<lparr>d_ptr = None, d_entry = None, d_offset = 0\<rparr>"

definition CacheDir_setDirPtr :: "int option \<Rightarrow> cache_dir \<Rightarrow> cache_dir" where
  "CacheDir_setDirPtr p d = d\<lparr>d_ptr := p\<rparr>"

definition CacheDir_setEntry :: "string option \<Rightarrow> cache_dir \<Rightarrow> cache_dir" where
  "CacheDir_setEntry e d = d\<lparr>d_entry := e\<rparr>"

definition CacheDir_getDirPtr :: "cache_dir \<Rightarrow> int option" where
  "CacheDir_getDirPtr d = d_ptr d"

definition CacheDir_getEntry :: "cache_dir \<Rightarrow> string option" where
  "CacheDir_getEntry d = d_entry d"

definition CacheDir_getOffset :: "cache_dir \<Rightarrow> int" where
  "CacheDir_getOffset d = d_offset d"

definition CacheDir_setOffset :: "int \<Rightarrow> cache_dir \<Rightarrow> cache_dir" where
  "CacheDir_setOffset i d = d\<lparr>d_offset := i\<rparr>"

lemmas CacheDir_getters [simp] = CacheDir_getDirPtr_def CacheDir_getEntry_def CacheDir_getOffset_def

section \<open>Well-formed blocks\<close>

text \<open>
  A block is empty, with counter 0, or it holds a path and data that fit and has been used.
\<close>

definition block_ok :: "int \<Rightarrow> cache_block \<Rightarrow> bool" where
  "block_ok bs b \<longleftrightarrow>
     int (b_size (cb_data b)) = bs + 1 \<and>
     (case cb_path b of
        None \<Rightarrow> cb_counter b = 0
      | Some p \<Rightarrow>
          1 \<le> cb_counter b \<and> 1 \<le> b_size p \<and>
          (\<exists>path. b_text p = Some path \<and> length path < b_size p) \<and>
          (\<exists>d. b_text (cb_data b) = Some d \<and> int (length d) \<le> bs))"

lemma block_ok_new: "0 < bs \<Longrightarrow> block_ok bs (CacheBlock_new bs)"
  by (simp add: block_ok_def CacheBlock_new_def)

lemma block_ok_counter: "block_ok bs b \<Longrightarrow> 0 \<le> cb_counter b"
  by (auto simp: block_ok_def split: option.splits)

lemma block_ok_empty: "block_ok bs b \<Longrightarrow> CacheBlock_getPath b = None \<longleftrightarrow> cb_counter b = 0"
  by (auto simp: block_ok_def CacheBlock_getPath_def split: option.splits)

lemma block_ok_full:
  assumes "block_ok bs b" and "CacheBlock_getPath b = Some path"
  obtains d where "CacheBlock_getData b = Some d" and "int (length d) \<le> bs" and "1 \<le> cb_counter b"
  using assms by (auto simp: block_ok_def CacheBlock_getPath_def CacheBlock_getData_def split: option.splits)

lemma block_ok_increase:
  "block_ok bs b \<Longrightarrow> CacheBlock_getPath b \<noteq> None \<Longrightarrow> block_ok bs (CacheBlock_increaseCount b)"
  by (auto simp: block_ok_def CacheBlock_getPath_def CacheBlock_increaseCount_def split: option.splits)

lemma increaseCount_simps [simp]:
  "CacheBlock_getPath (CacheBlock_increaseCount b) = CacheBlock_getPath b"
  "CacheBlock_getData (CacheBlock_increaseCount b) = CacheBlock_getData b"
  "cb_blockEnumerator (CacheBlock_increaseCount b) = cb_blockEnumerator b"
  "cb_counter (CacheBlock_increaseCount b) = cb_counter b + 1"
  by (simp_all add: CacheBlock_getPath_def CacheBlock_getData_def CacheBlock_increaseCount_def)

text \<open>\<open>setPath\<close> and \<open>updateBlock\<close> in closed form.\<close>

lemma setPath_Ok_iff:
  "CacheBlock_setPath path b = Ok u t \<longleftrightarrow>
     (case cb_path b of
        None \<Rightarrow> t = b\<lparr>cb_path := Some \<lparr>b_size = length path + 1, b_text = Some path\<rparr>\<rparr>
      | Some p \<Rightarrow> length path < b_size p \<and> t = b\<lparr>cb_path := Some (p\<lparr>b_text := Some path\<rparr>)\<rparr>)"
  by (auto simp: CacheBlock_setPath_def strcpy_def split: option.splits)

lemma setPath_keeps:
  assumes "CacheBlock_setPath path b = Ok u t"
  shows "CacheBlock_getPath t = Some path" "cb_data t = cb_data b"
    "cb_blockEnumerator t = cb_blockEnumerator b" "cb_counter t = cb_counter b"
  using assms by (auto simp: setPath_Ok_iff CacheBlock_getPath_def split: option.splits)

lemma setPath_ok:
  "CacheBlock_setPath path b = Ok u t \<Longrightarrow> block_ok bs b \<Longrightarrow> cb_path b \<noteq> None \<Longrightarrow> block_ok bs t"
  by (auto simp: setPath_Ok_iff block_ok_def split: option.splits)

lemma updateBlock_Ok:
  assumes "updateBlock path data n b = Ok u t"
  shows "CacheBlock_getPath t = Some path" "CacheBlock_getData t = Some data"
    "cb_blockEnumerator t = n" "cb_counter t = 0"
  using assms
  by (auto simp: updateBlock_def and_then_eq_Ok_iff CacheBlock_setData_def CacheBlock_setCounter_def
      CacheBlock_setBlockEnumerator_def CacheBlock_getData_def strcpy_def setPath_Ok_iff
      CacheBlock_getPath_def split: option.splits if_splits)

lemma updateBlock_ok:
  assumes "updateBlock path data n b = Ok u t" and "block_ok bs b"
  shows "block_ok bs (CacheBlock_increaseCount t)"
  using assms
  by (auto simp: updateBlock_def and_then_eq_Ok_iff CacheBlock_setData_def CacheBlock_setCounter_def
      CacheBlock_setBlockEnumerator_def strcpy_def setPath_Ok_iff block_ok_def
      CacheBlock_increaseCount_def split: option.splits if_splits)

text \<open>It goes through when the data fit and the path fits the buffer, if there is one.\<close>

definition path_fits :: "string \<Rightarrow> cache_block \<Rightarrow> bool" where
  "path_fits path b = (case cb_path b of None \<Rightarrow> True | Some p \<Rightarrow> length path < b_size p)"

lemma block_ok_path_fits: "block_ok bs b \<Longrightarrow> CacheBlock_getPath b = Some path \<Longrightarrow> path_fits path b"
  by (auto simp: block_ok_def CacheBlock_getPath_def path_fits_def split: option.splits)

lemma updateBlock_returns:
  assumes "block_ok bs b" and "int (length data) \<le> bs" and "path_fits path b"
  shows "\<exists>t. updateBlock path data n b = Ok () t"
proof -
  have "length data < b_size (cb_data b)" using assms(1,2) by (auto simp: block_ok_def)
  then show ?thesis using assms(3)
    by (auto simp: updateBlock_def CacheBlock_setData_def CacheBlock_setCounter_def
        CacheBlock_setBlockEnumerator_def strcpy_def CacheBlock_setPath_def path_fits_def
        split: option.splits)
qed

end
