(* ===== verification/Caching_FS.thy ===== *)
theory Caching_FS
  imports Cache_Block
begin

text \<open>
  The state and the functions of \<open>CachingFileSystem.cpp\<close>. What the operating system and FUSE do is
  the record \<open>posix\<close>: each call gets the state of the world outside and returns a result, with
  \<open>Inl errno\<close> for -1, and the world after it. A handler returns what FUSE gets to see
  (\<open>fs_reply\<close>). Memory does not run out except where the code tests it (\<open>caching_opendir\<close>).
\<close>

section \<open>Calls outside the repository\<close>

record statbuf =
  st_size :: int
  st_isdir :: bool

record 'w posix =
  sys_log_open :: "string \<Rightarrow> 'w \<Rightarrow> bool \<times> 'w"
  sys_log_write :: "string \<Rightarrow> string \<Rightarrow> 'w \<Rightarrow> bool \<times> 'w"
  sys_log_close :: "string \<Rightarrow> 'w \<Rightarrow> bool \<times> 'w"
  sys_time :: "'w \<Rightarrow> int \<times> 'w"
  sys_stat :: "string \<Rightarrow> 'w \<Rightarrow> (int + statbuf) \<times> 'w"
  sys_lstat :: "string \<Rightarrow> 'w \<Rightarrow> (int + statbuf) \<times> 'w"
  sys_fstat :: "int \<Rightarrow> 'w \<Rightarrow> (int + statbuf) \<times> 'w"
  sys_access :: "string \<Rightarrow> int \<Rightarrow> 'w \<Rightarrow> (int + unit) \<times> 'w"
  sys_open :: "string \<Rightarrow> int \<Rightarrow> 'w \<Rightarrow> (int + int) \<times> 'w"
  sys_pread :: "int \<Rightarrow> int \<Rightarrow> int \<Rightarrow> 'w \<Rightarrow> (int + string) \<times> 'w"
  sys_dup :: "int \<Rightarrow> 'w \<Rightarrow> int \<times> 'w"
  sys_close :: "int \<Rightarrow> 'w \<Rightarrow> (int + unit) \<times> 'w"
  sys_new_dir :: "'w \<Rightarrow> int option \<times> 'w"
  sys_opendir :: "string \<Rightarrow> 'w \<Rightarrow> (int + int) \<times> 'w"
  sys_readdir :: "int \<Rightarrow> 'w \<Rightarrow> (int + string) \<times> 'w"
  sys_filler :: "string \<Rightarrow> 'w \<Rightarrow> int \<times> 'w"
  sys_rename :: "string \<Rightarrow> string \<Rightarrow> 'w \<Rightarrow> (int + unit) \<times> 'w"
  sys_realpath :: "string \<Rightarrow> 'w \<Rightarrow> string option \<times> 'w"

section \<open>State\<close>

text \<open>
  \<open>cacheBlocks\<close> is a vector of pointers, each to a block of its own: \<open>None\<close> is the null pointer.
  \<open>dirs\<close> are the \<open>CacheDir\<close> objects by address. \<open>logLines\<close>, \<open>out\<close> and \<open>err\<close> are what was written.
\<close>

record 'w cfs =
  cacheBlocks :: "cache_block option list"
  blockSize :: int
  numOfBlocks :: int
  rootPath :: "string option"
  logPath :: string
  dirs :: "int \<rightharpoonup> cache_dir"
  logLines :: "string list"
  fs_out :: "string list"
  fs_err :: "string list"
  world :: 'w

definition initial_cfs :: "'w \<Rightarrow> 'w cfs" where
  "initial_cfs w =
     \<lparr>cacheBlocks = [], blockSize = 0, numOfBlocks = 0, rootPath = None, logPath = '''',
      dirs = Map.empty, logLines = [], fs_out = [], fs_err = [], world = w\<rparr>"

definition PATH_MAX :: nat where
  "PATH_MAX = 4096"

definition USAGE_ERROR :: string where
  "USAGE_ERROR = ''usage: CachingFileSystem rootdir mountdir numberOfBlocks blockSize''"

definition ENOENT :: int where
  "ENOENT = 2"

definition ENOMEM :: int where
  "ENOMEM = 12"

datatype fs_reply =
    Reply int
  | ReplyStat int statbuf
  | ReplyHandle int int
  | ReplyData int string
  | ReplyNames int "string list"

text \<open>A call of the system, and an operation on the block a pointer of the vector points to.\<close>

definition syscall :: "('w \<Rightarrow> 'a \<times> 'w) \<Rightarrow> 'w cfs \<Rightarrow> ('a, 'w cfs) outcome" where
  "syscall f s = (case f (world s) of (a, w) \<Rightarrow> Ok a (s\<lparr>world := w\<rparr>))"

definition on_block :: "nat \<Rightarrow> (cache_block \<Rightarrow> ('a, cache_block) outcome) \<Rightarrow> 'w cfs \<Rightarrow> ('a, 'w cfs) outcome" where
  "on_block i f s =
     (if length (cacheBlocks s) \<le> i then Faults OutOfRange
      else case cacheBlocks s ! i of
             None \<Rightarrow> Faults NullDeref
           | Some b \<Rightarrow>
               (case f b of
                  Ok a c \<Rightarrow> Ok a (s\<lparr>cacheBlocks := (cacheBlocks s)[i := Some c]\<rparr>)
                | Exits k c \<Rightarrow> Exits k s
                | Faults e \<Rightarrow> Faults e))"

section \<open>Static functions\<close>

definition getErrorMsg :: "string \<Rightarrow> bool \<Rightarrow> string" where
  "getErrorMsg msg isSystemError =
     (if isSystemError then ''System Error '' @ msg @ [CHR 0x0A] else msg @ [CHR 0x0A])"

definition sys_error :: "string \<Rightarrow> 'w cfs \<Rightarrow> 'w cfs" where
  "sys_error msg s = s\<lparr>fs_err := fs_err s @ [getErrorMsg msg True]\<rparr>"

text \<open>\<open>strncat\<close> appends at most \<open>PATH_MAX\<close> bytes and a null byte, whatever room there is.\<close>

definition fullPath :: "string \<Rightarrow> 'w cfs \<Rightarrow> (string, 'w cfs) outcome" where
  "fullPath path s =
     (case rootPath s of
        None \<Rightarrow> Faults NullDeref
      | Some root \<Rightarrow>
          (let fpath = root @ take PATH_MAX path
           in if PATH_MAX \<le> length fpath then Faults BufferOverflow else Ok fpath s))"

function isInCache_from :: "int \<Rightarrow> string \<Rightarrow> int \<Rightarrow> 'w cfs \<Rightarrow> (int, 'w cfs) outcome" where
  "isInCache_from i path n s =
     (if numOfBlocks s \<le> i then Ok FAIL s
      else if int (length (cacheBlocks s)) \<le> i then Faults OutOfRange
      else case cacheBlocks s ! nat i of
             None \<Rightarrow> Faults NullDeref
           | Some b \<Rightarrow>
               (case CacheBlock_getPath b of
                  None \<Rightarrow> isInCache_from (i + 1) path n s
                | Some p \<Rightarrow>
                    if p = path \<and> CacheBlock_getBlockEnumerator b = n then Ok i s
                    else isInCache_from (i + 1) path n s))"
  by pat_completeness auto

termination
  by (relation "measure (\<lambda>(i, path, n, s). nat (numOfBlocks s - i))") auto

declare isInCache_from.simps [simp del]

definition isInCache :: "string \<Rightarrow> int \<Rightarrow> 'w cfs \<Rightarrow> (int, 'w cfs) outcome" where
  "isInCache path n s = isInCache_from 0 path n s"

function searchMin_from :: "int \<Rightarrow> int \<Rightarrow> int \<Rightarrow> 'w cfs \<Rightarrow> (int, 'w cfs) outcome" where
  "searchMin_from i minCount indexOfMin s =
     (if numOfBlocks s \<le> i then Ok indexOfMin s
      else if int (length (cacheBlocks s)) \<le> i then Faults OutOfRange
      else case cacheBlocks s ! nat i of
             None \<Rightarrow> Faults NullDeref
           | Some b \<Rightarrow>
               if CacheBlock_getCounter b < minCount
               then searchMin_from (i + 1) (CacheBlock_getCounter b) i s
               else searchMin_from (i + 1) minCount indexOfMin s)"
  by pat_completeness auto

termination
  by (relation "measure (\<lambda>(i, m, k, s). nat (numOfBlocks s - i))") auto

declare searchMin_from.simps [simp del]

definition searchMinCounter :: "'w cfs \<Rightarrow> (int, 'w cfs) outcome" where
  "searchMinCounter s = searchMin_from 0 INT_MAX 0 s"

definition writeToLog :: "'w posix \<Rightarrow> string \<Rightarrow> bool \<Rightarrow> 'w cfs \<Rightarrow> int \<times> 'w cfs" where
  "writeToLog ps str isTimeNeeded s =
     (case sys_log_open ps (logPath s) (world s) of
        (False, w) \<Rightarrow> (FAIL, sys_error ''can't open log file'' (s\<lparr>world := w\<rparr>))
      | (True, w) \<Rightarrow>
          (case (if isTimeNeeded then sys_time ps w else (0, w)) of
             (t, w1) \<Rightarrow>
               (let line = (if isTimeNeeded then int_text t @ '' '' else '''') @ str
                in case sys_log_write ps (logPath s) (line @ [CHR 0x0A]) w1 of
                     (False, w2) \<Rightarrow> (FAIL, sys_error ''Write to log error'' (s\<lparr>world := w2\<rparr>))
                   | (True, w2) \<Rightarrow>
                       (case sys_log_close ps (logPath s) w2 of
                          (False, w3) \<Rightarrow>
                            (FAIL, sys_error ''can't close log file''
                                     (s\<lparr>world := w3, logLines := logLines s @ [line]\<rparr>))
                        | (True, w3) \<Rightarrow> (SUCCESS, s\<lparr>world := w3, logLines := logLines s @ [line]\<rparr>)))))"

text \<open>The handlers log their name and ignore whether that worked.\<close>

definition log_call :: "'w posix \<Rightarrow> string \<Rightarrow> 'w cfs \<Rightarrow> 'w cfs" where
  "log_call ps name s = snd (writeToLog ps name True s)"

section \<open>Files\<close>

definition caching_getattr :: "'w posix \<Rightarrow> string \<Rightarrow> 'w cfs \<Rightarrow> (fs_reply, 'w cfs) outcome" where
  "caching_getattr ps path s =
     and_then (fullPath path (log_call ps ''getattr'' s))
       (\<lambda>fpath s.
          if fpath = logPath s then Ok (Reply (- ENOENT)) s
          else and_then (syscall (sys_lstat ps fpath) s)
                 (\<lambda>r. case r of Inl e \<Rightarrow> Ok (Reply (- e)) | Inr st \<Rightarrow> Ok (ReplyStat 0 st)))"

text \<open>A file handle is an \<open>uint64_t\<close>; a call that takes a descriptor converts it.\<close>

definition caching_fgetattr :: "'w posix \<Rightarrow> int \<Rightarrow> 'w cfs \<Rightarrow> (fs_reply, 'w cfs) outcome" where
  "caching_fgetattr ps fh s =
     and_then (syscall (sys_fstat ps (as_int fh)) (log_call ps ''fgetattr'' s))
       (\<lambda>r. case r of Inl e \<Rightarrow> Ok (Reply (- e)) | Inr st \<Rightarrow> Ok (ReplyStat 0 st))"

definition caching_access :: "'w posix \<Rightarrow> string \<Rightarrow> int \<Rightarrow> 'w cfs \<Rightarrow> (fs_reply, 'w cfs) outcome" where
  "caching_access ps path amode s =
     and_then (fullPath path (log_call ps ''access'' s))
       (\<lambda>fpath s. and_then (syscall (sys_access ps fpath amode) s)
          (\<lambda>r. case r of Inl e \<Rightarrow> Ok (Reply (- e)) | Inr _ \<Rightarrow> Ok (Reply 0)))"

definition caching_open :: "'w posix \<Rightarrow> string \<Rightarrow> int \<Rightarrow> 'w cfs \<Rightarrow> (fs_reply, 'w cfs) outcome" where
  "caching_open ps path flags s =
     and_then (fullPath path (log_call ps ''open'' s))
       (\<lambda>fpath s. and_then (syscall (sys_open ps fpath flags) s)
          (\<lambda>r. case r of Inl e \<Rightarrow> Ok (Reply (- e)) | Inr fd \<Rightarrow> Ok (ReplyHandle 0 fd)))"

text \<open>
  \<open>caching_read\<close>. The bound of its loop: \<open>?:\<close> binds weaker than \<open>+\<close> and \<open>>\<close>, so what is tested is
  \<open>offset\<close> plus a truth value; the branches have type \<open>size_t\<close>.
\<close>

definition read_bound :: "int \<Rightarrow> int \<Rightarrow> int \<Rightarrow> int \<Rightarrow> int" where
  "read_bound bs offset sz st =
     as_int ((if offset + (if st < as_uint (offset + sz) then 1 else 0) \<noteq> 0
              then as_size (st - offset) else sz) div bs)"

record rvars =
  r_advOffset :: int
  r_sizeLeftToRead :: int
  r_sizeToRead :: int
  r_finish :: bool
  r_data :: string

text \<open>A round ends the call or has block \<open>i\<close> of the cache to go on with.\<close>

datatype read_step = Done fs_reply | Got int rvars

definition copy_out :: "nat \<Rightarrow> string \<Rightarrow> 'w cfs \<Rightarrow> (fs_reply, 'w cfs) outcome" where
  "copy_out cap data s =
     (if length data < cap then Ok (ReplyData (as_int (int (length data))) data) s
      else Faults BufferOverflow)"

definition read_miss :: "'w posix \<Rightarrow> string \<Rightarrow> int \<Rightarrow> nat \<Rightarrow> rvars \<Rightarrow> 'w cfs \<Rightarrow> (read_step, 'w cfs) outcome" where
  "read_miss ps path fh cap v s =
     (let n = (if r_sizeLeftToRead v < blockSize s then r_sizeLeftToRead v else r_sizeToRead v)
      in and_then (syscall (sys_pread ps (as_int fh) n (r_advOffset v)) s)
           (\<lambda>r s. case r of
              Inl e \<Rightarrow> Ok (Done (Reply (- e))) (sys_error ''Problem in reading'' s)
            | Inr bytes \<Rightarrow>
                if blockSize s < int (length bytes) then Faults BufferOverflow
                else if bytes = [] then
                  and_then (copy_out cap (r_data v) s) (\<lambda>a. Ok (Done a))
                else
                  and_then (searchMinCounter s)
                    (\<lambda>i s. and_then
                       (on_block (nat i)
                          (updateBlock path (c_str bytes)
                             (as_int (r_advOffset v sdiv blockSize s + 1))) s)
                       (\<lambda>_. Ok (Got i
                          (v\<lparr>r_sizeToRead := n,
                             r_sizeLeftToRead := as_size (r_sizeLeftToRead v - int (length bytes)),
                             r_finish := (r_finish v \<or> int (length bytes) < blockSize s)\<rparr>))))))"

definition use_block :: "cache_block \<Rightarrow> (string, cache_block) outcome" where
  "use_block b =
     (case CacheBlock_getData (CacheBlock_increaseCount b) of
        None \<Rightarrow> Faults UninitRead
      | Some d \<Rightarrow> Ok d (CacheBlock_increaseCount b))"

definition read_round :: "'w posix \<Rightarrow> string \<Rightarrow> int \<Rightarrow> nat \<Rightarrow> int \<Rightarrow> rvars \<Rightarrow> 'w cfs
    \<Rightarrow> (read_step, 'w cfs) outcome" where
  "read_round ps path fh cap offset v s =
     and_then (isInCache path (r_advOffset v sdiv blockSize s + 1) s)
       (\<lambda>i s. and_then (if i = FAIL then read_miss ps path fh cap v s else Ok (Got i v) s)
          (\<lambda>r s. case r of
             Done a \<Rightarrow> Ok (Done a) s
           | Got i v \<Rightarrow>
               and_then (on_block (nat i) use_block s)
                 (\<lambda>d. Ok (Got i
                    (v\<lparr>r_data := r_data v @ d,
                       r_advOffset := offset + int (length (r_data v @ d))\<rparr>)))))"

function read_loop :: "'w posix \<Rightarrow> string \<Rightarrow> int \<Rightarrow> nat \<Rightarrow> int \<Rightarrow> int \<Rightarrow> int \<Rightarrow> rvars \<Rightarrow> 'w cfs
    \<Rightarrow> (fs_reply, 'w cfs) outcome" where
  "read_loop ps path fh cap offset bound i v s =
     (if r_finish v \<or> bound < i then copy_out cap (r_data v) s
      else case read_round ps path fh cap offset v s of
             Ok (Done a) t \<Rightarrow> Ok a t
           | Ok (Got _ w) t \<Rightarrow> read_loop ps path fh cap offset bound (i + 1) w t
           | Exits c t \<Rightarrow> Exits c t
           | Faults e \<Rightarrow> Faults e)"
  by pat_completeness auto

termination
  by (relation "measure (\<lambda>(ps, path, fh, cap, offset, bound, i, v, s). nat (bound + 1 - i))") auto

declare read_loop.simps [simp del]

text \<open>\<open>cap\<close> is the size of the buffer FUSE hands in. An \<open>fstat\<close> that fails leaves \<open>s\<close> unset.\<close>

definition caching_read :: "'w posix \<Rightarrow> string \<Rightarrow> nat \<Rightarrow> int \<Rightarrow> int \<Rightarrow> int \<Rightarrow> 'w cfs
    \<Rightarrow> (fs_reply, 'w cfs) outcome" where
  "caching_read ps path cap sz offset fh s =
     and_then (fullPath path (log_call ps ''read'' s))
       (\<lambda>_ s. and_then (caching_fgetattr ps fh s)
          (\<lambda>r s. case r of
             ReplyStat _ st \<Rightarrow>
               read_loop ps path fh cap offset (read_bound (blockSize s) offset sz (st_size st))
                 (as_int (offset sdiv blockSize s))
                 \<lparr>r_advOffset = offset, r_sizeLeftToRead = sz, r_sizeToRead = blockSize s,
                  r_finish = False, r_data = ''''\<rparr> s
           | _ \<Rightarrow> Faults UninitRead))"

definition caching_flush :: "'w posix \<Rightarrow> int \<Rightarrow> 'w cfs \<Rightarrow> (fs_reply, 'w cfs) outcome" where
  "caching_flush ps fh s =
     and_then (syscall (sys_dup ps (as_int fh)) (log_call ps ''flush'' s))
       (\<lambda>d s. and_then (syscall (sys_close ps d) s)
          (\<lambda>r s. case r of
             Inl e \<Rightarrow> Ok (Reply (- e)) (sys_error ''Unable to flush'' s)
           | Inr _ \<Rightarrow> Ok (Reply 0) s))"

definition caching_release :: "'w posix \<Rightarrow> int \<Rightarrow> 'w cfs \<Rightarrow> (fs_reply, 'w cfs) outcome" where
  "caching_release ps fh s =
     and_then (syscall (sys_close ps (as_int fh)) (log_call ps ''release'' s))
       (\<lambda>r s. case r of
          Inl e \<Rightarrow> Ok (Reply (- e)) (sys_error ''Unable to release'' s)
        | Inr _ \<Rightarrow> Ok (Reply 0) s)"

section \<open>Directories\<close>

text \<open>After a \<open>bad_alloc\<close> the code goes on with a pointer that was never set.\<close>

definition caching_opendir :: "'w posix \<Rightarrow> string \<Rightarrow> 'w cfs \<Rightarrow> (fs_reply, 'w cfs) outcome" where
  "caching_opendir ps path s =
     and_then (fullPath path (log_call ps ''opendir'' s))
       (\<lambda>fpath s. and_then (syscall (sys_new_dir ps) s)
          (\<lambda>a s. case a of
             None \<Rightarrow> Faults UninitRead
           | Some dir \<Rightarrow>
               and_then (syscall (sys_opendir ps fpath) s)
                 (\<lambda>r s. case r of
                    Inl e \<Rightarrow> Ok (Reply (- e)) (s\<lparr>dirs := (dirs s)(dir := None)\<rparr>)
                  | Inr p \<Rightarrow>
                      Ok (ReplyHandle 0 dir)
                        (s\<lparr>dirs := (dirs s)(dir \<mapsto> CacheDir_setDirPtr (Some p) CacheDir_new)\<rparr>))))"

definition set_entry :: "int \<Rightarrow> string option \<Rightarrow> 'w cfs \<Rightarrow> 'w cfs" where
  "set_entry dir e s = s\<lparr>dirs := (dirs s)(dir := map_option (CacheDir_setEntry e) (dirs s dir))\<rparr>"

text \<open>
  The loop over the entries, with the names handed to \<open>filler\<close>. It is a partial function: a
  directory stream may go on for ever.
\<close>

partial_function (option) readdir_loop :: "'w posix \<Rightarrow> int \<Rightarrow> int \<Rightarrow> string \<Rightarrow> string list \<Rightarrow> 'w cfs
    \<Rightarrow> (fs_reply, 'w cfs) outcome option" where
  "readdir_loop ps dir p name names s =
     (case sys_filler ps name (world s) of
        (full, w) \<Rightarrow>
          if full \<noteq> 0 then Some (Ok (ReplyNames (- ENOMEM) names) (s\<lparr>world := w\<rparr>))
          else
            (case sys_readdir ps p w of
               (r, w1) \<Rightarrow>
                 (case r of
                    Inl e \<Rightarrow> Some (Ok (ReplyNames 0 (names @ [name])) (set_entry dir None (s\<lparr>world := w1\<rparr>)))
                  | Inr next_name \<Rightarrow>
                      readdir_loop ps dir p next_name (names @ [name])
                        (set_entry dir (Some next_name) (s\<lparr>world := w1\<rparr>)))))"

definition caching_readdir :: "'w posix \<Rightarrow> int \<Rightarrow> 'w cfs \<Rightarrow> (fs_reply, 'w cfs) outcome option" where
  "caching_readdir ps fh s =
     (let s = log_call ps ''readdir'' s
      in case dirs s fh of
           None \<Rightarrow> Some (Faults UseAfterFree)
         | Some d \<Rightarrow>
             (case CacheDir_getDirPtr d of
                None \<Rightarrow> Some (Faults NullDeref)
              | Some p \<Rightarrow>
                  (case sys_readdir ps p (world s) of
                     (Inl e, w) \<Rightarrow>
                       Some (Ok (Reply (- e))
                         (sys_error ''Unable to read directory'' (set_entry fh None (s\<lparr>world := w\<rparr>))))
                   | (Inr name, w) \<Rightarrow>
                       readdir_loop ps fh p name [] (set_entry fh (Some name) (s\<lparr>world := w\<rparr>)))))"

text \<open>The address of the object is passed to \<open>close\<close> as if it were a descriptor.\<close>

definition caching_releasedir :: "'w posix \<Rightarrow> int \<Rightarrow> 'w cfs \<Rightarrow> (fs_reply, 'w cfs) outcome" where
  "caching_releasedir ps fh s =
     and_then (syscall (sys_close ps (as_int fh)) (log_call ps ''releasedir'' s))
       (\<lambda>r s. if dirs s fh = None then Faults UseAfterFree
          else case r of
             Inl e \<Rightarrow>
               Ok (Reply (- e))
                 (sys_error ''Unable to release directory'' (s\<lparr>dirs := (dirs s)(fh := None)\<rparr>))
           | Inr _ \<Rightarrow> Ok (Reply 0) (s\<lparr>dirs := (dirs s)(fh := None)\<rparr>))"

section \<open>Rename and the table\<close>

fun rename_blocks :: "string \<Rightarrow> string \<Rightarrow> cache_block option list \<Rightarrow> (unit, cache_block option list) outcome" where
  "rename_blocks path newpath [] = Ok () []"
| "rename_blocks path newpath (None # bs) = Faults NullDeref"
| "rename_blocks path newpath (Some b # bs) =
     (case (if CacheBlock_getPath b = Some path then CacheBlock_setPath newpath b else Ok () b) of
        Ok _ c \<Rightarrow>
          (case rename_blocks path newpath bs of
             Ok u cs \<Rightarrow> Ok u (Some c # cs)
           | Exits k cs \<Rightarrow> Exits k (Some c # cs)
           | Faults e \<Rightarrow> Faults e)
      | Exits k c \<Rightarrow> Exits k (Some c # bs)
      | Faults e \<Rightarrow> Faults e)"

definition caching_rename :: "'w posix \<Rightarrow> string \<Rightarrow> string \<Rightarrow> 'w cfs \<Rightarrow> (fs_reply, 'w cfs) outcome" where
  "caching_rename ps path newpath s =
     and_then (fullPath path (log_call ps ''rename'' s))
       (\<lambda>fpath s. and_then (fullPath newpath s)
          (\<lambda>fnewpath s. and_then (syscall (sys_rename ps fpath fnewpath) s)
             (\<lambda>r s. case r of
                Inl e \<Rightarrow> Ok (Reply (- e)) (sys_error ''Unable to rename'' s)
              | Inr _ \<Rightarrow>
                  (case rename_blocks path newpath (cacheBlocks s) of
                     Ok _ bs \<Rightarrow> Ok (Reply 0) (s\<lparr>cacheBlocks := bs\<rparr>)
                   | Exits k bs \<Rightarrow> Exits k (s\<lparr>cacheBlocks := bs\<rparr>)
                   | Faults e \<Rightarrow> Faults e))))"

definition caching_init :: "'w posix \<Rightarrow> 'w cfs \<Rightarrow> (fs_reply, 'w cfs) outcome" where
  "caching_init ps s =
     (let s = log_call ps ''init'' s
      in Ok (Reply 0)
           (s\<lparr>cacheBlocks := replicate (nat (numOfBlocks s)) (Some (CacheBlock_new (blockSize s)))\<rparr>))"

definition caching_destroy :: "'w posix \<Rightarrow> 'w cfs \<Rightarrow> (fs_reply, 'w cfs) outcome" where
  "caching_destroy ps s = Ok (Reply 0) (log_call ps ''destroy'' s)"

definition table_line :: "string \<Rightarrow> cache_block \<Rightarrow> string" where
  "table_line path b =
     path @ '' '' @ int_text (CacheBlock_getBlockEnumerator b) @ '' '' @
     int_text (CacheBlock_getCounter b)"

fun log_table :: "'w posix \<Rightarrow> cache_block option list \<Rightarrow> 'w cfs \<Rightarrow> (unit, 'w cfs) outcome" where
  "log_table ps [] s = Ok () s"
| "log_table ps (None # bs) s = Faults NullDeref"
| "log_table ps (Some b # bs) s =
     (case CacheBlock_getPath b of
        None \<Rightarrow> log_table ps bs s
      | Some path \<Rightarrow> log_table ps bs (snd (writeToLog ps (table_line path b) False s)))"

definition caching_ioctl :: "'w posix \<Rightarrow> 'w cfs \<Rightarrow> (fs_reply, 'w cfs) outcome" where
  "caching_ioctl ps s =
     (let s = log_call ps ''ioctl'' s
      in and_then (log_table ps (cacheBlocks s) s) (\<lambda>_. Ok (Reply 0)))"

section \<open>The operations FUSE calls, and main\<close>

datatype fs_event =
    Getattr string
  | Access string int
  | Open string int
  | Read string nat int int int
  | Flush int
  | Release int
  | Opendir string
  | Readdir int
  | Releasedir int
  | Rename string string
  | InitFs
  | Destroy
  | Ioctl
  | Fgetattr int

fun fs_exec :: "'w posix \<Rightarrow> fs_event \<Rightarrow> 'w cfs \<Rightarrow> (fs_reply, 'w cfs) outcome option" where
  "fs_exec ps (Getattr path) s = Some (caching_getattr ps path s)"
| "fs_exec ps (Access path amode) s = Some (caching_access ps path amode s)"
| "fs_exec ps (Open path flags) s = Some (caching_open ps path flags s)"
| "fs_exec ps (Read path cap sz offset fh) s = Some (caching_read ps path cap sz offset fh s)"
| "fs_exec ps (Flush fh) s = Some (caching_flush ps fh s)"
| "fs_exec ps (Release fh) s = Some (caching_release ps fh s)"
| "fs_exec ps (Opendir path) s = Some (caching_opendir ps path s)"
| "fs_exec ps (Readdir fh) s = caching_readdir ps fh s"
| "fs_exec ps (Releasedir fh) s = Some (caching_releasedir ps fh s)"
| "fs_exec ps (Rename path newpath) s = Some (caching_rename ps path newpath s)"
| "fs_exec ps InitFs s = Some (caching_init ps s)"
| "fs_exec ps Destroy s = Some (caching_destroy ps s)"
| "fs_exec ps Ioctl s = Some (caching_ioctl ps s)"
| "fs_exec ps (Fgetattr fh) s = Some (caching_fgetattr ps fh s)"

text \<open>
  The table of operations that FUSE gets. FUSE calls a handler only through it, so the events above are
  all there are: each is served by one entry, and each entry that is not null serves one kind.
\<close>

datatype fuse_op =
    Op_getattr | Op_access | Op_open | Op_read | Op_flush | Op_release | Op_opendir
  | Op_readdir | Op_releasedir | Op_rename | Op_init | Op_destroy | Op_ioctl | Op_fgetattr
  | Op_readlink | Op_getdir | Op_mknod | Op_mkdir | Op_unlink | Op_rmdir | Op_symlink
  | Op_link | Op_chmod | Op_chown | Op_truncate | Op_utime | Op_write | Op_statfs | Op_fsync
  | Op_setxattr | Op_getxattr | Op_listxattr | Op_removexattr | Op_fsyncdir | Op_create
  | Op_ftruncate

datatype handler =
    H_getattr | H_access | H_open | H_read | H_flush | H_release | H_opendir
  | H_readdir | H_releasedir | H_rename | H_init | H_destroy | H_ioctl | H_fgetattr

fun init_caching_oper :: "fuse_op \<Rightarrow> handler option" where
  "init_caching_oper Op_getattr = Some H_getattr"
| "init_caching_oper Op_access = Some H_access"
| "init_caching_oper Op_open = Some H_open"
| "init_caching_oper Op_read = Some H_read"
| "init_caching_oper Op_flush = Some H_flush"
| "init_caching_oper Op_release = Some H_release"
| "init_caching_oper Op_opendir = Some H_opendir"
| "init_caching_oper Op_readdir = Some H_readdir"
| "init_caching_oper Op_releasedir = Some H_releasedir"
| "init_caching_oper Op_rename = Some H_rename"
| "init_caching_oper Op_init = Some H_init"
| "init_caching_oper Op_destroy = Some H_destroy"
| "init_caching_oper Op_ioctl = Some H_ioctl"
| "init_caching_oper Op_fgetattr = Some H_fgetattr"
| "init_caching_oper Op_readlink = None"
| "init_caching_oper Op_getdir = None"
| "init_caching_oper Op_mknod = None"
| "init_caching_oper Op_mkdir = None"
| "init_caching_oper Op_unlink = None"
| "init_caching_oper Op_rmdir = None"
| "init_caching_oper Op_symlink = None"
| "init_caching_oper Op_link = None"
| "init_caching_oper Op_chmod = None"
| "init_caching_oper Op_chown = None"
| "init_caching_oper Op_truncate = None"
| "init_caching_oper Op_utime = None"
| "init_caching_oper Op_write = None"
| "init_caching_oper Op_statfs = None"
| "init_caching_oper Op_fsync = None"
| "init_caching_oper Op_setxattr = None"
| "init_caching_oper Op_getxattr = None"
| "init_caching_oper Op_listxattr = None"
| "init_caching_oper Op_removexattr = None"
| "init_caching_oper Op_fsyncdir = None"
| "init_caching_oper Op_create = None"
| "init_caching_oper Op_ftruncate = None"

fun handler_of :: "fs_event \<Rightarrow> handler" where
  "handler_of (Getattr path) = H_getattr"
| "handler_of (Access path amode) = H_access"
| "handler_of (Open path flags) = H_open"
| "handler_of (Read path cap sz offset fh) = H_read"
| "handler_of (Flush fh) = H_flush"
| "handler_of (Release fh) = H_release"
| "handler_of (Opendir path) = H_opendir"
| "handler_of (Readdir fh) = H_readdir"
| "handler_of (Releasedir fh) = H_releasedir"
| "handler_of (Rename path newpath) = H_rename"
| "handler_of InitFs = H_init"
| "handler_of Destroy = H_destroy"
| "handler_of Ioctl = H_ioctl"
| "handler_of (Fgetattr fh) = H_fgetattr"

text \<open>Where a handler is entered.\<close>

fun entry_of :: "handler \<Rightarrow> fuse_op" where
  "entry_of H_getattr = Op_getattr"
| "entry_of H_access = Op_access"
| "entry_of H_open = Op_open"
| "entry_of H_read = Op_read"
| "entry_of H_flush = Op_flush"
| "entry_of H_release = Op_release"
| "entry_of H_opendir = Op_opendir"
| "entry_of H_readdir = Op_readdir"
| "entry_of H_releasedir = Op_releasedir"
| "entry_of H_rename = Op_rename"
| "entry_of H_init = Op_init"
| "entry_of H_destroy = Op_destroy"
| "entry_of H_ioctl = Op_ioctl"
| "entry_of H_fgetattr = Op_fgetattr"

lemma entry_of_unique: "init_caching_oper op = Some h \<longleftrightarrow> op = entry_of h"
proof
  show "init_caching_oper op = Some h \<Longrightarrow> op = entry_of h" by (cases op) auto
  show "op = entry_of h \<Longrightarrow> init_caching_oper op = Some h" by (cases h) simp_all
qed

lemma event_registered: "\<exists>!op. init_caching_oper op = Some (handler_of e)"
  by (simp add: entry_of_unique)

lemma entry_serves: "init_caching_oper op = Some h \<Longrightarrow> \<exists>e. handler_of e = h"
  by (cases op) (auto intro: handler_of.simps)

definition usage :: "'w cfs \<Rightarrow> (string list, 'w cfs) outcome" where
  "usage s = Exits (- 1) (s\<lparr>fs_out := fs_out s @ [getErrorMsg USAGE_ERROR False]\<rparr>)"

text \<open>
  \<open>main\<close> up to the call of \<open>fuse_main\<close>, which it ends with: the value is the argument vector that
  FUSE gets. A \<open>stat\<close> that fails leaves the mode unset, which is read all the same.
\<close>

definition LOG_NAME :: string where
  "LOG_NAME = ''/.filesystem.log''"

definition mount_root :: "'w posix \<Rightarrow> string list \<Rightarrow> 'w cfs \<Rightarrow> (string list, 'w cfs) outcome" where
  "mount_root ps argv s =
     and_then (syscall (sys_realpath ps (argv ! 1)) s)
       (\<lambda>r s. case r of
          None \<Rightarrow> Faults NullDeref
        | Some root \<Rightarrow>
            if PATH_MAX \<le> length (root @ LOG_NAME) then Faults BufferOverflow
            else and_then (syscall (sys_log_open ps (root @ LOG_NAME)) s)
              (\<lambda>_ s. Ok [argv ! 0, argv ! 2, ''-s'']
                 (s\<lparr>rootPath := Some root, logPath := root @ LOG_NAME,
                    cacheBlocks := replicate (nat (numOfBlocks s)) None\<rparr>)))"

definition main_fs :: "'w posix \<Rightarrow> string list \<Rightarrow> 'w cfs \<Rightarrow> (string list, 'w cfs) outcome" where
  "main_fs ps argv s =
     (if length argv \<noteq> 5 then usage s
      else
        let s = s\<lparr>numOfBlocks := atoi (argv ! 3), blockSize := atoi (argv ! 4)\<rparr>
        in if numOfBlocks s \<le> 0 \<or> blockSize s \<le> 0 then usage s
           else and_then (syscall (sys_stat ps (argv ! 1)) s)
             (\<lambda>r1 s. and_then (syscall (sys_stat ps (argv ! 2)) s)
                (\<lambda>r2 s. case r1 of
                   Inl _ \<Rightarrow> Faults UninitRead
                 | Inr st1 \<Rightarrow>
                     if \<not> st_isdir st1 then usage s
                     else case r2 of
                        Inl _ \<Rightarrow> Faults UninitRead
                      | Inr st2 \<Rightarrow> if \<not> st_isdir st2 then usage s else mount_root ps argv s)))"

end
