(* ===== verification/Caching_Inv.thy ===== *)
theory Caching_Inv
  imports Caching_FS
begin

text \<open>
  The invariant of the cache, the two searches in closed form, and that every handler keeps
  the invariant (interpretation \<open>cache\<close> of \<open>event_invar\<close>).
\<close>

section \<open>Invariant\<close>

text \<open>After \<open>caching_init\<close>: one block for each number, every one of them well formed.\<close>

definition cache_inv :: "'w cfs \<Rightarrow> bool" where
  "cache_inv s \<longleftrightarrow>
     0 < blockSize s \<and> 0 < numOfBlocks s \<and> int (length (cacheBlocks s)) = numOfBlocks s \<and>
     (\<forall>b \<in> set (cacheBlocks s). \<exists>c. b = Some c \<and> block_ok (blockSize s) c)"

definition block_at :: "'w cfs \<Rightarrow> nat \<Rightarrow> cache_block" where
  "block_at s i = the (cacheBlocks s ! i)"

definition holds :: "'w cfs \<Rightarrow> nat \<Rightarrow> string \<Rightarrow> int \<Rightarrow> bool" where
  "holds s i path n \<longleftrightarrow>
     CacheBlock_getPath (block_at s i) = Some path \<and> cb_blockEnumerator (block_at s i) = n"

lemma cache_inv_at:
  assumes "cache_inv s" and "i < length (cacheBlocks s)"
  shows "cacheBlocks s ! i = Some (block_at s i)" and "block_ok (blockSize s) (block_at s i)"
  using assms by (force simp: cache_inv_def block_at_def dest: nth_mem)+

lemma cache_inv_cong:
  assumes "cacheBlocks t = cacheBlocks s" "blockSize t = blockSize s" "numOfBlocks t = numOfBlocks s"
  shows "cache_inv t = cache_inv s"
  using assms by (simp add: cache_inv_def)

lemma cache_inv_update:
  assumes "cache_inv s" and "block_ok (blockSize s) c"
  shows "cache_inv (s\<lparr>cacheBlocks := (cacheBlocks s)[i := Some c]\<rparr>)"
  using assms set_update_subset_insert [of "cacheBlocks s" i "Some c"] by (auto simp: cache_inv_def)

text \<open>What logging and errors leave alone.\<close>

definition same_fs :: "'w cfs \<Rightarrow> 'w cfs \<Rightarrow> bool" where
  "same_fs s t \<longleftrightarrow>
     cacheBlocks t = cacheBlocks s \<and> blockSize t = blockSize s \<and> numOfBlocks t = numOfBlocks s \<and>
     rootPath t = rootPath s \<and> logPath t = logPath s \<and> dirs t = dirs s"

lemma same_fs_refl [simp]: "same_fs s s"
  by (simp add: same_fs_def)

lemma same_fs_trans: "same_fs s t \<Longrightarrow> same_fs t u \<Longrightarrow> same_fs s u"
  by (simp add: same_fs_def)

lemma same_fs_updates [simp]:
  "same_fs s (t\<lparr>world := w\<rparr>) = same_fs s t"
  "same_fs s (sys_error m t) = same_fs s t"
  "same_fs s (t\<lparr>logLines := l\<rparr>) = same_fs s t"
  "same_fs s (t\<lparr>world := w, logLines := l\<rparr>) = same_fs s t"
  by (simp_all add: same_fs_def sys_error_def)

lemma writeToLog_same: "same_fs s (snd (writeToLog ps str b s))"
  by (auto simp: writeToLog_def Let_def split: prod.splits bool.splits)

lemma log_call_same: "same_fs s (log_call ps name s)"
  by (simp add: log_call_def writeToLog_same)

lemma log_call_simps [simp]:
  "cacheBlocks (log_call ps name s) = cacheBlocks s"
  "blockSize (log_call ps name s) = blockSize s"
  "numOfBlocks (log_call ps name s) = numOfBlocks s"
  "rootPath (log_call ps name s) = rootPath s"
  "logPath (log_call ps name s) = logPath s"
  "dirs (log_call ps name s) = dirs s"
  using log_call_same [of s ps name] by (simp_all add: same_fs_def)

lemma sys_error_simps [simp]:
  "cacheBlocks (sys_error m s) = cacheBlocks s" "blockSize (sys_error m s) = blockSize s"
  "numOfBlocks (sys_error m s) = numOfBlocks s" "world (sys_error m s) = world s"
  "rootPath (sys_error m s) = rootPath s" "logPath (sys_error m s) = logPath s"
  by (simp_all add: sys_error_def)

lemma cache_inv_same: "same_fs s t \<Longrightarrow> cache_inv t = cache_inv s"
  by (simp add: same_fs_def cache_inv_def)

lemma syscall_Ok: "syscall f s = Ok a t \<longleftrightarrow> (\<exists>w. f (world s) = (a, w) \<and> t = s\<lparr>world := w\<rparr>)"
  by (auto simp: syscall_def split: prod.splits)

lemma fullPath_Ok: "fullPath path s = Ok a t \<Longrightarrow> t = s"
  by (auto simp: fullPath_def Let_def split: option.splits if_splits)

section \<open>The searches\<close>

lemma isInCache_from_result:
  assumes "cache_inv s" and "0 \<le> i" and "i \<le> numOfBlocks s"
    and "\<forall>j < nat i. \<not> holds s j path n"
  shows "\<exists>r. isInCache_from i path n s = Ok r s \<and>
    (r = FAIL \<and> (\<forall>j < length (cacheBlocks s). \<not> holds s j path n) \<or>
     0 \<le> r \<and> r < numOfBlocks s \<and> holds s (nat r) path n \<and> (\<forall>j < nat r. \<not> holds s j path n))"
  using assms
proof (induction "nat (numOfBlocks s - i)" arbitrary: i)
  case 0
  then have "nat i = length (cacheBlocks s)" "numOfBlocks s \<le> i" by (auto simp: cache_inv_def)
  then show ?case using 0 by (simp add: isInCache_from.simps)
next
  case (Suc k)
  then have lt: "i < numOfBlocks s" "nat i < length (cacheBlocks s)" "i < int (length (cacheBlocks s))"
    using Suc.prems(1) by (auto simp: cache_inv_def)
  note at = cache_inv_at [OF Suc.prems(1) lt(2)]
  show ?case
  proof (cases "holds s (nat i) path n")
    case True
    then have "isInCache_from i path n s = Ok i s"
      using lt at by (simp add: isInCache_from.simps holds_def CacheBlock_getBlockEnumerator_def)
    then show ?thesis using True Suc.prems lt by auto
  next
    case False
    then have step: "isInCache_from i path n s = isInCache_from (i + 1) path n s"
      using lt at by (subst isInCache_from.simps)
        (auto simp: holds_def CacheBlock_getBlockEnumerator_def split: option.splits)
    have "\<forall>j < nat (i + 1). \<not> holds s j path n"
      using False Suc.prems by (metis Suc_nat_eq_nat_zadd1 add.commute less_Suc_eq)
    then show ?thesis unfolding step using Suc.prems lt Suc.hyps by (intro Suc.hyps(1)) auto
  qed
qed

lemma isInCache_cases:
  assumes "cache_inv s"
  obtains (miss) "isInCache path n s = Ok FAIL s"
      "\<forall>j < length (cacheBlocks s). \<not> holds s j path n"
  | (hit) i where "isInCache path n s = Ok (int i) s" "i < length (cacheBlocks s)" "holds s i path n"
      "\<forall>j < i. \<not> holds s j path n"
proof -
  obtain r where r: "isInCache path n s = Ok r s"
    and c: "r = FAIL \<and> (\<forall>j < length (cacheBlocks s). \<not> holds s j path n) \<or>
     0 \<le> r \<and> r < numOfBlocks s \<and> holds s (nat r) path n \<and> (\<forall>j < nat r. \<not> holds s j path n)"
    using isInCache_from_result [OF assms, of 0 path n] assms by (auto simp: isInCache_def cache_inv_def)
  show thesis
  proof (cases "r = FAIL")
    case True
    then show thesis using r c miss by simp
  next
    case False
    then have "0 \<le> r" "nat r < length (cacheBlocks s)" using c assms by (auto simp: cache_inv_def)
    then show thesis using hit [of "nat r"] r c False by simp
  qed
qed

text \<open>Two caches of the same shape answer alike; a name that nothing has is not found.\<close>

lemma isInCache_absent:
  assumes "cache_inv s" and "\<forall>j < length (cacheBlocks s). \<not> holds s j path n"
  shows "isInCache path n s = Ok FAIL s"
  by (rule isInCache_cases [OF assms(1), of path n]) (use assms(2) in auto)

lemma isInCache_agree:
  assumes "cache_inv s" and "cache_inv t" and len: "length (cacheBlocks t) = length (cacheBlocks s)"
    and eq: "\<And>j. j < length (cacheBlocks s) \<Longrightarrow> holds t j q n \<longleftrightarrow> holds s j p n"
  shows "\<exists>r. isInCache p n s = Ok r s \<and> isInCache q n t = Ok r t \<and>
    (r = FAIL \<or> 0 \<le> r \<and> nat r < length (cacheBlocks s))"
proof (rule isInCache_cases [OF assms(1), of p n])
  assume "isInCache p n s = Ok FAIL s" "\<forall>j < length (cacheBlocks s). \<not> holds s j p n"
  then show ?thesis using isInCache_absent [OF assms(2), of q n] eq len by auto
next
  fix i assume hit: "isInCache p n s = Ok (int i) s" "i < length (cacheBlocks s)"
    "holds s i p n" "\<forall>j < i. \<not> holds s j p n"
  have "isInCache q n t = Ok (int i) t"
  proof (rule isInCache_cases [OF assms(2), of q n])
    fix j assume j: "isInCache q n t = Ok (int j) t" "j < length (cacheBlocks t)"
      "holds t j q n" "\<forall>k < j. \<not> holds t k q n"
    have "j = i" using j(2-4) hit(2-4) eq len by (metis linorder_neqE_nat less_trans)
    then show ?thesis using j(1) by simp
  qed (use hit eq len in auto)
  then show ?thesis using hit(1,2) by auto
qed

lemma searchMin_from_result:
  assumes "cache_inv s" and "0 \<le> i" and "i \<le> numOfBlocks s" and "0 \<le> k" and "k < numOfBlocks s"
    and "\<forall>j < nat i. m \<le> cb_counter (block_at s j)"
    and "\<forall>j < nat i. j < nat k \<longrightarrow> m < cb_counter (block_at s j)"
    and "k = 0 \<and> m = INT_MAX \<or> k < i \<and> m = cb_counter (block_at s (nat k))"
    and "\<forall>j < length (cacheBlocks s). cb_counter (block_at s j) \<le> INT_MAX"
  shows "\<exists>r. searchMin_from i m k s = Ok r s \<and> 0 \<le> r \<and> r < numOfBlocks s \<and>
    (\<forall>j < length (cacheBlocks s). cb_counter (block_at s (nat r)) \<le> cb_counter (block_at s j)) \<and>
    (\<forall>j < nat r. cb_counter (block_at s (nat r)) < cb_counter (block_at s j))"
  using assms
proof (induction "nat (numOfBlocks s - i)" arbitrary: i m k)
  case 0
  then have "nat i = length (cacheBlocks s)" "numOfBlocks s \<le> i" by (auto simp: cache_inv_def)
  moreover have "nat k < length (cacheBlocks s)" using 0 by (auto simp: cache_inv_def)
  note kl = this
  have le: "cb_counter (block_at s (nat k)) \<le> m" using kl 0 by auto
  moreover have "searchMin_from i m k s = Ok k s" using calculation(2) by (simp add: searchMin_from.simps)
  moreover have "\<forall>j < length (cacheBlocks s). cb_counter (block_at s (nat k)) \<le> cb_counter (block_at s j)"
    using le 0(7) calculation(1) by force
  moreover have "\<forall>j < nat k. cb_counter (block_at s (nat k)) < cb_counter (block_at s j)"
    using le 0(8) kl calculation(1) by (metis order_le_less_trans less_trans)
  ultimately show ?case using 0(5,6) by blast
next
  case (Suc d)
  then have lt: "i < numOfBlocks s" "nat i < length (cacheBlocks s)" "i < int (length (cacheBlocks s))"
    using Suc.prems(1) by (auto simp: cache_inv_def)
  note at = cache_inv_at [OF Suc.prems(1) lt(2)]
  have upto: "j < nat (i + 1) \<longleftrightarrow> j < nat i \<or> j = nat i" for j using Suc.prems(2) by auto
  show ?case
  proof (cases "cb_counter (block_at s (nat i)) < m")
    case True
    then have step: "searchMin_from i m k s = searchMin_from (i + 1) (cb_counter (block_at s (nat i))) i s"
      using lt at by (subst searchMin_from.simps) (simp add: CacheBlock_getCounter_def)
    show ?thesis unfolding step using Suc.prems lt True Suc.hyps(2)
      by (intro Suc.hyps(1)) (force simp: upto)+
  next
    case False
    then have step: "searchMin_from i m k s = searchMin_from (i + 1) m k s"
      using lt at by (subst searchMin_from.simps) (simp add: CacheBlock_getCounter_def)
    show ?thesis unfolding step using Suc.prems lt False Suc.hyps(2)
      by (intro Suc.hyps(1)) (force simp: upto)+
  qed
qed

lemma searchMin_from_range:
  assumes "cache_inv s" and "0 \<le> i" and "0 \<le> k" and "k < numOfBlocks s"
  shows "\<exists>r. searchMin_from i m k s = Ok (int r) s \<and> r < length (cacheBlocks s)"
  using assms
proof (induction "nat (numOfBlocks s - i)" arbitrary: i m k)
  case 0
  then have "searchMin_from i m k s = Ok (int (nat k)) s" by (simp add: searchMin_from.simps)
  moreover have "nat k < length (cacheBlocks s)" using 0 by (auto simp: cache_inv_def)
  ultimately show ?case by blast
next
  case (Suc d)
  then have lt: "i < numOfBlocks s" "nat i < length (cacheBlocks s)" "i < int (length (cacheBlocks s))"
    using Suc.prems(1) by (auto simp: cache_inv_def)
  note at = cache_inv_at [OF Suc.prems(1) lt(2)]
  have "searchMin_from i m k s =
      (if cb_counter (block_at s (nat i)) < m
       then searchMin_from (i + 1) (cb_counter (block_at s (nat i))) i s
       else searchMin_from (i + 1) m k s)"
    using lt at by (subst searchMin_from.simps) (simp add: CacheBlock_getCounter_def)
  then show ?case using Suc.hyps(1) [of "i + 1"] Suc.hyps(2) Suc.prems lt by auto
qed

lemma searchMinCounter_range:
  assumes "cache_inv s"
  obtains i where "searchMinCounter s = Ok (int i) s" and "i < length (cacheBlocks s)"
  using searchMin_from_range [OF assms, of 0 0 INT_MAX] assms
  by (auto simp: searchMinCounter_def cache_inv_def)

section \<open>A round of reading\<close>

lemma on_block_Ok:
  assumes "on_block i f s = Ok a t"
  obtains c where "i < length (cacheBlocks s)" "cacheBlocks s ! i = Some (block_at s i)"
    "f (block_at s i) = Ok a c" "t = s\<lparr>cacheBlocks := (cacheBlocks s)[i := Some c]\<rparr>"
  using assms by (auto simp: on_block_def block_at_def split: if_splits option.splits outcome.splits)

lemma on_block_run:
  assumes "cache_inv s" and "i < length (cacheBlocks s)" and "f (block_at s i) = Ok a c"
  shows "on_block i f s = Ok a (s\<lparr>cacheBlocks := (cacheBlocks s)[i := Some c]\<rparr>)"
  using assms(2,3) cache_inv_at(1) [OF assms(1,2)] by (simp add: on_block_def)

definition read_size :: "rvars \<Rightarrow> 'w cfs \<Rightarrow> int" where
  "read_size v s = (if r_sizeLeftToRead v < blockSize s then r_sizeLeftToRead v else r_sizeToRead v)"

definition after_pread :: "rvars \<Rightarrow> string \<Rightarrow> 'w cfs \<Rightarrow> rvars" where
  "after_pread v bytes s =
     v\<lparr>r_sizeToRead := read_size v s,
       r_sizeLeftToRead := as_size (r_sizeLeftToRead v - int (length bytes)),
       r_finish := (r_finish v \<or> int (length bytes) < blockSize s)\<rparr>"

definition block_number :: "rvars \<Rightarrow> 'w cfs \<Rightarrow> int" where
  "block_number v s = r_advOffset v sdiv blockSize s + 1"

definition append_data :: "int \<Rightarrow> string \<Rightarrow> rvars \<Rightarrow> rvars" where
  "append_data offset d v =
     v\<lparr>r_data := r_data v @ d, r_advOffset := offset + int (length (r_data v @ d))\<rparr>"

lemma copy_out_Ok: "copy_out cap data s = Ok a t \<Longrightarrow> t = s"
  by (simp add: copy_out_def split: if_splits)

lemma read_miss_Ok:
  assumes "read_miss ps path fh cap v s = Ok r t" and "cache_inv s"
  obtains (Done) a where "r = Done a" "same_fs s t"
  | (Got) i bytes w c where "r = Got (int i) (after_pread v bytes s)"
      "sys_pread ps (as_int fh) (read_size v s) (r_advOffset v) (world s) = (Inr bytes, w)"
      "searchMinCounter (s\<lparr>world := w\<rparr>) = Ok (int i) (s\<lparr>world := w\<rparr>)" "i < length (cacheBlocks s)"
      "updateBlock path (c_str bytes) (as_int (block_number v s)) (block_at s i) = Ok () c"
      "t = s\<lparr>world := w, cacheBlocks := (cacheBlocks s)[i := Some c]\<rparr>"
proof -
  obtain res w where p: "sys_pread ps (as_int fh) (read_size v s) (r_advOffset v) (world s) = (res, w)"
    by (cases "sys_pread ps (as_int fh) (read_size v s) (r_advOffset v) (world s)")
  let ?s = "s\<lparr>world := w\<rparr>"
  have inv: "cache_inv ?s" using assms(2) by (simp add: cache_inv_def)
  obtain i where i: "searchMinCounter ?s = Ok (int i) ?s" "i < length (cacheBlocks s)"
    using searchMinCounter_range [OF inv] by auto
  show thesis
  proof (cases res)
    case (Inl e)
    then show thesis using assms(1) p
      by (intro Done) (auto simp: read_miss_def syscall_def read_size_def Let_def)
  next
    case (Inr bytes)
    have *: "read_miss ps path fh cap v s =
        (if blockSize s < int (length bytes) then Faults BufferOverflow
         else if bytes = [] then and_then (copy_out cap (r_data v) ?s) (\<lambda>a. Ok (Done a))
         else and_then (on_block i (updateBlock path (c_str bytes) (as_int (block_number v s))) ?s)
           (\<lambda>_. Ok (Got (int i) (after_pread v bytes s))))"
      using p Inr i by (simp add: read_miss_def syscall_def read_size_def Let_def after_pread_def
          block_number_def cong: if_cong)
    show thesis
    proof (cases "bytes = []")
      case True
      then obtain a where "copy_out cap (r_data v) ?s = Ok a t" "r = Done a"
        using assms(1) by (auto simp: * and_then_eq_Ok_iff split: if_splits)
      then show thesis using copy_out_Ok [of cap "r_data v" ?s a t] by (intro Done [of a]) simp_all
    next
      case False
      then obtain u where u: "on_block i (updateBlock path (c_str bytes) (as_int (block_number v s))) ?s = Ok u t"
        and r: "r = Got (int i) (after_pread v bytes s)"
        using assms(1) by (auto simp: * and_then_eq_Ok_iff split: if_splits)
      obtain c where "updateBlock path (c_str bytes) (as_int (block_number v s)) (block_at s i) = Ok u c"
        "t = s\<lparr>world := w, cacheBlocks := (cacheBlocks s)[i := Some c]\<rparr>"
        using on_block_Ok [OF u] by (auto simp: block_at_def)
      then show thesis using r p Inr i by (intro Got [of i bytes w c]) simp_all
    qed
  qed
qed

lemma use_block_Ok:
  "use_block b = Ok d c \<longleftrightarrow> CacheBlock_getData b = Some d \<and> c = CacheBlock_increaseCount b"
  by (auto simp: use_block_def split: option.splits)

text \<open>
  One round: it ends the call; or a block of the cache is used as it is; or none has the key
  and the one with the least counter is overwritten.
\<close>

lemma read_round_cases:
  assumes "read_round ps path fh cap offset v s = Ok r t" and "cache_inv s"
  obtains (ends) a where "r = Done a" "same_fs s t"
  | (hit) i d where "r = Got (int i) (append_data offset d v)" "i < length (cacheBlocks s)"
      "holds s i path (block_number v s)" "CacheBlock_getData (block_at s i) = Some d"
      "t = s\<lparr>cacheBlocks := (cacheBlocks s)[i := Some (CacheBlock_increaseCount (block_at s i))]\<rparr>"
  | (miss) i bytes w c where
      "r = Got (int i) (append_data offset (c_str bytes) (after_pread v bytes s))"
      "sys_pread ps (as_int fh) (read_size v s) (r_advOffset v) (world s) = (Inr bytes, w)"
      "searchMinCounter (s\<lparr>world := w\<rparr>) = Ok (int i) (s\<lparr>world := w\<rparr>)" "i < length (cacheBlocks s)"
      "\<forall>j < length (cacheBlocks s). \<not> holds s j path (block_number v s)"
      "updateBlock path (c_str bytes) (as_int (block_number v s)) (block_at s i) = Ok () c"
      "t = s\<lparr>world := w, cacheBlocks := (cacheBlocks s)[i := Some (CacheBlock_increaseCount c)]\<rparr>"
proof -
  have fold: "isInCache path (r_advOffset v sdiv blockSize s + 1) s = isInCache path (block_number v s) s"
    by (simp add: block_number_def)
  show thesis
  proof (cases rule: isInCache_cases [OF assms(2), of path "block_number v s"])
    case (2 i)
    then obtain d where
      "on_block i use_block s = Ok d t" "r = Got (int i) (append_data offset d v)"
      using assms(1)
      by (auto simp: read_round_def fold and_then_eq_Ok_iff append_data_def)
    obtain c where "use_block (block_at s i) = Ok d c" "t = s\<lparr>cacheBlocks := (cacheBlocks s)[i := Some c]\<rparr>"
      using on_block_Ok [OF \<open>on_block i use_block s = Ok d t\<close>] by blast
    then show thesis using 2 \<open>r = _\<close> by (intro hit [of i d]) (simp_all add: use_block_Ok)
  next
    case miss: 1
    obtain r1 t1 where m: "read_miss ps path fh cap v s = Ok r1 t1"
      and rest: "(case r1 of
             Done a \<Rightarrow> Ok (Done a) t1
           | Got i v \<Rightarrow>
               and_then (on_block (nat i) use_block t1)
                 (\<lambda>d. Ok (Got i
                    (v\<lparr>r_data := r_data v @ d,
                       r_advOffset := offset + int (length (r_data v @ d))\<rparr>)))) = Ok r t"
      using assms(1) miss(1) by (auto simp: read_round_def fold and_then_eq_Ok_iff)
    show thesis
    proof (cases rule: read_miss_Ok [OF m assms(2)])
      case (1 a)
      then show thesis using rest by (intro that(1) [of a]) simp_all
    next
      case (2 i bytes w c)
      then obtain d where u: "on_block i use_block t1 = Ok d t"
        and r: "r = Got (int i) (append_data offset d (after_pread v bytes s))"
        using rest by (auto simp: and_then_eq_Ok_iff append_data_def)
      have at: "block_at t1 i = c" using 2(4,6) by (simp add: block_at_def)
      obtain e where e: "use_block c = Ok d e"
        "t = t1\<lparr>cacheBlocks := (cacheBlocks t1)[i := Some e]\<rparr>"
        using on_block_Ok [OF u] at by auto
      have "d = c_str bytes" "e = CacheBlock_increaseCount c"
        using e(1) updateBlock_Ok(2) [OF 2(5)] by (auto simp: use_block_Ok)
      then show thesis using 2 r e(2) miss(2) by (intro that(3) [of i bytes w c]) simp_all
    qed
  qed
qed

text \<open>What every kind of round keeps, and with it the loop.\<close>

lemma read_round_keeps:
  assumes "read_round ps path fh cap offset v s = Ok r t" and "cache_inv s"
  shows "cache_inv t" and "blockSize t = blockSize s" and "numOfBlocks t = numOfBlocks s"
    and "rootPath t = rootPath s"
proof -
  have "cache_inv t \<and> blockSize t = blockSize s \<and> numOfBlocks t = numOfBlocks s \<and> rootPath t = rootPath s"
  proof (cases rule: read_round_cases [OF assms])
    case (1 a)
    then show ?thesis using assms(2) by (simp add: same_fs_def cache_inv_def)
  next
    case (2 i d)
    have "block_ok (blockSize s) (CacheBlock_increaseCount (block_at s i))"
      using cache_inv_at(2) [OF assms(2) 2(2)] 2(3) by (intro block_ok_increase) (simp_all add: holds_def)
    then show ?thesis using 2(5) cache_inv_update [OF assms(2)] by simp
  next
    case (3 i bytes w c)
    have "block_ok (blockSize s) (CacheBlock_increaseCount c)"
      by (rule updateBlock_ok [OF 3(6) cache_inv_at(2) [OF assms(2) 3(4)]])
    moreover have "cache_inv (s\<lparr>world := w\<rparr>)" using assms(2) by (simp add: cache_inv_def)
    ultimately show ?thesis using 3(7) cache_inv_update [of "s\<lparr>world := w\<rparr>" "CacheBlock_increaseCount c" i]
      by simp
  qed
  then show "cache_inv t" "blockSize t = blockSize s" "numOfBlocks t = numOfBlocks s"
    "rootPath t = rootPath s" by simp_all
qed

lemma read_loop_Ok_induct:
  assumes "read_loop ps path fh cap offset bound i v s = Ok a t"
    and "P s"
    and "\<And>v s r t. read_round ps path fh cap offset v s = Ok r t \<Longrightarrow> P s \<Longrightarrow> P t"
  shows "P t"
  using assms(1,2)
proof (induction "nat (bound + 1 - i)" arbitrary: i v s rule: less_induct)
  case less
  show ?case
  proof (cases "r_finish v \<or> bound < i")
    case True
    then show ?thesis using less.prems copy_out_Ok [of cap "r_data v" s a t]
      by (auto simp: read_loop.simps)
  next
    case False
    then have eq: "(case read_round ps path fh cap offset v s of
             Ok (Done a) t \<Rightarrow> Ok a t
           | Ok (Got _ w) t \<Rightarrow> read_loop ps path fh cap offset bound (i + 1) w t
           | Exits c t \<Rightarrow> Exits c t
           | Faults e \<Rightarrow> Faults e) = Ok a t"
      using less.prems(1) by (simp add: read_loop.simps)
    then obtain r u where ru: "read_round ps path fh cap offset v s = Ok r u"
      by (auto split: outcome.splits)
    have "P u" by (rule assms(3) [OF ru less.prems(2)])
    then show ?thesis using eq ru False less.hyps [of "i + 1"] by (auto split: read_step.splits)
  qed
qed

end
