(* ===== verification/Caching_Ops.thy ===== *)
theory Caching_Ops
  imports Caching_Inv
begin

text \<open>
  Every handler keeps the invariant of the cache, whatever the system answers. Only \<open>caching_read\<close>,
  \<open>caching_rename\<close> and \<open>caching_init\<close> touch the cache at all.
\<close>

section \<open>Handlers that leave the cache alone\<close>

definition same_cache :: "'w cfs \<Rightarrow> 'w cfs \<Rightarrow> bool" where
  "same_cache s t \<longleftrightarrow>
     cacheBlocks t = cacheBlocks s \<and> blockSize t = blockSize s \<and> numOfBlocks t = numOfBlocks s \<and>
     rootPath t = rootPath s"

lemma same_cache_updates [simp]:
  "same_cache s s"
  "same_cache s (t\<lparr>world := w\<rparr>) = same_cache s t"
  "same_cache s (sys_error m t) = same_cache s t"
  "same_cache s (t\<lparr>dirs := d\<rparr>) = same_cache s t"
  "same_cache s (set_entry k e t) = same_cache s t"
  "same_cache s (log_call ps n t) = same_cache s t"
  by (simp_all add: same_cache_def sys_error_def set_entry_def)

lemma same_cache_trans: "same_cache s t \<Longrightarrow> same_cache t u \<Longrightarrow> same_cache s u"
  by (simp add: same_cache_def)

lemma same_cache_inv: "same_cache s t \<Longrightarrow> cache_inv t = cache_inv s"
  by (simp add: same_cache_def cache_inv_def)

lemma same_fs_cache: "same_fs s t \<Longrightarrow> same_cache s t"
  by (simp add: same_fs_def same_cache_def)

lemma syscall_same: "syscall f s = Ok a t \<Longrightarrow> same_cache s t"
  by (auto simp: syscall_Ok)

lemma fullPath_same: "fullPath path s = Ok a t \<Longrightarrow> same_cache s t"
  using fullPath_Ok [of path s a t] by simp

lemma and_then_same:
  assumes "and_then m k = Ok b t" and "\<And>a u. m = Ok a u \<Longrightarrow> same_cache s u"
    and "\<And>a u. m = Ok a u \<Longrightarrow> k a u = Ok b t \<Longrightarrow> same_cache u t"
  shows "same_cache s t"
  using assms by (auto simp: and_then_eq_Ok_iff intro: same_cache_trans)

lemma and_then_OkE:
  assumes "and_then m k = Ok b t"
  obtains a u where "m = Ok a u" "k a u = Ok b t"
  using assms by (auto simp: and_then_eq_Ok_iff)

lemma caching_getattr_same: "caching_getattr ps path s = Ok a t \<Longrightarrow> same_cache s t"
  unfolding caching_getattr_def
  by (auto simp: syscall_Ok elim!: and_then_OkE dest!: fullPath_Ok
      split: if_split_asm sum.split_asm option.split_asm)

lemma caching_fgetattr_same: "caching_fgetattr ps fh s = Ok a t \<Longrightarrow> same_cache s t"
  unfolding caching_fgetattr_def
  by (auto simp: syscall_Ok elim!: and_then_OkE
      split: if_split_asm sum.split_asm option.split_asm)

lemma caching_access_same: "caching_access ps path m s = Ok a t \<Longrightarrow> same_cache s t"
  unfolding caching_access_def
  by (auto simp: syscall_Ok elim!: and_then_OkE dest!: fullPath_Ok
      split: if_split_asm sum.split_asm option.split_asm)

lemma caching_open_same: "caching_open ps path m s = Ok a t \<Longrightarrow> same_cache s t"
  unfolding caching_open_def
  by (auto simp: syscall_Ok elim!: and_then_OkE dest!: fullPath_Ok
      split: if_split_asm sum.split_asm option.split_asm)

lemma caching_flush_same: "caching_flush ps fh s = Ok a t \<Longrightarrow> same_cache s t"
  unfolding caching_flush_def
  by (auto simp: syscall_Ok elim!: and_then_OkE
      split: if_split_asm sum.split_asm option.split_asm)

lemma caching_release_same: "caching_release ps fh s = Ok a t \<Longrightarrow> same_cache s t"
  unfolding caching_release_def
  by (auto simp: syscall_Ok elim!: and_then_OkE
      split: if_split_asm sum.split_asm option.split_asm)

lemma caching_opendir_same: "caching_opendir ps path s = Ok a t \<Longrightarrow> same_cache s t"
  unfolding caching_opendir_def
  by (auto simp: syscall_Ok elim!: and_then_OkE dest!: fullPath_Ok
      split: if_split_asm sum.split_asm option.split_asm)

lemma caching_releasedir_same: "caching_releasedir ps fh s = Ok a t \<Longrightarrow> same_cache s t"
  unfolding caching_releasedir_def
  by (auto simp: syscall_Ok elim!: and_then_OkE
      split: if_split_asm sum.split_asm option.split_asm)

lemma readdir_loop_same:
  assumes "readdir_loop ps dir p name names s = Some r"
  shows "\<forall>a t. r = Ok a t \<longrightarrow> same_cache s t"
proof (rule readdir_loop.raw_induct
    [where P = "\<lambda>ps dir p name names s r. \<forall>a t. r = Ok a t \<longrightarrow> same_cache s t", OF _ assms], goal_cases)
  case (1 loop ps dir p name names s r)
  show ?case
  proof (intro allI impI)
    fix a t assume r: "r = Ok a t"
    obtain full w where f: "sys_filler ps name (world s) = (full, w)" by fastforce
    show "same_cache s t"
    proof (cases "full = 0")
      case False
      then show ?thesis using 1(2) f r by auto
    next
      case True
      obtain q w1 where q: "sys_readdir ps p w = (q, w1)" by fastforce
      show ?thesis
      proof (cases q)
        case (Inl e)
        then show ?thesis using 1(2) f True q r by auto
      next
        case (Inr n)
        then have "loop ps dir p n (names @ [name]) (set_entry dir (Some n) (s\<lparr>world := w1\<rparr>)) = Some r"
          using 1(2) f True q by simp
        then have "same_cache (set_entry dir (Some n) (s\<lparr>world := w1\<rparr>)) t" using 1(1) r by blast
        then show ?thesis by (rule same_cache_trans [rotated]) simp
      qed
    qed
  qed
qed

lemma caching_readdir_same:
  assumes "caching_readdir ps fh s = Some (Ok a t)"
  shows "same_cache s t"
proof -
  let ?s = "log_call ps ''readdir'' s"
  obtain d p where d: "dirs ?s fh = Some d" "d_ptr d = Some p"
    using assms by (auto simp: caching_readdir_def Let_def split: option.split_asm)
  obtain r w where r: "sys_readdir ps p (world ?s) = (r, w)" by fastforce
  show ?thesis
  proof (cases r)
    case (Inl e)
    then show ?thesis using assms d r by (auto simp: caching_readdir_def Let_def)
  next
    case (Inr n)
    then have "readdir_loop ps fh p n [] (set_entry fh (Some n) (?s\<lparr>world := w\<rparr>)) = Some (Ok a t)"
      using assms d r by (simp add: caching_readdir_def Let_def)
    then have "same_cache (set_entry fh (Some n) (?s\<lparr>world := w\<rparr>)) t"
      using readdir_loop_same by blast
    then show ?thesis by (rule same_cache_trans [rotated]) simp
  qed
qed

lemma log_table_same: "log_table ps bs s = Ok a t \<Longrightarrow> same_cache s t"
proof (induction ps bs s rule: log_table.induct)
  case (3 ps b bs s)
  show ?case
  proof (cases "CacheBlock_getPath b")
    case None
    then show ?thesis using 3 by simp
  next
    case (Some p)
    have "same_cache (snd (writeToLog ps (table_line p b) False s)) t" using 3 Some by simp
    then show ?thesis by (rule same_cache_trans [OF same_fs_cache [OF writeToLog_same]])
  qed
qed auto

lemma caching_ioctl_same:
  assumes "caching_ioctl ps s = Ok a t"
  shows "same_cache s t"
proof -
  have "same_cache (log_call ps ''ioctl'' s) t"
    using assms log_table_same by (auto simp: caching_ioctl_def and_then_eq_Ok_iff)
  then show ?thesis by (rule same_cache_trans [rotated]) simp
qed

section \<open>Read and rename\<close>

lemma caching_read_Ok:
  assumes "caching_read ps path cap sz offset fh s = Ok a t"
  obtains st :: statbuf and u where "same_cache s u"
    "read_loop ps path fh cap offset (read_bound (blockSize u) offset sz (st_size st))
       (as_int (offset sdiv blockSize u))
       \<lparr>r_advOffset = offset, r_sizeLeftToRead = sz, r_sizeToRead = blockSize u,
        r_finish = False, r_data = ''''\<rparr> u = Ok a t"
proof -
  obtain f s1 r u where f: "fullPath path (log_call ps ''read'' s) = Ok f s1"
    and r: "caching_fgetattr ps fh s1 = Ok r u"
    and l: "(case r of
             ReplyStat _ st \<Rightarrow>
               read_loop ps path fh cap offset (read_bound (blockSize u) offset sz (st_size st))
                 (as_int (offset sdiv blockSize u))
                 \<lparr>r_advOffset = offset, r_sizeLeftToRead = sz, r_sizeToRead = blockSize u,
                  r_finish = False, r_data = ''''\<rparr> u
           | _ \<Rightarrow> Faults UninitRead) = Ok a t"
    using assms unfolding caching_read_def by (elim and_then_OkE) blast
  have "same_cache s u"
    using fullPath_Ok [OF f] caching_fgetattr_same [OF r] by (auto intro: same_cache_trans [rotated])
  then show thesis using l by (cases r) (simp_all add: that)
qed

lemma caching_read_inv:
  assumes "caching_read ps path cap sz offset fh s = Ok a t" and "cache_inv s"
  shows "cache_inv t \<and> blockSize t = blockSize s \<and> numOfBlocks t = numOfBlocks s \<and> rootPath t = rootPath s"
proof -
  obtain st :: statbuf and u where su: "same_cache s u" and l:
    "read_loop ps path fh cap offset (read_bound (blockSize u) offset sz (st_size st))
       (as_int (offset sdiv blockSize u))
       \<lparr>r_advOffset = offset, r_sizeLeftToRead = sz, r_sizeToRead = blockSize u,
        r_finish = False, r_data = ''''\<rparr> u = Ok a t"
    by (rule caching_read_Ok [OF assms(1)])
  let ?P = "\<lambda>x. cache_inv x \<and> blockSize x = blockSize s \<and> numOfBlocks x = numOfBlocks s \<and> rootPath x = rootPath s"
  show ?thesis
  proof (rule read_loop_Ok_induct [where P = ?P, OF l])
    show "?P u" using su assms(2) same_cache_inv [OF su] by (simp add: same_cache_def)
    show "?P y" if "read_round ps path fh cap offset v x = Ok r y" "?P x" for v x r y
      using read_round_keeps [OF that(1)] that(2) by simp
  qed
qed

lemma rename_blocks_Ok:
  assumes "rename_blocks path newpath bs = Ok u cs" and "\<forall>b \<in> set bs. \<exists>c. b = Some c \<and> block_ok k c"
  shows "length cs = length bs \<and> (\<forall>b \<in> set cs. \<exists>c. b = Some c \<and> block_ok k c)"
  using assms
proof (induction path newpath bs arbitrary: u cs rule: rename_blocks.induct)
  case (3 path newpath b bs)
  obtain v c where c: "(if CacheBlock_getPath b = Some path then CacheBlock_setPath newpath b else Ok () b) = Ok v c"
    and cs: "\<exists>ds. rename_blocks path newpath bs = Ok u ds \<and> cs = Some c # ds"
    using 3(2) by (auto split: outcome.splits if_splits)
  have "block_ok k c"
    using c 3(3) setPath_ok [of newpath b v c k]
    by (auto simp: CacheBlock_getPath_def split: if_splits option.splits)
  then show ?case using 3(1) [of v c u] c cs 3(3) by auto
qed auto

lemma caching_rename_inv:
  assumes "caching_rename ps path newpath s = Ok a t" and "cache_inv s"
  shows "cache_inv t \<and> blockSize t = blockSize s \<and> numOfBlocks t = numOfBlocks s \<and> rootPath t = rootPath s"
  using assms unfolding caching_rename_def
  by (auto simp: syscall_Ok cache_inv_def elim!: and_then_OkE
      dest!: fullPath_Ok rename_blocks_Ok [where k = "blockSize s"]
      split: sum.split_asm outcome.split_asm)

lemma caching_init_inv:
  assumes "0 < blockSize s" and "0 < numOfBlocks s" and "caching_init ps s = Ok a t"
  shows "cache_inv t"
  using assms block_ok_new by (auto simp: caching_init_def cache_inv_def)

lemma fs_exec_cases:
  assumes "fs_exec ps e s = Some (Ok a t)"
  obtains (same) "same_cache s t"
  | (read) path cap sz offset fh where "e = Read path cap sz offset fh"
      "caching_read ps path cap sz offset fh s = Ok a t"
  | (rename) path newpath where "e = Rename path newpath" "caching_rename ps path newpath s = Ok a t"
  | (init) "e = InitFs" "caching_init ps s = Ok a t"
  using assms
proof (cases e)
  case (Getattr p)
  then show thesis using assms by (intro same caching_getattr_same) simp
next
  case (Access p m)
  then show thesis using assms by (intro same caching_access_same) simp
next
  case (Open p m)
  then show thesis using assms by (intro same caching_open_same) simp
next
  case (Flush f)
  then show thesis using assms by (intro same caching_flush_same) simp
next
  case (Release f)
  then show thesis using assms by (intro same caching_release_same) simp
next
  case (Opendir p)
  then show thesis using assms by (intro same caching_opendir_same) simp
next
  case (Readdir f)
  then show thesis using assms by (intro same caching_readdir_same) simp
next
  case (Releasedir f)
  then show thesis using assms by (intro same caching_releasedir_same) simp
next
  case Ioctl
  then show thesis using assms by (intro same caching_ioctl_same) simp
next
  case (Fgetattr f)
  then show thesis using assms by (intro same caching_fgetattr_same) simp
next
  case Destroy
  then show thesis using assms by (intro same) (auto simp: caching_destroy_def)
qed (use assms read rename init in simp_all)

lemma fs_exec_inv:
  assumes "cache_inv s" and "fs_exec ps e s = Some (Ok a t)"
  shows "cache_inv t"
proof (cases rule: fs_exec_cases [OF assms(2)])
  case 1
  then show ?thesis using assms(1) same_cache_inv by blast
next
  case 2
  then show ?thesis using assms(1) caching_read_inv by blast
next
  case 3
  then show ?thesis using assms(1) caching_rename_inv by blast
next
  case 4
  have "0 < blockSize s" "0 < numOfBlocks s" using assms(1) by (simp_all add: cache_inv_def)
  then show ?thesis by (rule caching_init_inv [OF _ _ 4(2)])
qed

lemma fs_exec_config:
  assumes "cache_inv s" and "fs_exec ps e s = Some (Ok a t)"
  shows "blockSize t = blockSize s \<and> numOfBlocks t = numOfBlocks s \<and> rootPath t = rootPath s"
proof (cases rule: fs_exec_cases [OF assms(2)])
  case 1
  then show ?thesis by (simp add: same_cache_def)
next
  case 2
  then show ?thesis using assms(1) caching_read_inv by blast
next
  case 3
  then show ?thesis using assms(1) caching_rename_inv by blast
next
  case 4
  then show ?thesis by (auto simp: caching_init_def Let_def)
qed

text \<open>A cache with \<open>n\<close> blocks of \<open>k\<close> bytes stays one.\<close>

definition cache_of :: "int \<Rightarrow> int \<Rightarrow> 'w cfs \<Rightarrow> bool" where
  "cache_of k n s \<longleftrightarrow> cache_inv s \<and> blockSize s = k \<and> numOfBlocks s = n"

interpretation cache: event_invar "fs_exec ps" "cache_of k n" "\<lambda>e. True"
proof unfold_locales
  fix s e a t
  assume "cache_of k n s" and "fs_exec ps e s = Some (Ok a t)"
  then show "cache_of k n t"
    using fs_exec_inv [of s ps e a t] fs_exec_config [of s ps e a t] by (simp add: cache_of_def)
qed

section \<open>Rename and the table in closed form\<close>

lemma rename_blocks_length: "rename_blocks path newpath bs = Ok u cs \<Longrightarrow> length cs = length bs"
  by (induction path newpath bs arbitrary: u cs rule: rename_blocks.induct)
    (auto split: outcome.split_asm)

lemma rename_blocks_nth:
  assumes "rename_blocks path newpath bs = Ok u cs" and "i < length bs" and "bs ! i = Some b"
  shows "\<exists>c. cs ! i = Some c \<and> cb_data c = cb_data b \<and> cb_blockEnumerator c = cb_blockEnumerator b \<and>
    cb_counter c = cb_counter b \<and>
    CacheBlock_getPath c =
      (if CacheBlock_getPath b = Some path then Some newpath else CacheBlock_getPath b)"
  using assms
proof (induction path newpath bs arbitrary: u cs i rule: rename_blocks.induct)
  case (3 path newpath d bs)
  obtain v c where c: "(if CacheBlock_getPath d = Some path then CacheBlock_setPath newpath d else Ok () d) = Ok v c"
    and cs: "\<exists>ds. rename_blocks path newpath bs = Ok u ds \<and> cs = Some c # ds"
    using 3(2) by (auto split: outcome.splits if_splits)
  then obtain ds where ds: "rename_blocks path newpath bs = Ok u ds" "cs = Some c # ds" by blast
  show ?case
  proof (cases i)
    case 0
    then show ?thesis using c ds 3(4) setPath_keeps [of newpath d v c] by (auto split: if_splits)
  next
    case (Suc j)
    then show ?thesis using 3(1) [OF c ds(1), of j] 3(3,4) ds(2) by simp
  qed
qed auto

fun table_of :: "cache_block option list \<Rightarrow> string list" where
  "table_of [] = []"
| "table_of (b # bs) =
     (case b of
        None \<Rightarrow> table_of bs
      | Some c \<Rightarrow>
          (case CacheBlock_getPath c of
             None \<Rightarrow> table_of bs
           | Some path \<Rightarrow> table_line path c # table_of bs))"

definition logging_works :: "'w posix \<Rightarrow> bool" where
  "logging_works ps \<longleftrightarrow>
     (\<forall>p w. fst (sys_log_open ps p w)) \<and> (\<forall>p x w. fst (sys_log_write ps p x w)) \<and>
     (\<forall>p w. fst (sys_log_close ps p w))"

lemma writeToLog_works:
  assumes "logging_works ps"
  shows "\<exists>w l. writeToLog ps str timed s = (0, s\<lparr>world := w, logLines := logLines s @ [l @ str]\<rparr>) \<and>
    (timed \<longrightarrow> (\<exists>t. l = int_text t @ '' '')) \<and> (\<not> timed \<longrightarrow> l = '''')"
proof -
  obtain w0 where o: "sys_log_open ps (logPath s) (world s) = (True, w0)"
    using assms by (metis (full_types) logging_works_def prod.collapse)
  obtain t w1 where t: "(if timed then sys_time ps w0 else (0, w0)) = (t, w1)" by fastforce
  let ?l = "if timed then int_text t @ '' '' else ''''"
  obtain w2 where w: "sys_log_write ps (logPath s) ((?l @ str) @ [CHR 0x0A]) w1 = (True, w2)"
    using assms by (metis (full_types) logging_works_def prod.collapse)
  obtain w3 where c: "sys_log_close ps (logPath s) w2 = (True, w3)"
    using assms by (metis (full_types) logging_works_def prod.collapse)
  have "writeToLog ps str timed s = (0, s\<lparr>world := w3, logLines := logLines s @ [?l @ str]\<rparr>)"
    using o t w c by (simp add: writeToLog_def Let_def)
  then show ?thesis by (intro exI [of _ w3] exI [of _ ?l]) auto
qed

lemma log_table_lines:
  assumes "logging_works ps" and "\<forall>b \<in> set bs. b \<noteq> None"
  shows "\<exists>w. log_table ps bs s = Ok () (s\<lparr>world := w, logLines := logLines s @ table_of bs\<rparr>)"
  using assms(2)
proof (induction bs arbitrary: s)
  case Nil
  have "s = s\<lparr>world := world s, logLines := logLines s @ []\<rparr>" by simp
  then show ?case by (metis log_table.simps(1) table_of.simps(1))
next
  case (Cons b bs)
  then obtain c where b: "b = Some c" by auto
  show ?case
  proof (cases "CacheBlock_getPath c")
    case None
    then show ?thesis using Cons b by simp
  next
    case (Some path)
    obtain w where w: "writeToLog ps (table_line path c) False s =
        (0, s\<lparr>world := w, logLines := logLines s @ [table_line path c]\<rparr>)"
      using writeToLog_works [OF assms(1), of "table_line path c" False s] by auto
    then show ?thesis
      using Cons.IH [of "s\<lparr>world := w, logLines := logLines s @ [table_line path c]\<rparr>"] Cons.prems b Some
      by auto
  qed
qed

section \<open>The directory loop\<close>

text \<open>
  A directory stream whose remaining entries are \<open>pos w\<close>: \<open>readdir\<close> takes the next one,
  and \<open>filler\<close> accepts every name and leaves the stream alone.
\<close>

definition dir_stream :: "'w posix \<Rightarrow> int \<Rightarrow> ('w \<Rightarrow> string list) \<Rightarrow> bool" where
  "dir_stream ps p pos \<longleftrightarrow>
     (\<forall>w. case pos w of
            [] \<Rightarrow> \<exists>e w1. sys_readdir ps p w = (Inl e, w1)
          | n # ns \<Rightarrow> \<exists>w1. sys_readdir ps p w = (Inr n, w1) \<and> pos w1 = ns) \<and>
     (\<forall>n w. \<exists>w1. sys_filler ps n w = (0, w1) \<and> pos w1 = pos w)"

lemma dir_stream_end:
  assumes "dir_stream ps p pos" and "pos w = []"
  shows "\<exists>e w1. sys_readdir ps p w = (Inl e, w1)"
  using assms unfolding dir_stream_def by (elim conjE allE [where x = w]) simp

lemma dir_stream_next:
  assumes "dir_stream ps p pos" and "pos w = n # ns"
  shows "\<exists>w1. sys_readdir ps p w = (Inr n, w1) \<and> pos w1 = ns"
  using assms unfolding dir_stream_def by (elim conjE allE [where x = w]) simp

lemma readdir_loop_all:
  assumes "dir_stream ps p pos"
  shows "\<exists>t. readdir_loop ps dir p name names s =
      Some (Ok (ReplyNames 0 (names @ name # pos (world s))) t)"
proof (induction "pos (world s)" arbitrary: name names s)
  case Nil
  obtain w where w: "sys_filler ps name (world s) = (0, w)" "pos w = []"
    using assms Nil by (metis dir_stream_def)
  then obtain e w1 where r: "sys_readdir ps p w = (Inl e, w1)"
    using dir_stream_end [OF assms] by blast
  have "readdir_loop ps dir p name names s =
      Some (Ok (ReplyNames 0 (names @ [name])) (set_entry dir None (s\<lparr>world := w1\<rparr>)))"
    by (subst readdir_loop.simps) (simp add: w(1) r)
  then show ?case by (metis Nil)
next
  case (Cons n ns)
  obtain w where w: "sys_filler ps name (world s) = (0, w)" "pos w = n # ns"
    using assms Cons.hyps(2) by (metis dir_stream_def)
  then obtain w1 where w1: "sys_readdir ps p w = (Inr n, w1)" "pos w1 = ns"
    using dir_stream_next [OF assms] by blast
  let ?s = "set_entry dir (Some n) (s\<lparr>world := w1\<rparr>)"
  have "world ?s = w1" by (simp add: set_entry_def)
  then obtain t where "readdir_loop ps dir p n (names @ [name]) ?s =
      Some (Ok (ReplyNames 0 ((names @ [name]) @ n # pos (world ?s))) t)"
    using Cons.hyps(1) [of ?s n "names @ [name]"] w1(2) by auto
  moreover have "readdir_loop ps dir p name names s = readdir_loop ps dir p n (names @ [name]) ?s"
    by (subst readdir_loop.simps) (simp add: w(1) w1(1))
  moreover have "names @ name # pos (world s) = (names @ [name]) @ n # pos (world ?s)"
    using Cons.hyps(2) w1(2) \<open>world ?s = w1\<close> by simp
  ultimately show ?case by metis
qed

end
