(* ===== verification/Caching_Read.thy ===== *)
theory Caching_Read
  imports Caching_Ops
begin

text \<open>
  Reading files that nobody changes, at multiples of the block size, through a cache whose blocks
  of these files are slices of them: \<open>caching_read\<close> returns a part of the file and leaves the
  cache in such a state again, whichever blocks of other files it throws out. The names of the
  files have one length, since a block keeps the buffer of the first name that it held.
\<close>

section \<open>A file and its slices\<close>

text \<open>
  \<open>W\<close> is a set of worlds, closed under the calls of a reader, in which descriptor \<open>fd\<close> is open on a
  file with contents \<open>c\<close>. That is what \<open>fstat\<close> and \<open>pread\<close> promise for a regular file.
\<close>

definition log_closed :: "'w posix \<Rightarrow> 'w set \<Rightarrow> bool" where
  "log_closed ps W \<longleftrightarrow>
     (\<forall>w \<in> W.
        (\<forall>p. snd (sys_log_open ps p w) \<in> W) \<and> (\<forall>p x. snd (sys_log_write ps p x w) \<in> W) \<and>
        (\<forall>p. snd (sys_log_close ps p w) \<in> W) \<and> snd (sys_time ps w) \<in> W)"

definition serves :: "'w posix \<Rightarrow> int \<Rightarrow> string \<Rightarrow> 'w set \<Rightarrow> bool" where
  "serves ps fd c W \<longleftrightarrow>
     log_closed ps W \<and>
     (\<forall>w \<in> W.
        (\<exists>st w1. sys_fstat ps fd w = (Inr st, w1) \<and> st_size st = int (length c) \<and> w1 \<in> W) \<and>
        (\<forall>n off. 0 \<le> n \<longrightarrow> 0 \<le> off \<longrightarrow>
           (\<exists>w1. sys_pread ps fd n off w = (Inr (take (nat n) (drop (nat off) c)), w1) \<and> w1 \<in> W)))"

definition slice :: "int \<Rightarrow> int \<Rightarrow> string \<Rightarrow> string" where
  "slice bs k c = take (nat bs) (drop (nat (k * bs)) c)"

text \<open>\<open>C\<close> gives the contents of the files by name.\<close>

type_synonym contents = "string \<rightharpoonup> string"

definition coherent_block :: "int \<Rightarrow> contents \<Rightarrow> cache_block \<Rightarrow> bool" where
  "coherent_block bs C b \<longleftrightarrow>
     (\<forall>path c. CacheBlock_getPath b = Some path \<longrightarrow> C path = Some c \<longrightarrow>
        1 \<le> cb_blockEnumerator b \<and> (cb_blockEnumerator b - 1) * bs < int (length c) \<and>
        CacheBlock_getData b = Some (slice bs (cb_blockEnumerator b - 1) c)) \<and>
     (\<forall>path \<in> dom C. path_fits path b)"

definition coherent :: "contents \<Rightarrow> 'w cfs \<Rightarrow> bool" where
  "coherent C s \<longleftrightarrow>
     (\<forall>b. Some b \<in> set (cacheBlocks s) \<longrightarrow> coherent_block (blockSize s) C b)"

definition one_length :: "contents \<Rightarrow> bool" where
  "one_length C \<longleftrightarrow> (\<forall>p \<in> dom C. \<forall>q \<in> dom C. length p = length q)"

definition reader :: "contents \<Rightarrow> 'w set \<Rightarrow> 'w cfs \<Rightarrow> bool" where
  "reader C W s \<longleftrightarrow> cache_inv s \<and> coherent C s \<and> one_length C \<and> world s \<in> W"

lemma reader_world: "reader C W s \<Longrightarrow> w \<in> W \<Longrightarrow> reader C W (s\<lparr>world := w\<rparr>)"
  by (simp add: reader_def coherent_def cache_inv_def)

lemma reader_at:
  assumes "reader C W s" and "i < length (cacheBlocks s)"
  shows "coherent_block (blockSize s) C (block_at s i)" "block_ok (blockSize s) (block_at s i)"
    "cacheBlocks s ! i = Some (block_at s i)"
proof -
  have "cache_inv s" using assms(1) by (simp add: reader_def)
  note at = cache_inv_at [OF this assms(2)]
  then have "Some (block_at s i) \<in> set (cacheBlocks s)" using assms(2) by (metis nth_mem)
  then show "coherent_block (blockSize s) C (block_at s i)"
    using assms(1) by (simp add: reader_def coherent_def)
  show "block_ok (blockSize s) (block_at s i)" "cacheBlocks s ! i = Some (block_at s i)" by fact+
qed

lemma reader_update:
  assumes "reader C W s" and "block_ok (blockSize s) b" and "coherent_block (blockSize s) C b"
  shows "reader C W (s\<lparr>cacheBlocks := (cacheBlocks s)[i := Some b]\<rparr>)"
proof -
  have "Some d \<in> set ((cacheBlocks s)[i := Some b]) \<Longrightarrow> d = b \<or> Some d \<in> set (cacheBlocks s)" for d
    using set_update_subset_insert [of "cacheBlocks s" i "Some b"] by auto
  then show ?thesis using assms cache_inv_update [of s b i] by (auto simp: reader_def coherent_def)
qed

lemma writeToLog_world:
  assumes "log_closed ps W" and "world s \<in> W"
  shows "world (snd (writeToLog ps str timed s)) \<in> W"
proof -
  obtain b w0 where o: "sys_log_open ps (logPath s) (world s) = (b, w0)" by fastforce
  then have w0: "w0 \<in> W" using assms by (metis log_closed_def snd_conv)
  obtain t w1 where t: "(if timed then sys_time ps w0 else (0, w0)) = (t, w1)" by fastforce
  then have w1: "w1 \<in> W" using assms(1) w0 by (metis log_closed_def snd_conv)
  let ?x = "((if timed then int_text t @ '' '' else '''') @ str) @ [CHR 0x0A]"
  obtain b2 w2 where w: "sys_log_write ps (logPath s) ?x w1 = (b2, w2)" by fastforce
  then have w2: "w2 \<in> W" using assms(1) w1 by (metis log_closed_def snd_conv)
  obtain b3 w3 where cl: "sys_log_close ps (logPath s) w2 = (b3, w3)" by fastforce
  then have w3: "w3 \<in> W" using assms(1) w2 by (metis log_closed_def snd_conv)
  show ?thesis using o t w cl w0 w2 w3
    by (cases b; cases b2; cases b3) (simp_all add: writeToLog_def Let_def)
qed

lemma reader_writeToLog:
  assumes "log_closed ps W" and "reader C W s"
  shows "reader C W (snd (writeToLog ps str timed s))"
  using writeToLog_world [OF assms(1), of s str timed] assms(2) writeToLog_same [of s ps str timed]
  by (simp add: reader_def coherent_def same_fs_def cache_inv_same [OF writeToLog_same])

lemma reader_log: "log_closed ps W \<Longrightarrow> reader C W s \<Longrightarrow> reader C W (log_call ps name s)"
  unfolding log_call_def by (rule reader_writeToLog)

lemma serves_log: "serves ps fd c W \<Longrightarrow> log_closed ps W"
  by (simp add: serves_def)

section \<open>One round\<close>

lemma slice_length:
  assumes "0 < bs" and "0 \<le> k" and "k * bs \<le> int (length c)"
  shows "int (length (slice bs k c)) = min bs (int (length c) - k * bs)"
proof -
  obtain m where "k * bs = int m" using assms by (metis mult_nonneg_nonneg nonneg_int_cases order_less_imp_le)
  then show ?thesis using assms by (simp add: slice_def)
qed

text \<open>The variables at the start of round \<open>k\<close>, where \<open>k * blockSize\<close> bytes of the file lie behind.\<close>

definition at_block :: "int \<Rightarrow> int \<Rightarrow> string \<Rightarrow> int \<Rightarrow> rvars \<Rightarrow> bool" where
  "at_block bs offset c k v \<longleftrightarrow>
     0 \<le> k \<and> k * bs \<le> int (length c) \<and> r_advOffset v = k * bs \<and>
     r_advOffset v = offset + int (length (r_data v)) \<and> \<not> r_finish v \<and> r_sizeToRead v = bs \<and>
     int (length c) - k * bs \<le> r_sizeLeftToRead v \<and> r_sizeLeftToRead v < 18446744073709551616"

lemma at_block_number:
  assumes "at_block bs offset c k v" and "blockSize s = bs" and "0 < bs"
  shows "block_number v s = k + 1"
  using assms by (simp add: block_number_def at_block_def sdiv_nonneg)

lemma at_block_read:
  assumes "at_block bs offset c k v" and "blockSize s = bs" and "0 < bs"
  shows "0 \<le> read_size v s \<and> take (nat (read_size v s)) (drop (nat (r_advOffset v)) c) = slice bs k c"
proof (cases "r_sizeLeftToRead v < bs")
  case False
  then show ?thesis using assms by (simp add: read_size_def at_block_def slice_def)
next
  case True
  then have "int (length c) - k * bs \<le> read_size v s" "read_size v s < bs" "r_advOffset v = k * bs"
    using assms by (simp_all add: read_size_def at_block_def)
  moreover have "0 \<le> int (length c) - k * bs" using assms(1) by (simp add: at_block_def)
  moreover from this have "int (length (drop (nat (k * bs)) c)) = int (length c) - k * bs"
    using assms by (simp add: at_block_def of_nat_diff)
  ultimately show ?thesis by (simp add: slice_def)
qed

lemma c_str_slice: "CHR 0x00 \<notin> set c \<Longrightarrow> c_str (slice bs k c) = slice bs k c"
  unfolding slice_def by (rule c_str_id) (meson in_set_dropD in_set_takeD)

text \<open>At the end of the file the round reads nothing and ends the call.\<close>

lemma round_at_end:
  assumes r: "reader C W s" and sv: "serves ps (as_int fh) c W"
    and C: "C path = Some c"
    and v: "at_block (blockSize s) offset c k v" and e: "k * blockSize s = int (length c)"
  shows "\<exists>t. read_round ps path fh cap offset v s =
      and_then (copy_out cap (r_data v) t) (\<lambda>a. Ok (Done a)) \<and> reader C W t \<and>
      blockSize t = blockSize s"
proof -
  have inv: "cache_inv s" and bs: "0 < blockSize s" using r by (simp_all add: reader_def cache_inv_def)
  note nr = at_block_number [OF v refl bs]
  show ?thesis
  proof (cases rule: isInCache_cases [OF inv, of path "k + 1"])
    case (2 i)
    then show ?thesis using reader_at(1) [OF r 2(2)] C e by (simp add: holds_def coherent_block_def)
  next
    case 1
    have "slice (blockSize s) k c = ''''" using e by (simp add: slice_def)
    then obtain w where w: "w \<in> W"
      "sys_pread ps (as_int fh) (read_size v s) (r_advOffset v) (world s) = (Inr '''', w)"
      using sv r at_block_read [OF v refl bs] v unfolding serves_def reader_def at_block_def
      by (metis bs mult_nonneg_nonneg order_less_imp_le)
    have "read_miss ps path fh cap v s =
        and_then (copy_out cap (r_data v) (s\<lparr>world := w\<rparr>)) (\<lambda>a. Ok (Done a))"
      using w(2) bs by (simp add: read_miss_def syscall_def flip: read_size_def)
    then have "read_round ps path fh cap offset v s =
        and_then (copy_out cap (r_data v) (s\<lparr>world := w\<rparr>)) (\<lambda>a. Ok (Done a))"
      using 1(1) nr by (simp add: read_round_def copy_out_def flip: block_number_def)
    then show ?thesis using reader_world [OF r w(1)] by (intro exI [of _ "s\<lparr>world := w\<rparr>"]) simp
  qed
qed

text \<open>Before the end it appends the next slice, from the cache or from the file.\<close>

lemma path_fits_length: "length p = length q \<Longrightarrow> path_fits p b = path_fits q b"
  by (simp add: path_fits_def split: option.split)

lemma round_hit:
  assumes r: "reader C W s" and C: "C path = Some c" and v: "at_block (blockSize s) offset c k v"
    and lt: "k * blockSize s < int (length c)"
    and found: "isInCache path (k + 1) s = Ok (int i) s" and i: "i < length (cacheBlocks s)" "holds s i path (k + 1)"
  shows "\<exists>i x t. read_round ps path fh cap offset v s =
      Ok (Got i (append_data offset (slice (blockSize s) k c) x)) t \<and> reader C W t \<and>
      blockSize t = blockSize s \<and> r_data x = r_data v \<and>
      (r_finish x \<longrightarrow> int (length (slice (blockSize s) k c)) < blockSize s) \<and>
      ((k + 1) * blockSize s \<le> int (length c) \<longrightarrow>
         at_block (blockSize s) offset c (k + 1) (append_data offset (slice (blockSize s) k c) x))"
proof -
  let ?bs = "blockSize s" and ?d = "slice (blockSize s) k c"
  have inv: "cache_inv s" and bs: "0 < ?bs" using r by (simp_all add: reader_def cache_inv_def)
  have k: "0 \<le> k" using v by (simp add: at_block_def)
  note nr = at_block_number [OF v refl bs]
  have dl: "int (length ?d) = min ?bs (int (length c) - k * ?bs)" using bs k lt by (intro slice_length) simp_all
  note at = reader_at [OF r i(1)]
  have d: "CacheBlock_getData (block_at s i) = Some ?d" "CacheBlock_getPath (block_at s i) \<noteq> None"
    using at(1) C i(2) by (simp_all add: holds_def coherent_block_def)
  let ?t = "s\<lparr>cacheBlocks := (cacheBlocks s)[i := Some (CacheBlock_increaseCount (block_at s i))]\<rparr>"
  have "on_block i use_block s = Ok ?d ?t"
    using d(1) by (intro on_block_run [OF inv i(1)]) (simp add: use_block_Ok)
  then have "read_round ps path fh cap offset v s = Ok (Got (int i) (append_data offset ?d v)) ?t"
    using found nr by (simp add: read_round_def append_data_def flip: block_number_def)
  moreover have "reader C W ?t"
    using at d(2) by (intro reader_update [OF r] block_ok_increase)
      (simp_all add: coherent_block_def path_fits_def CacheBlock_increaseCount_def CacheBlock_getPath_def
        CacheBlock_getData_def)
  moreover have "at_block ?bs offset c (k + 1) (append_data offset ?d v)" if "(k + 1) * ?bs \<le> int (length c)"
    using v dl that bs by (simp add: at_block_def append_data_def algebra_simps min_def)
  moreover have "\<not> r_finish v" using v by (simp add: at_block_def)
  ultimately show ?thesis by (intro exI [of _ "int i"] exI [of _ v] exI [of _ ?t]) simp
qed

lemma round_miss:
  assumes r: "reader C W s" and sv: "serves ps (as_int fh) c W"
    and C: "C path = Some c"
    and v: "at_block (blockSize s) offset c k v" and lt: "k * blockSize s < int (length c)"
    and nul: "CHR 0x00 \<notin> set c" and small: "int (length c) < INT_MAX"
    and absent: "isInCache path (k + 1) s = Ok FAIL s"
  shows "\<exists>i x t. read_round ps path fh cap offset v s =
      Ok (Got i (append_data offset (slice (blockSize s) k c) x)) t \<and> reader C W t \<and>
      blockSize t = blockSize s \<and> r_data x = r_data v \<and>
      (r_finish x \<longrightarrow> int (length (slice (blockSize s) k c)) < blockSize s) \<and>
      ((k + 1) * blockSize s \<le> int (length c) \<longrightarrow>
         at_block (blockSize s) offset c (k + 1) (append_data offset (slice (blockSize s) k c) x))"
proof -
  let ?bs = "blockSize s" and ?d = "slice (blockSize s) k c"
  have inv: "cache_inv s" and bs: "0 < ?bs" using r by (simp_all add: reader_def cache_inv_def)
  have k: "0 \<le> k" using v by (simp add: at_block_def)
  note nr = at_block_number [OF v refl bs]
  have "k \<le> k * ?bs" using k bs by (simp add: mult_le_cancel_left1)
  then have num: "as_int (k + 1) = k + 1" using k lt small by (intro as_int_small) (simp_all add: INT_MAX_def)
  have dl: "int (length ?d) = min ?bs (int (length c) - k * ?bs)" using bs k lt by (intro slice_length) simp_all
  have rd: "0 \<le> read_size v s" "take (nat (read_size v s)) (drop (nat (r_advOffset v)) c) = ?d"
    using at_block_read [OF v refl bs] by simp_all
  then obtain w where w: "w \<in> W"
    "sys_pread ps (as_int fh) (read_size v s) (r_advOffset v) (world s) = (Inr ?d, w)"
    using sv r v unfolding serves_def reader_def at_block_def
    by (metis bs mult_nonneg_nonneg order_less_imp_le)
  let ?s = "s\<lparr>world := w\<rparr>"
  have rs: "reader C W ?s" by (rule reader_world [OF r w(1)])
  then have invs: "cache_inv ?s" by (simp add: reader_def)
  obtain i where i: "searchMinCounter ?s = Ok (int i) ?s" "i < length (cacheBlocks s)"
    using searchMinCounter_range [OF invs] by auto
  note at = reader_at [OF r i(2)]
  have "int (length ?d) \<le> ?bs" using dl by simp
  moreover have "path_fits path (block_at s i)" using at(1) domI [of C, OF C] unfolding coherent_block_def by blast
  ultimately obtain b where b: "updateBlock path ?d (k + 1) (block_at s i) = Ok () b"
    using updateBlock_returns [OF at(2), of ?d path "k + 1"] by blast
  let ?t1 = "?s\<lparr>cacheBlocks := (cacheBlocks s)[i := Some b]\<rparr>"
  let ?t = "?s\<lparr>cacheBlocks := (cacheBlocks s)[i := Some (CacheBlock_increaseCount b)]\<rparr>"
  have "?d \<noteq> ''''" using dl lt bs by (auto simp: min_def split: if_splits)
  moreover have "on_block i (updateBlock path ?d (k + 1)) ?s = Ok () ?t1"
    using on_block_run [OF invs, of i "updateBlock path ?d (k + 1)" "()" b] i(2) b by (simp add: block_at_def)
  ultimately have miss: "read_miss ps path fh cap v s = Ok (Got (int i) (after_pread v ?d s)) ?t1"
    using w(2) i(1) \<open>int (length ?d) \<le> ?bs\<close> nr at_block_number [OF v, of ?s] bs num c_str_slice [OF nul, of ?bs k]
    by (simp add: read_miss_def syscall_def after_pread_def flip: read_size_def block_number_def)
  note ub = updateBlock_Ok [OF b]
  have "on_block i use_block ?t1 = Ok ?d ?t"
    using i(2) ub(2) by (simp add: on_block_def use_block_def)
  then have "read_round ps path fh cap offset v s = Ok (Got (int i) (append_data offset ?d (after_pread v ?d s))) ?t"
    using absent nr miss by (simp add: read_round_def append_data_def flip: block_number_def)
  moreover have "path_fits q (CacheBlock_increaseCount b)" if "q \<in> dom C" for q
  proof -
    have "length q = length path" using r that domI [of C, OF C] unfolding reader_def one_length_def by blast
    then show ?thesis
      using block_ok_path_fits [OF updateBlock_ok [OF b at(2)], of path] ub(1) path_fits_length [of q path] by simp
  qed
  then have "coherent_block ?bs C (CacheBlock_increaseCount b)"
    using ub k lt C by (simp add: coherent_block_def)
  moreover note updateBlock_ok [OF b at(2)]
  moreover have "at_block ?bs offset c (k + 1) (append_data offset ?d (after_pread v ?d s))"
    if "(k + 1) * ?bs \<le> int (length c)"
  proof -
    have "length ?d = nat ?bs" using dl that by (simp add: min_def algebra_simps)
    moreover have "\<not> r_sizeLeftToRead v < ?bs" using v that by (simp add: at_block_def algebra_simps)
    ultimately show ?thesis using v that bs
      by (simp add: at_block_def append_data_def after_pread_def read_size_def as_size_small algebra_simps)
  qed
  moreover have "\<not> r_finish v" using v by (simp add: at_block_def)
  ultimately show ?thesis using reader_update [OF rs, of "CacheBlock_increaseCount b" i]
    by (intro exI [of _ "int i"] exI [of _ "after_pread v ?d s"] exI [of _ ?t])
      (simp add: after_pread_def)
qed

lemma round_in_file:
  assumes r: "reader C W s" and sv: "serves ps (as_int fh) c W"
    and C: "C path = Some c"
    and v: "at_block (blockSize s) offset c k v" and lt: "k * blockSize s < int (length c)"
    and nul: "CHR 0x00 \<notin> set c" and small: "int (length c) < INT_MAX"
  shows "\<exists>i x t. read_round ps path fh cap offset v s =
      Ok (Got i (append_data offset (slice (blockSize s) k c) x)) t \<and> reader C W t \<and>
      blockSize t = blockSize s \<and> r_data x = r_data v \<and>
      (r_finish x \<longrightarrow> int (length (slice (blockSize s) k c)) < blockSize s) \<and>
      ((k + 1) * blockSize s \<le> int (length c) \<longrightarrow>
         at_block (blockSize s) offset c (k + 1) (append_data offset (slice (blockSize s) k c) x))"
proof -
  have inv: "cache_inv s" using r by (simp add: reader_def)
  show ?thesis
  proof (cases rule: isInCache_cases [OF inv, of path "k + 1"])
    case 1
    then show ?thesis by (intro round_miss [OF r sv C v lt nul small])
  next
    case (2 i)
    then show ?thesis by (intro round_hit [OF r C v lt])
  qed
qed

section \<open>The loop and the call\<close>

lemma take_drop_slice:
  assumes "0 \<le> k0" and "k0 \<le> k" and "0 < bs"
  shows "take (nat ((k - k0) * bs)) (drop (nat (k0 * bs)) c) @ slice bs k c =
    take (nat ((k + 1 - k0) * bs)) (drop (nat (k0 * bs)) c)"
proof -
  have n: "nat ((k + 1 - k0) * bs) = nat ((k - k0) * bs) + nat bs"
    using assms by (simp add: algebra_simps flip: nat_add_distrib)
  have "nat (k * bs) = nat ((k - k0) * bs) + nat (k0 * bs)"
    using assms by (simp add: algebra_simps flip: nat_add_distrib)
  then show ?thesis unfolding n take_add slice_def by (simp add: add.commute)
qed

lemma take_drop_past:
  assumes "0 \<le> k0" and "0 < bs" and "int (length c) \<le> m * bs"
  shows "take (nat ((m - k0) * bs)) (drop (nat (k0 * bs)) c) = drop (nat (k0 * bs)) c"
proof (cases "int (length c) \<le> k0 * bs")
  case False
  then have "int (length (drop (nat (k0 * bs)) c)) = int (length c) - k0 * bs" using assms(1,2) by (simp add: of_nat_diff)
  then have "int (length (drop (nat (k0 * bs)) c)) \<le> (m - k0) * bs" using assms(3) by (simp add: left_diff_distrib)
  then show ?thesis by simp
qed simp

lemma read_loop_slices:
  assumes "reader C W s" and sv: "serves ps (as_int fh) c W"
    and C: "C path = Some c"
    and nul: "CHR 0x00 \<notin> set c" and small: "int (length c) < INT_MAX"
    and bs: "blockSize s = bs" and k0: "0 \<le> k0" "offset = k0 * bs" "k0 \<le> i"
    and bound: "bound * bs \<le> int (length c)"
    and v: "at_block bs offset c i v"
    and d: "r_data v = take (nat ((i - k0) * bs)) (drop (nat (k0 * bs)) c)"
  shows "\<exists>t. read_loop ps path fh cap offset bound i v s =
       copy_out cap (take (nat ((max i (bound + 1) - k0) * bs)) (drop (nat (k0 * bs)) c)) t \<and>
     reader C W t \<and> blockSize t = bs"
  using assms(1) bs k0(3) v d
proof (induction "nat (bound + 1 - i)" arbitrary: i v s rule: less_induct)
  case less
  let ?f = "drop (nat (k0 * bs)) c"
  have pos: "0 < bs" using less.prems(1,2) by (simp add: reader_def cache_inv_def)
  have nf: "\<not> r_finish v" using less.prems(4) by (simp add: at_block_def)
  show ?case
  proof (cases "bound < i")
    case True
    then have "max i (bound + 1) = i" by simp
    then show ?thesis using less.prems True by (auto simp: read_loop.simps)
  next
    case False
    have ib: "i * bs \<le> int (length c)" "0 \<le> i" using less.prems(4) by (simp_all add: at_block_def)
    have step: "read_loop ps path fh cap offset bound i v s =
        (case read_round ps path fh cap offset v s of
             Ok (Done a) t \<Rightarrow> Ok a t
           | Ok (Got _ w) t \<Rightarrow> read_loop ps path fh cap offset bound (i + 1) w t
           | Exits c t \<Rightarrow> Exits c t
           | Faults e \<Rightarrow> Faults e)"
      using False nf by (subst read_loop.simps) simp
    note all = take_drop_past [where c = c, OF k0(1) pos]
    have mx: "max i (bound + 1) = bound + 1" using False by simp
    have bm: "int (length c) \<le> (bound + 1) * bs" if "int (length c) \<le> i * bs"
    proof -
      have "i * bs \<le> (bound + 1) * bs" using False pos by (intro mult_right_mono) simp_all
      then show ?thesis using that by simp
    qed
    show ?thesis
    proof (cases "i * bs = int (length c)")
      case True
      then obtain t where t: "read_round ps path fh cap offset v s =
          and_then (copy_out cap (r_data v) t) (\<lambda>a. Ok (Done a))" "reader C W t" "blockSize t = bs"
        using round_at_end [OF less.prems(1) sv C, of offset i v cap] less.prems(2,4) by auto
      have "r_data v = ?f" using less.prems(5) all [of i] True by simp
      moreover have "read_loop ps path fh cap offset bound i v s = copy_out cap (r_data v) t"
        unfolding step t(1) by (simp add: copy_out_def)
      ultimately show ?thesis using t(2,3) all [of "bound + 1"] bm True by (auto simp: mx)
    next
      case ne: False
      then obtain j x t where t: "read_round ps path fh cap offset v s =
          Ok (Got j (append_data offset (slice bs i c) x)) t" "reader C W t" "blockSize t = bs"
        "r_data x = r_data v" "r_finish x \<longrightarrow> int (length (slice bs i c)) < bs"
        "(i + 1) * bs \<le> int (length c) \<longrightarrow> at_block bs offset c (i + 1) (append_data offset (slice bs i c) x)"
        using round_in_file [OF less.prems(1) sv C, of offset i v cap] nul small ib less.prems(2,4) by auto
      let ?v = "append_data offset (slice bs i c) x"
      have dv: "r_data ?v = take (nat ((i + 1 - k0) * bs)) ?f"
        using t(4) less.prems(5) take_drop_slice [OF k0(1) less.prems(3) pos] by (simp add: append_data_def)
      have eq: "read_loop ps path fh cap offset bound i v s = read_loop ps path fh cap offset bound (i + 1) ?v t"
        using step t(1) by simp
      show ?thesis
      proof (cases "(i + 1) * bs \<le> int (length c)")
        case True
        have "\<exists>u. read_loop ps path fh cap offset bound (i + 1) ?v t =
            copy_out cap (take (nat ((max (i + 1) (bound + 1) - k0) * bs)) ?f) u \<and>
            reader C W u \<and> blockSize u = bs"
          using False less.prems(3) t(6) True dv by (intro less.hyps t(2,3)) simp_all
        moreover have "max (i + 1) (bound + 1) = bound + 1" using False by simp
        ultimately show ?thesis unfolding eq mx by simp
      next
        case last: False
        have "bound < i + 1"
        proof (rule ccontr)
          assume "\<not> bound < i + 1"
          then have "(i + 1) * bs \<le> bound * bs" using pos by (intro mult_right_mono) simp_all
          then show False using bound last by simp
        qed
        then have "bound = i" using False by simp
        then show ?thesis unfolding eq using t(2,3) dv
          by (auto simp: read_loop.simps [of _ _ _ _ _ _ "i + 1"])
      qed
    qed
  qed
qed

text \<open>The bound when it is computed as \<open>(st_size - offset) / blockSize\<close>.\<close>

lemma read_bound_aligned:
  assumes "0 < bs" and "0 \<le> offset" and "offset \<le> st" and "st - offset \<le> sz" and "sz < 4294967296"
    and "st < INT_MAX"
  shows "read_bound bs offset sz st = (st - offset) div bs"
proof -
  have "0 \<le> (st - offset) div bs" "(st - offset) div bs \<le> st - offset"
    using assms zdiv_mono2 [of "st - offset" 1 bs] by (simp_all add: pos_imp_zdiv_nonneg_iff)
  then have "as_int ((st - offset) div bs) = (st - offset) div bs"
    using assms by (intro as_int_small) (simp_all add: INT_MAX_def)
  moreover have "as_size (st - offset) = st - offset"
    using assms by (intro as_size_small) (simp_all add: INT_MAX_def)
  moreover have "sz = st" if "offset = 0" "\<not> st < as_uint (offset + sz)"
    using that assms by (simp add: as_uint_def)
  ultimately show ?thesis using assms by (auto simp: read_bound_def)
qed

lemma copy_out_small:
  "length d < cap \<Longrightarrow> int (length d) < INT_MAX \<Longrightarrow> copy_out cap d t = Ok (ReplyData (int (length d)) d) t"
  by (simp add: copy_out_def as_int_small INT_MAX_def)

text \<open>A call at a multiple of the block size that asks for the rest of the file.\<close>

definition read_rounds :: "int \<Rightarrow> int \<Rightarrow> int \<Rightarrow> int" where
  "read_rounds bs k len = (if (len - k * bs) div bs < k then 0 else (len - k * bs) div bs + 1 - k)"

lemma read_rounds_whole:
  assumes "0 < bs"
  shows "int n \<le> read_rounds bs 0 (int n) * bs"
proof -
  have "int n mod bs < bs" using assms by simp
  then have "int n \<le> int n div bs * bs + bs" using div_mult_mod_eq [of "int n" bs] by linarith
  moreover have "\<not> int n div bs < 0" using assms by (simp add: pos_imp_zdiv_neg_iff)
  ultimately show ?thesis by (simp add: read_rounds_def algebra_simps)
qed

definition path_ok :: "string \<Rightarrow> 'w cfs \<Rightarrow> bool" where
  "path_ok path s \<longleftrightarrow> (\<exists>root. rootPath s = Some root \<and> length root + length path < PATH_MAX)"

lemma fullPath_ok: "path_ok path s \<Longrightarrow> \<exists>f. fullPath path s = Ok f s"
  by (auto simp: path_ok_def fullPath_def Let_def min_def)

lemma read_aligned:
  assumes r: "reader C W s" and sv: "serves ps (as_int fh) c W" and p: "path_ok path s"
    and C: "C path = Some c"
    and nul: "CHR 0x00 \<notin> set c" and small: "int (length c) < INT_MAX"
    and k: "0 \<le> k" "k * blockSize s \<le> int (length c)"
    and sz: "int (length c) - k * blockSize s \<le> sz" "sz < 4294967296"
  shows "\<exists>t. caching_read ps path cap sz (k * blockSize s) fh s =
      copy_out cap (take (nat (read_rounds (blockSize s) k (int (length c)) * blockSize s))
                      (drop (nat (k * blockSize s)) c)) t \<and> reader C W t \<and>
      blockSize t = blockSize s"
proof -
  let ?bs = "blockSize s" and ?len = "int (length c)"
  have bs: "0 < ?bs" using r by (simp add: reader_def cache_inv_def)
  let ?s1 = "log_call ps ''read'' s"
  let ?s2 = "log_call ps ''fgetattr'' ?s1"
  obtain f where f: "fullPath path ?s1 = Ok f ?s1" using fullPath_ok [of path ?s1] p by (auto simp: path_ok_def)
  have r2: "reader C W ?s2" by (intro reader_log [OF serves_log [OF sv]] r)
  then obtain st :: statbuf and w where w: "sys_fstat ps (as_int fh) (world ?s2) = (Inr st, w)"
    "st_size st = ?len" "w \<in> W"
    using sv by (auto simp: serves_def reader_def)
  let ?u = "?s2\<lparr>world := w\<rparr>"
  have u: "reader C W ?u" by (rule reader_world [OF r2 w(3)])
  have bound: "read_bound ?bs (k * ?bs) sz ?len = (?len - k * ?bs) div ?bs"
    using k bs sz small by (intro read_bound_aligned) simp_all
  have kk: "k \<le> k * ?bs" using k bs by (simp add: mult_le_cancel_left1)
  then have idx: "as_int (k * ?bs sdiv ?bs) = k"
    using k bs small by (simp add: sdiv_nonneg as_int_small INT_MAX_def)
  have "(?len - k * ?bs) div ?bs * ?bs \<le> ?len - k * ?bs"
    using bs by (metis div_mult_mod_eq le_add_same_cancel1 pos_mod_sign)
  then have bl: "(?len - k * ?bs) div ?bs * ?bs \<le> ?len" using k kk by linarith
  let ?v = "\<lparr>r_advOffset = k * ?bs, r_sizeLeftToRead = sz, r_sizeToRead = ?bs, r_finish = False, r_data = ''''\<rparr>"
  have "at_block ?bs (k * ?bs) c k ?v" using k sz by (simp add: at_block_def)
  then obtain t where t: "read_loop ps path fh cap (k * ?bs) ((?len - k * ?bs) div ?bs) k ?v ?u =
      copy_out cap (take (nat ((max k ((?len - k * ?bs) div ?bs + 1) - k) * ?bs)) (drop (nat (k * ?bs)) c)) t"
    "reader C W t" "blockSize t = ?bs"
    using read_loop_slices [OF u sv C nul small, of ?bs k "k * ?bs" k "(?len - k * ?bs) div ?bs" ?v cap]
      k(1) bl by auto
  have "max k ((?len - k * ?bs) div ?bs + 1) - k = read_rounds ?bs k ?len"
    by (simp add: read_rounds_def)
  then show ?thesis using f w t bound idx
    by (auto simp: caching_read_def caching_fgetattr_def syscall_def)
qed

text \<open>The table can be logged at any time; its lines do not touch the cache.\<close>

lemma log_table_reader:
  assumes "log_closed ps W" and "reader C W s" and "\<forall>b \<in> set bs. b \<noteq> None"
  shows "\<exists>t. log_table ps bs s = Ok () t \<and> reader C W t \<and> same_fs s t"
  using assms(2,3)
proof (induction bs arbitrary: s)
  case Nil
  then show ?case by simp
next
  case (Cons b bs)
  then obtain d where d: "b = Some d" by auto
  show ?case
  proof (cases "CacheBlock_getPath d")
    case None
    then show ?thesis using Cons d by simp
  next
    case (Some p)
    let ?s = "snd (writeToLog ps (table_line p d) False s)"
    obtain t where "log_table ps bs ?s = Ok () t" "reader C W t" "same_fs ?s t"
      using Cons.IH [OF reader_writeToLog [OF assms(1) Cons.prems(1)], of "table_line p d" False] Cons.prems(2) by auto
    then show ?thesis using d Some writeToLog_same same_fs_trans by fastforce
  qed
qed

section \<open>Programs that read files\<close>

text \<open>
  The open files are a list of name, descriptor and contents. The events: whole reads of a file
  into a buffer that is larger than the file, the table, the attributes of an open file and the
  end of the file system.
\<close>

type_synonym files = "(string \<times> int \<times> string) list"

definition contents_of :: "files \<Rightarrow> contents" where
  "contents_of fs p = map_option snd (map_of fs p)"

definition file_ok :: "'w posix \<Rightarrow> 'w set \<Rightarrow> 'w cfs \<Rightarrow> string \<times> int \<times> string \<Rightarrow> bool" where
  "file_ok ps W s = (\<lambda>(path, fh, c).
     serves ps (as_int fh) c W \<and> CHR 0x00 \<notin> set c \<and> int (length c) < INT_MAX \<and> path_ok path s)"

definition reading :: "'w posix \<Rightarrow> files \<Rightarrow> 'w set \<Rightarrow> 'w cfs \<Rightarrow> bool" where
  "reading ps fs W s \<longleftrightarrow>
     log_closed ps W \<and> list_all (file_ok ps W s) fs \<and> reader (contents_of fs) W s"

fun reading_event :: "files \<Rightarrow> fs_event \<Rightarrow> bool" where
  "reading_event fs (Read p cap sz offset f) =
     (case map_of fs p of
        None \<Rightarrow> False
      | Some (fh, c) \<Rightarrow> f = fh \<and> offset = 0 \<and> int (length c) \<le> sz \<and> sz < 4294967296 \<and> length c < cap)"
| "reading_event fs (Fgetattr f) = (f \<in> set (map (\<lambda>(p, fh, c). fh) fs))"
| "reading_event fs Ioctl = True"
| "reading_event fs Destroy = True"
| "reading_event fs _ = False"

fun reading_answer :: "files \<Rightarrow> fs_event \<Rightarrow> fs_reply \<Rightarrow> bool" where
  "reading_answer fs (Read p cap sz offset f) a =
     (case map_of fs p of None \<Rightarrow> False | Some (fh, c) \<Rightarrow> a = ReplyData (int (length c)) c)"
| "reading_answer fs (Fgetattr f) a =
     (\<exists>st. a = ReplyStat 0 st \<and> list_all (\<lambda>(p, fh, c). fh = f \<longrightarrow> st_size st = int (length c)) fs)"
| "reading_answer fs e a = (a = Reply 0)"

lemma file_ok_same: "same_fs s t \<Longrightarrow> file_ok ps W t = file_ok ps W s"
  by (simp add: file_ok_def path_ok_def same_fs_def fun_eq_iff)

lemma file_ok_root: "rootPath t = rootPath s \<Longrightarrow> file_ok ps W t = file_ok ps W s"
  by (simp add: file_ok_def path_ok_def fun_eq_iff)

lemma reading_to:
  assumes "reading ps fs W s" and "rootPath t = rootPath s" and "reader (contents_of fs) W t"
  shows "reading ps fs W t"
  using assms file_ok_root [OF assms(2)] by (simp add: reading_def)

lemma reading_read:
  assumes r: "reading ps fs W s" and f: "map_of fs p = Some (fh, c)"
    and sz: "int (length c) \<le> sz" "sz < 4294967296" and cap: "length c < cap"
  shows "\<exists>t. caching_read ps p cap sz 0 fh s = Ok (ReplyData (int (length c)) c) t \<and> reading ps fs W t"
proof -
  have rd: "reader (contents_of fs) W s" using r by (simp add: reading_def)
  have inv: "cache_inv s" and bs: "0 < blockSize s" using rd by (simp_all add: reader_def cache_inv_def)
  have "(p, fh, c) \<in> set fs" using f by (rule map_of_SomeD)
  then have ok: "serves ps (as_int fh) c W" "path_ok p s" "CHR 0x00 \<notin> set c" "int (length c) < INT_MAX"
    using r by (auto simp: reading_def list_all_iff file_ok_def)
  have C: "contents_of fs p = Some c" using f by (simp add: contents_of_def)
  obtain t where t: "caching_read ps p cap sz 0 fh s = copy_out cap c t" "reader (contents_of fs) W t"
    using read_aligned [OF rd ok(1,2) C ok(3,4), of 0 sz cap] sz bs read_rounds_whole [OF bs, of "length c"] by auto
  have out: "copy_out cap c t = Ok (ReplyData (int (length c)) c) t" by (rule copy_out_small [OF cap ok(4)])
  then have "rootPath t = rootPath s" using caching_read_inv [OF _ inv] t(1) by metis
  then show ?thesis using t out reading_to [OF r] by auto
qed

lemma reading_exec:
  assumes r: "reading ps fs W s" and e: "reading_event fs e"
  shows "\<exists>a t. fs_exec ps e s = Some (Ok a t) \<and> reading_answer fs e a \<and> reading ps fs W t"
proof -
  have lc: "log_closed ps W" and rd: "reader (contents_of fs) W s" using r by (simp_all add: reading_def)
  show ?thesis
  proof (cases e)
    case (Read p cap sz offset f)
    then obtain fh c where "map_of fs p = Some (fh, c)" "f = fh" "offset = 0" "int (length c) \<le> sz"
        "sz < 4294967296" "length c < cap"
      using e by (auto split: option.splits)
    then show ?thesis using reading_read [OF r] Read by fastforce
  next
    case (Fgetattr f)
    let ?s = "log_call ps ''fgetattr'' s"
    have rs: "reader (contents_of fs) W ?s" by (rule reader_log [OF lc rd])
    then have ws: "world ?s \<in> W" by (simp add: reader_def)
    have at: "fst (sys_fstat ps (as_int fh) (world ?s)) = Inr st \<Longrightarrow> st_size st = int (length c)"
        "\<exists>st w. sys_fstat ps (as_int fh) (world ?s) = (Inr st, w) \<and> w \<in> W"
      if "(p, fh, c) \<in> set fs" for p fh c st
    proof -
      have "serves ps (as_int fh) c W" using that r by (auto simp: reading_def list_all_iff file_ok_def)
      then obtain st' w where "sys_fstat ps (as_int fh) (world ?s) = (Inr st', w)"
          "st_size st' = int (length c)" "w \<in> W" using ws unfolding serves_def by blast
      then show "fst (sys_fstat ps (as_int fh) (world ?s)) = Inr st \<Longrightarrow> st_size st = int (length c)"
        "\<exists>st w. sys_fstat ps (as_int fh) (world ?s) = (Inr st, w) \<and> w \<in> W" by auto
    qed
    obtain p c where "(p, f, c) \<in> set fs" using e Fgetattr by auto
    then obtain st w where w: "sys_fstat ps (as_int f) (world ?s) = (Inr st, w)" "w \<in> W" using at(2) by blast
    have "reading ps fs W (?s\<lparr>world := w\<rparr>)" by (rule reading_to [OF r _ reader_world [OF rs w(2)]]) simp
    moreover have "list_all (\<lambda>(p, fh, c). fh = f \<longrightarrow> st_size st = int (length c)) fs"
      using at(1) w(1) by (auto simp: list_all_iff)
    ultimately show ?thesis using Fgetattr w(1) by (simp add: caching_fgetattr_def syscall_def)
  next
    case Ioctl
    let ?s = "log_call ps ''ioctl'' s"
    have rs: "reader (contents_of fs) W ?s" by (rule reader_log [OF lc rd])
    then have "\<forall>b \<in> set (cacheBlocks ?s). b \<noteq> None" by (auto simp: reader_def cache_inv_def)
    then obtain t where t: "log_table ps (cacheBlocks ?s) ?s = Ok () t" "reader (contents_of fs) W t" "same_fs ?s t"
      using log_table_reader [OF lc rs] by blast
    then have "reading ps fs W t" by (intro reading_to [OF r]) (simp_all add: same_fs_def)
    then show ?thesis using Ioctl t(1) by (simp add: caching_ioctl_def Let_def)
  next
    case Destroy
    have "reading ps fs W (log_call ps ''destroy'' s)"
      by (rule reading_to [OF r _ reader_log [OF lc rd]]) simp
    then show ?thesis using Destroy by (simp add: caching_destroy_def)
  qed (use e in simp_all)
qed

interpretation cached_files: event_service "fs_exec ps" "reading ps fs W" "reading_event fs" "reading_answer fs"
proof unfold_locales
  fix s e a t
  assume r: "reading ps fs W s" and e: "reading_event fs e"
  show "\<exists>a t. fs_exec ps e s = Some (Ok a t) \<and> reading_answer fs e a"
    using reading_exec [OF r e] by blast
  show "reading ps fs W t" if "fs_exec ps e s = Some (Ok a t)"
    using reading_exec [OF r e] that by auto
qed

text \<open>A cache that was just initialised holds nothing of the files.\<close>

lemma init_reading:
  assumes "log_closed ps W" and "list_all (file_ok ps W s) fs" and "one_length (contents_of fs)"
    and "0 < blockSize s" and "0 < numOfBlocks s" and "world s \<in> W"
  shows "\<exists>t. fs_exec ps InitFs s = Some (Ok (Reply 0) t) \<and> reading ps fs W t"
proof -
  let ?t = "log_call ps ''init'' s\<lparr>cacheBlocks :=
    replicate (nat (numOfBlocks s)) (Some (CacheBlock_new (blockSize s)))\<rparr>"
  have t: "caching_init ps s = Ok (Reply 0) ?t" by (simp add: caching_init_def Let_def)
  then have "cache_inv ?t" using caching_init_inv assms(4,5) by blast
  moreover have "coherent (contents_of fs) ?t"
    by (auto simp: coherent_def coherent_block_def CacheBlock_new_def CacheBlock_getPath_def path_fits_def)
  moreover have "world ?t \<in> W"
    using writeToLog_world [OF assms(1,6), of "''init''" True] by (simp add: log_call_def)
  moreover have "file_ok ps W ?t = file_ok ps W s" by (rule file_ok_root) simp
  ultimately have "reading ps fs W ?t" using assms by (simp add: reading_def reader_def)
  then show ?thesis using t by simp
qed

end
