(* ===== verification/Caching_Props.thy ===== *)
theory Caching_Props
  imports Caching_Read
begin

text \<open>
  The properties of the caching file system, C29 to C35, each with a run on a small system
  (\<open>demo_posix\<close>: descriptor 4 is a file \<open>xyz\<close>, the others \<open>abcde\<close>, and a directory whose remaining entries are the world).
\<close>

section \<open>A small system\<close>

definition demo_file :: "int \<Rightarrow> string" where
  "demo_file fd = (if fd = 4 then ''xyz'' else ''abcde'')"

definition demo_posix :: "string list posix" where
  "demo_posix =
     \<lparr>sys_log_open = (\<lambda>p w. (True, w)), sys_log_write = (\<lambda>p x w. (True, w)),
      sys_log_close = (\<lambda>p w. (True, w)), sys_time = (\<lambda>w. (7, w)),
      sys_stat = (\<lambda>p w. (Inr \<lparr>st_size = 0, st_isdir = True\<rparr>, w)),
      sys_lstat = (\<lambda>p w. (Inr \<lparr>st_size = 5, st_isdir = False\<rparr>, w)),
      sys_fstat = (\<lambda>fd w. (Inr \<lparr>st_size = int (length (demo_file fd)), st_isdir = False\<rparr>, w)),
      sys_access = (\<lambda>p m w. (Inr (), w)), sys_open = (\<lambda>p f w. (Inr 3, w)),
      sys_pread = (\<lambda>fd n off w. (Inr (take (nat n) (drop (nat off) (demo_file fd))), w)),
      sys_dup = (\<lambda>fd w. (4, w)), sys_close = (\<lambda>fd w. (Inr (), w)),
      sys_new_dir = (\<lambda>w. (Some 64, w)), sys_opendir = (\<lambda>p w. (Inr 9, w)),
      sys_readdir = (\<lambda>p w. case w of [] \<Rightarrow> (Inl 0, []) | n # ns \<Rightarrow> (Inr n, ns)),
      sys_filler = (\<lambda>n w. (0, w)), sys_rename = (\<lambda>p q w. (Inr (), w)),
      sys_realpath = (\<lambda>p w. (Some p, w))\<rparr>"

definition demo_argv :: "string list" where
  "demo_argv = [''fs'', ''/r'', ''/m'', ''2'', ''2'']"

definition demo_mounted :: "string list cfs" where
  "demo_mounted =
     \<lparr>cacheBlocks = [None, None], blockSize = 2, numOfBlocks = 2, rootPath = Some ''/r'',
      logPath = ''/r/.filesystem.log'', dirs = Map.empty, logLines = [], fs_out = [], fs_err = [],
      world = []\<rparr>"

definition demo_block :: "string \<Rightarrow> string \<Rightarrow> int \<Rightarrow> int \<Rightarrow> cache_block option" where
  "demo_block path data n k =
     Some \<lparr>cb_path = Some \<lparr>b_size = length path + 1, b_text = Some path\<rparr>,
           cb_data = \<lparr>b_size = 3, b_text = Some data\<rparr>, cb_blockEnumerator = n, cb_counter = k\<rparr>"

lemma demo_atoi: "atoi ''2'' = 2"
  by code_simp

lemma demo_main: "main_fs demo_posix demo_argv (initial_cfs []) = Ok [''fs'', ''/m'', ''-s''] demo_mounted"
  by (simp add: main_fs_def demo_argv_def demo_atoi initial_cfs_def syscall_def demo_posix_def
      mount_root_def LOG_NAME_def PATH_MAX_def demo_mounted_def eval_nat_numeral)

lemma demo_serves: "serves demo_posix fd (demo_file fd) UNIV"
  by (simp add: serves_def log_closed_def demo_posix_def)

section \<open>The state of the cache\<close>

lemma main_mounts:
  assumes "main_fs ps argv (initial_cfs w) = Ok args s"
  shows "0 < numOfBlocks s \<and> 0 < blockSize s \<and> numOfBlocks s = atoi (argv ! 3) \<and>
    blockSize s = atoi (argv ! 4) \<and> rootPath s \<noteq> None"
  using assms
  by (auto simp: main_fs_def usage_def Let_def mount_root_def syscall_Ok initial_cfs_def
      elim!: and_then_OkE split: if_split_asm sum.split_asm option.split_asm)

lemma fresh_cache_of:
  assumes "main_fs ps argv (initial_cfs w) = Ok args s"
    and "run_events (fs_exec ps) (InitFs # es) s = Some (Ok rs t)"
  shows "cache_of (blockSize s) (numOfBlocks s) t"
proof -
  obtain r u rs' where r: "fs_exec ps InitFs s = Some (Ok r u)" "run_events (fs_exec ps) es u = Some (Ok rs' t)"
    using assms(2) by (auto split: option.splits outcome.splits)
  have "cache_of (blockSize s) (numOfBlocks s) u"
    using caching_init_inv [of s ps r u] main_mounts [OF assms(1)] r(1)
    by (auto simp: cache_of_def caching_init_def Let_def)
  then show ?thesis by (rule cache.run_invar [OF _ _ r(2)]) (simp add: list_all_iff)
qed

text \<open>
  C29: after \<open>main\<close> and \<open>caching_init\<close>, whatever FUSE calls and however the system answers, the
  cache has as many blocks as the command line says, each of them empty with counter 0 or in
  use with a path, at most \<open>blockSize\<close> bytes of data and a positive counter.
\<close>

theorem cache_table:
  assumes "main_fs ps argv (initial_cfs w) = Ok args s"
    and "run_events (fs_exec ps) (InitFs # es) s = Some (Ok rs t)"
  shows "0 < atoi (argv ! 3) \<and> int (length (cacheBlocks t)) = atoi (argv ! 3) \<and>
    (\<forall>i < length (cacheBlocks t). \<exists>b. cacheBlocks t ! i = Some b \<and>
       (case CacheBlock_getPath b of
          None \<Rightarrow> CacheBlock_getCounter b = 0
        | Some path \<Rightarrow>
            1 \<le> CacheBlock_getCounter b \<and>
            (\<exists>d. CacheBlock_getData b = Some d \<and> int (length d) \<le> atoi (argv ! 4))))"
proof -
  note m = main_mounts [OF assms(1)]
  have t: "cache_of (blockSize s) (numOfBlocks s) t" by (rule fresh_cache_of [OF assms(1,2)])
  then have inv: "cache_inv t" by (simp add: cache_of_def)
  have "cacheBlocks t ! i = Some (block_at t i) \<and> (case CacheBlock_getPath (block_at t i) of
          None \<Rightarrow> CacheBlock_getCounter (block_at t i) = 0
        | Some path \<Rightarrow>
            1 \<le> CacheBlock_getCounter (block_at t i) \<and>
            (\<exists>d. CacheBlock_getData (block_at t i) = Some d \<and> int (length d) \<le> blockSize t))"
    if "i < length (cacheBlocks t)" for i
    using cache_inv_at [OF inv that] block_ok_empty [OF cache_inv_at(2) [OF inv that]]
      block_ok_full [OF cache_inv_at(2) [OF inv that]]
    by (auto simp: CacheBlock_getCounter_def split: option.split)
  moreover have "blockSize t = atoi (argv ! 4)" "int (length (cacheBlocks t)) = atoi (argv ! 3)"
    using t m inv by (simp_all add: cache_of_def cache_inv_def)
  moreover have "0 < atoi (argv ! 3)" using m by simp
  ultimately show ?thesis by (auto cong: option.case_cong)
qed

text \<open>
  C30: the block that is overwritten has the least counter, is the first with it, and is an
  empty one as long as there is one.
\<close>

theorem victim_is_least:
  assumes "cache_inv s"
    and "\<forall>j < length (cacheBlocks s). CacheBlock_getCounter (block_at s j) \<le> INT_MAX"
  shows "\<exists>i < length (cacheBlocks s).
    searchMinCounter s = Ok (int i) s \<and>
    (\<forall>j < length (cacheBlocks s). CacheBlock_getCounter (block_at s i) \<le> CacheBlock_getCounter (block_at s j)) \<and>
    (\<forall>j < i. CacheBlock_getCounter (block_at s i) < CacheBlock_getCounter (block_at s j)) \<and>
    ((\<exists>j < length (cacheBlocks s). CacheBlock_getPath (block_at s j) = None) \<longrightarrow>
       CacheBlock_getPath (block_at s i) = None)"
proof -
  obtain r where r: "searchMinCounter s = Ok r s" "0 \<le> r" "r < numOfBlocks s"
    "\<forall>j < length (cacheBlocks s). cb_counter (block_at s (nat r)) \<le> cb_counter (block_at s j)"
    "\<forall>j < nat r. cb_counter (block_at s (nat r)) < cb_counter (block_at s j)"
    using searchMin_from_result [OF assms(1), of 0 0 INT_MAX] assms
    by (auto simp: searchMinCounter_def cache_inv_def CacheBlock_getCounter_def)
  have len: "nat r < length (cacheBlocks s)" using r(2,3) assms(1) by (auto simp: cache_inv_def)
  have "CacheBlock_getPath (block_at s (nat r)) = None"
    if "j < length (cacheBlocks s)" "CacheBlock_getPath (block_at s j) = None" for j
  proof -
    have "cb_counter (block_at s j) = 0"
      using block_ok_empty [OF cache_inv_at(2) [OF assms(1) that(1)]] that(2) by simp
    then have "cb_counter (block_at s (nat r)) = 0"
      using r(4) that(1) block_ok_counter [OF cache_inv_at(2) [OF assms(1) len]] by force
    then show ?thesis using block_ok_empty [OF cache_inv_at(2) [OF assms(1) len]] by simp
  qed
  then show ?thesis using r len
    by (intro exI [of _ "nat r"]) (auto simp: CacheBlock_getCounter_def)
qed

section \<open>Reading\<close>

lemma whole_reads_run:
  assumes "log_closed ps W" and "list_all (file_ok ps W s) fs" and "one_length (contents_of fs)"
    and "0 < blockSize s" and "0 < numOfBlocks s" and "world s \<in> W"
    and "list_all (reading_event fs) es"
  shows "\<exists>rs t. run_events (fs_exec ps) (InitFs # es) s = Some (Ok (Reply 0 # rs) t) \<and>
    list_all2 (reading_answer fs) es rs"
proof -
  obtain u where u: "fs_exec ps InitFs s = Some (Ok (Reply 0) u)" "reading ps fs W u"
    using init_reading [OF assms(1-6)] by blast
  obtain rs t where "run_events (fs_exec ps) es u = Some (Ok rs t)" "list_all2 (reading_answer fs) es rs"
    using cached_files.run_answers [OF u(2) assms(7)] by blast
  then show ?thesis using u(1) by simp
qed

text \<open>
  C31: the cache cannot be noticed: on a fresh cache, any sequence of whole reads of any number of
  open files, table requests and \<open>fgetattr\<close> calls is answered, and every read returns the
  contents of its file, whether its blocks are in the cache, come from the disk, or were thrown
  out for blocks of another file. The names of the files have one length (a block keeps the
  buffer of its first name), the buffers have room for one byte more than the file, and the
  files have no null byte.
\<close>

theorem whole_file_reads:
  assumes "log_closed ps W" and "list_all (file_ok ps W s) fs" and "one_length (contents_of fs)"
    and "0 < blockSize s" and "0 < numOfBlocks s" and "world s \<in> W"
    and "list_all (reading_event fs) es"
  shows "\<exists>rs t. run_events (fs_exec ps) (InitFs # es) s = Some (Ok (Reply 0 # rs) t) \<and>
    list_all2 (reading_answer fs) es rs"
  by (rule whole_reads_run [OF assms])

definition demo_files :: files where
  "demo_files = [(''/f'', 3, ''abcde''), (''/g'', 4, ''xyz'')]"

definition demo_reads :: "fs_event list" where
  "demo_reads = [Read ''/f'' 9 8 0 3, Read ''/g'' 4 3 0 4, Ioctl, Fgetattr 4, Read ''/f'' 6 5 0 3]"

lemma demo_setting:
  "log_closed demo_posix UNIV" "list_all (file_ok demo_posix UNIV demo_mounted) demo_files"
  "one_length (contents_of demo_files)" "list_all (reading_event demo_files) (Read ''/f'' 9 8 0 3 # demo_reads)"
proof -
  have "file_ok demo_posix UNIV demo_mounted (''/f'', 3, ''abcde'')"
      "file_ok demo_posix UNIV demo_mounted (''/g'', 4, ''xyz'')"
    using demo_serves [of 3] demo_serves [of 4]
    by (simp_all add: file_ok_def demo_file_def demo_mounted_def path_ok_def PATH_MAX_def INT_MAX_def as_int_def)
  then show "list_all (file_ok demo_posix UNIV demo_mounted) demo_files" by (simp add: demo_files_def)
  show "one_length (contents_of demo_files)"
    by (auto simp: one_length_def contents_of_def demo_files_def split: if_splits)
qed (simp_all add: demo_reads_def demo_files_def log_closed_def)

lemma whole_file_reads_witness:
  "\<exists>rs t. run_events (fs_exec demo_posix) (InitFs # demo_reads) demo_mounted = Some (Ok (Reply 0 # rs) t) \<and>
   list_all2 (reading_answer demo_files) demo_reads rs"
  using whole_file_reads [OF demo_setting(1-3), of demo_reads] demo_setting(4) by (simp add: demo_mounted_def)

text \<open>
  C32: with a cache whose blocks of the file are right, a read at block \<open>k\<close> that asks for the rest of
  the file returns \<open>(length - offset) div blockSize + 1 - k\<close> blocks from there. The bound of the loop
  is a number of blocks, where the last block's index is needed: from the second half of the
  file on nothing is read.
\<close>

theorem read_at_offset:
  assumes "reader C W s" and "serves ps (as_int fh) c W" and "path_ok path s" and "C path = Some c"
    and "CHR 0x00 \<notin> set c" and "int (length c) < INT_MAX"
    and "0 \<le> k" and "k * blockSize s \<le> int (length c)"
    and "int (length c) - k * blockSize s \<le> sz" and "sz < 4294967296" and "length c < cap"
  shows "\<exists>t. caching_read ps path cap sz (k * blockSize s) fh s =
      (let n = (int (length c) - k * blockSize s) div blockSize s + 1 - k;
           out = take (nat (n * blockSize s)) (drop (nat (k * blockSize s)) c)
       in Ok (ReplyData (int (length out)) out) t) \<and> reader C W t"
proof -
  let ?len = "int (length c)" and ?bs = "blockSize s"
  let ?out = "take (nat (read_rounds ?bs k ?len * ?bs)) (drop (nat (k * ?bs)) c)"
  have bs: "0 < ?bs" using assms(1) by (simp add: reader_def cache_inv_def)
  obtain t where t: "caching_read ps path cap sz (k * ?bs) fh s = copy_out cap ?out t" "reader C W t"
    using read_aligned [OF assms(1-10), of cap] by blast
  have "nat (read_rounds ?bs k ?len * ?bs) = nat (((?len - k * ?bs) div ?bs + 1 - k) * ?bs)"
    using bs by (auto simp: read_rounds_def mult_le_0_iff)
  moreover have "copy_out cap ?out t = Ok (ReplyData (int (length ?out)) ?out) t"
  proof (rule copy_out_small)
    have "length ?out \<le> length c" by simp
    then show "length ?out < cap" "int (length ?out) < INT_MAX" using assms(6,11) by linarith+
  qed
  ultimately show ?thesis using t by (auto simp: Let_def)
qed

definition demo_ready :: "string list cfs" where
  "demo_ready = demo_mounted\<lparr>cacheBlocks := [Some (CacheBlock_new 2), Some (CacheBlock_new 2)]\<rparr>"

lemma demo_inv: "cache_inv demo_ready"
  by (simp add: demo_ready_def demo_mounted_def cache_inv_def block_ok_new)

lemma demo_reader: "reader [''/f'' \<mapsto> ''abcde''] UNIV demo_ready"
  using demo_inv
  by (auto simp: reader_def one_length_def coherent_def coherent_block_def demo_ready_def demo_mounted_def
      CacheBlock_new_def CacheBlock_getPath_def path_fits_def)

lemma demo_serves_3: "serves demo_posix (as_int 3) ''abcde'' UNIV"
  using demo_serves [of 3] by (simp add: as_int_def demo_file_def)

lemma demo_path: "length path < 4000 \<Longrightarrow> path_ok path demo_ready"
  by (simp add: path_ok_def demo_ready_def demo_mounted_def PATH_MAX_def)

lemma read_at_offset_witness:
  "\<exists>t. caching_read demo_posix ''/f'' 9 8 4 3 demo_ready = Ok (ReplyData 0 '''') t"
  using read_at_offset [OF demo_reader demo_serves_3 demo_path, where path = "''/f''" and k = 2 and sz = 8 and cap = 9]
  by (auto simp: demo_ready_def demo_mounted_def INT_MAX_def)

text \<open>
  C33: a whole read into a buffer of exactly the size that was asked for, which is what FUSE hands
  in, writes the null byte of \<open>strcpy\<close> behind its end.
\<close>

theorem exact_buffer_overflows:
  assumes "reader C W s" and "serves ps (as_int fh) c W" and "path_ok path s" and "C path = Some c"
    and "CHR 0x00 \<notin> set c" and "int (length c) < INT_MAX"
  shows "caching_read ps path (length c) (int (length c)) 0 fh s = Faults BufferOverflow"
proof -
  let ?len = "int (length c)" and ?bs = "blockSize s"
  have bs: "0 < ?bs" using assms(1) by (simp add: reader_def cache_inv_def)
  have "?len \<le> read_rounds ?bs 0 ?len * ?bs" by (rule read_rounds_whole [OF bs])
  then obtain t where "caching_read ps path (length c) ?len 0 fh s = copy_out (length c) c t"
    using read_aligned [OF assms, of 0 ?len "length c"] assms(6) by (auto simp: INT_MAX_def)
  then show ?thesis by (simp add: copy_out_def)
qed

lemma exact_buffer_overflows_witness:
  "caching_read demo_posix ''/f'' 5 5 0 3 demo_ready = Faults BufferOverflow"
  using exact_buffer_overflows [OF demo_reader demo_serves_3 demo_path]
  by (simp add: INT_MAX_def eval_nat_numeral)

section \<open>Rename\<close>

text \<open>A failing \<open>rename\<close> sets \<open>errno\<close>.\<close>

definition rename_errno :: "'w posix \<Rightarrow> bool" where
  "rename_errno ps \<longleftrightarrow> (\<forall>f g w. fst (sys_rename ps f g w) \<noteq> Inl 0)"

lemma caching_rename_blocks:
  assumes "caching_rename ps path newpath s = Ok (Reply 0) t" and "rename_errno ps"
  shows "\<exists>u. rename_blocks path newpath (cacheBlocks s) = Ok u (cacheBlocks t) \<and>
    numOfBlocks t = numOfBlocks s \<and> blockSize t = blockSize s"
proof -
  obtain f s1 g s2 r s3 where f: "fullPath path (log_call ps ''rename'' s) = Ok f s1"
    and g: "fullPath newpath s1 = Ok g s2" and r: "syscall (sys_rename ps f g) s2 = Ok r s3"
    and k: "(case r of Inl e \<Rightarrow> Ok (Reply (- e)) (sys_error ''Unable to rename'' s3)
            | Inr _ \<Rightarrow>
                (case rename_blocks path newpath (cacheBlocks s3) of
                   Ok _ bs \<Rightarrow> Ok (Reply 0) (s3\<lparr>cacheBlocks := bs\<rparr>)
                 | Exits k bs \<Rightarrow> Exits k (s3\<lparr>cacheBlocks := bs\<rparr>)
                 | Faults e \<Rightarrow> Faults e)) = Ok (Reply 0) t"
    using assms(1) unfolding caching_rename_def by (elim and_then_OkE) blast
  obtain w where w: "sys_rename ps f g (world s2) = (r, w)" "s3 = s2\<lparr>world := w\<rparr>"
    using r by (auto simp: syscall_Ok)
  have "fst (sys_rename ps f g (world s2)) \<noteq> Inl 0" using assms(2) unfolding rename_errno_def by blast
  then have "r \<noteq> Inl 0" using w(1) by simp
  then obtain x where "r = Inr x" using k by (cases r) auto
  moreover have "cacheBlocks s3 = cacheBlocks s" "numOfBlocks s3 = numOfBlocks s" "blockSize s3 = blockSize s"
    using fullPath_Ok [OF f] fullPath_Ok [OF g] w(2) by simp_all
  ultimately show ?thesis using k by (auto split: outcome.split_asm)
qed

text \<open>
  C34: after a rename that succeeds, of a name to one that has nothing in the cache, a lookup under
  the new name finds what a lookup under the old one found before, and the old one finds nothing.
\<close>

theorem rename_moves:
  assumes "cache_inv s" and "rename_errno ps" and "caching_rename ps path newpath s = Ok (Reply 0) t"
    and "\<forall>i < length (cacheBlocks s). CacheBlock_getPath (block_at s i) \<noteq> Some newpath"
    and "path \<noteq> newpath"
  shows "isInCache path n t = Ok FAIL t \<and>
    (\<exists>r. isInCache path n s = Ok r s \<and> isInCache newpath n t = Ok r t \<and>
       (r \<noteq> FAIL \<longrightarrow> CacheBlock_getData (block_at t (nat r)) = CacheBlock_getData (block_at s (nat r))))"
proof -
  have inv: "cache_inv t" using caching_rename_inv [OF assms(3,1)] by blast
  obtain u where u: "rename_blocks path newpath (cacheBlocks s) = Ok u (cacheBlocks t)"
    using caching_rename_blocks [OF assms(3,2)] by blast
  have len: "length (cacheBlocks t) = length (cacheBlocks s)" by (rule rename_blocks_length [OF u])
  have at: "CacheBlock_getData (block_at t i) = CacheBlock_getData (block_at s i)"
    "holds t i newpath n \<longleftrightarrow> holds s i path n" "\<not> holds t i path n"
    if i: "i < length (cacheBlocks s)" for i
  proof -
    obtain c where c: "cacheBlocks t ! i = Some c" "cb_data c = cb_data (block_at s i)"
      "cb_blockEnumerator c = cb_blockEnumerator (block_at s i)"
      "CacheBlock_getPath c = (if CacheBlock_getPath (block_at s i) = Some path then Some newpath
         else CacheBlock_getPath (block_at s i))"
      using rename_blocks_nth [OF u i cache_inv_at(1) [OF assms(1) i]] by blast
    then have "block_at t i = c" by (simp add: block_at_def)
    then show "CacheBlock_getData (block_at t i) = CacheBlock_getData (block_at s i)"
      "holds t i newpath n \<longleftrightarrow> holds s i path n" "\<not> holds t i path n"
      using c(2-4) assms(4,5) i by (auto simp: CacheBlock_getData_def holds_def)
  qed
  have "isInCache path n t = Ok FAIL t" using isInCache_absent [OF inv] at(3) len by simp
  moreover obtain r where "isInCache path n s = Ok r s" "isInCache newpath n t = Ok r t"
    "r = FAIL \<or> 0 \<le> r \<and> nat r < length (cacheBlocks s)"
    using isInCache_agree [OF assms(1) inv len at(2)] by blast
  ultimately show ?thesis using at(1) by auto
qed

definition demo_cached :: "string list cfs" where
  "demo_cached = demo_mounted\<lparr>cacheBlocks := [demo_block ''/f'' ''ab'' 1 3, demo_block ''/f'' ''cd'' 2 1]\<rparr>"

lemma demo_cached_inv: "cache_inv demo_cached"
  by (simp add: demo_cached_def demo_mounted_def cache_inv_def demo_block_def block_ok_def)

lemmas fs_eval = demo_file_def demo_cached_def demo_mounted_def demo_posix_def demo_block_def
  caching_rename_def fullPath_def Let_def PATH_MAX_def syscall_def log_call_def writeToLog_def
  CacheBlock_getPath_def CacheBlock_setPath_def strcpy_def

lemma rename_moves_witness:
  "\<exists>t. caching_rename demo_posix ''/f'' ''/g'' demo_cached = Ok (Reply 0) t \<and>
     isInCache ''/f'' 2 t = Ok FAIL t \<and>
     (\<exists>r. isInCache ''/f'' 2 demo_cached = Ok r demo_cached \<and> isInCache ''/g'' 2 t = Ok r t)"
proof -
  obtain t where t: "caching_rename demo_posix ''/f'' ''/g'' demo_cached = Ok (Reply 0) t"
    by (simp add: fs_eval)
  have "rename_errno demo_posix" by (simp add: rename_errno_def demo_posix_def)
  moreover have "\<forall>i < length (cacheBlocks demo_cached). CacheBlock_getPath (block_at demo_cached i) \<noteq> Some ''/g''"
    by (auto simp: fs_eval block_at_def less_Suc_eq)
  ultimately show ?thesis using rename_moves [OF demo_cached_inv _ t, of 2] t by auto
qed

text \<open>
  The buffer of a path is as long as the first path in it: a longer one, by rename or when
  the block is overwritten for another file, is written past its end.
\<close>

lemma longer_path_overflows:
  assumes "cb_path b = Some p" and "b_size p \<le> length path"
  shows "CacheBlock_setPath path b = Faults BufferOverflow"
    and "updateBlock path data n b = Faults BufferOverflow"
  using assms
  by (auto simp: CacheBlock_setPath_def strcpy_def updateBlock_def CacheBlock_setData_def
      CacheBlock_setCounter_def CacheBlock_setBlockEnumerator_def split: option.split)

text \<open>So a read of a file whose name is longer than those in all blocks overflows.\<close>

lemma round_overflows:
  assumes "isInCache path (block_number v s) s = Ok FAIL s"
    and "sys_pread ps (as_int fh) (read_size v s) (r_advOffset v) (world s) = (Inr d, w)"
    and "d \<noteq> ''''" and "int (length d) \<le> blockSize s"
    and "searchMinCounter (s\<lparr>world := w\<rparr>) = Ok (int i) (s\<lparr>world := w\<rparr>)"
    and "\<And>x k. on_block i (updateBlock path x k) (s\<lparr>world := w\<rparr>) = Faults e"
  shows "read_round ps path fh cap offset v s = Faults e"
proof -
  have "read_miss ps path fh cap v s = Faults e"
    using assms(2-6) by (simp add: read_miss_def syscall_def flip: read_size_def)
  then show ?thesis using assms(1) by (simp add: read_round_def flip: block_number_def)
qed

lemma longer_name_overflows:
  assumes inv: "cache_inv s" and sv: "serves ps (as_int fh) c W" and w: "world s \<in> W" and p: "path_ok path s"
    and c: "c \<noteq> ''''" "int (length c) < INT_MAX" and sz: "int (length c) \<le> sz" "sz < 4294967296"
    and longer: "\<forall>i < length (cacheBlocks s). \<exists>q. cb_path (block_at s i) = Some q \<and> b_size q \<le> length path"
  shows "caching_read ps path cap sz 0 fh s = Faults BufferOverflow"
proof -
  let ?bs = "blockSize s"
  have bs: "0 < ?bs" using inv by (simp add: cache_inv_def)
  have lc: "log_closed ps W" by (rule serves_log [OF sv])
  let ?s1 = "log_call ps ''read'' s"
  let ?s2 = "log_call ps ''fgetattr'' ?s1"
  obtain f where f: "fullPath path ?s1 = Ok f ?s1" using fullPath_ok [of path ?s1] p by (auto simp: path_ok_def)
  have "world ?s2 \<in> W" unfolding log_call_def by (intro writeToLog_world [OF lc] w)
  then obtain st :: statbuf and w1 where st: "sys_fstat ps (as_int fh) (world ?s2) = (Inr st, w1)"
      "st_size st = int (length c)" "w1 \<in> W"
    using sv unfolding serves_def by blast
  let ?u = "?s2\<lparr>world := w1\<rparr>"
  let ?v = "\<lparr>r_advOffset = 0, r_sizeLeftToRead = sz, r_sizeToRead = ?bs, r_finish = False, r_data = ''''\<rparr>"
  define n where "n = read_size ?v ?u"
  have n: "0 < n" "n \<le> ?bs" using c(1) sz(1) bs by (cases c; simp add: n_def read_size_def)+
  then have d: "take (nat n) c \<noteq> ''''" "int (length (take (nat n) c)) \<le> ?bs" using c(1) by simp_all
  obtain w2 where pr: "sys_pread ps (as_int fh) n 0 w1 = (Inr (take (nat n) c), w2)"
    using sv st(3) n unfolding serves_def by (metis drop0 less_imp_le nat_zero_as_int order_refl)
  let ?x = "?u\<lparr>world := w2\<rparr>"
  have invu: "cache_inv ?u" "cache_inv ?x" using inv by (simp_all add: cache_inv_def)
  have "\<not> holds ?u j path 1" if "j < length (cacheBlocks ?u)" for j
  proof
    assume "holds ?u j path 1"
    then have "CacheBlock_getPath (block_at s j) = Some path" by (simp add: holds_def block_at_def)
    then show False
      using longer that cache_inv_at(2) [OF inv, of j]
      by (fastforce simp: CacheBlock_getPath_def block_ok_def split: option.splits)
  qed
  then have miss: "isInCache path 1 ?u = Ok FAIL ?u" by (intro isInCache_absent [OF invu(1)]) blast
  obtain i where i: "searchMinCounter ?x = Ok (int i) ?x" "i < length (cacheBlocks ?x)"
    by (rule searchMinCounter_range [OF invu(2)])
  obtain b where b: "cacheBlocks s ! i = Some b" "block_at s i = b"
    using cache_inv_at(1) [OF inv, of i] i(2) by (simp add: block_at_def)
  then have "updateBlock path d k b = Faults BufferOverflow" for d k
    using longer i(2) longer_path_overflows(2) by auto
  then have "on_block i (updateBlock path d k) ?x = Faults BufferOverflow" for d k
    using b(1) i(2) by (simp add: on_block_def)
  moreover have "block_number ?v ?u = 1" using bs by (simp add: block_number_def sdiv_nonneg)
  moreover have "sys_pread ps (as_int fh) (read_size ?v ?u) (r_advOffset ?v) (world ?u) = (Inr (take (nat n) c), w2)"
    using pr by (simp add: n_def)
  moreover have "int (length (take (nat n) c)) \<le> blockSize ?u" using d(2) by simp
  ultimately have round: "read_round ps path fh cap 0 ?v ?u = Faults BufferOverflow"
    using miss i(1) d(1) by (intro round_overflows [where d = "take (nat n) c" and w = w2 and i = i]) simp_all
  have "read_bound ?bs 0 sz (int (length c)) = int (length c) div ?bs"
    using read_bound_aligned [OF bs, of 0 "int (length c)" sz] c(2) sz by simp
  moreover have "\<not> int (length c) div ?bs < 0" using bs by (simp add: pos_imp_zdiv_neg_iff)
  ultimately show ?thesis
    using f st round by (simp add: caching_read_def caching_fgetattr_def syscall_def read_loop.simps as_int_def sdiv_nonneg)
qed

lemma longer_name_overflows_example:
  "caching_read demo_posix ''/longer'' 9 8 0 4 demo_cached = Faults BufferOverflow"
proof -
  have "serves demo_posix (as_int 4) ''xyz'' UNIV" using demo_serves [of 4] by (simp add: as_int_def demo_file_def)
  then show ?thesis
    by (rule longer_name_overflows [OF demo_cached_inv])
      (auto simp: demo_cached_def demo_mounted_def demo_block_def path_ok_def PATH_MAX_def INT_MAX_def block_at_def
        less_Suc_eq nth_Cons')
qed

lemma rename_longer_faults:
  "caching_rename demo_posix ''/f'' ''/longer'' demo_cached = Faults BufferOverflow"
  by (simp add: fs_eval)

section \<open>The table and directories\<close>

text \<open>
  An \<open>ioctl\<close> writes to the log its name with a time, and then one line for every block in use,
  in the order of the cache: path, number of the block and counter.
\<close>

lemma ioctl_logs_table:
  assumes "logging_works ps" and "cache_inv s"
  shows "\<exists>stamp t. caching_ioctl ps s = Ok (Reply 0) t \<and>
    logLines t = logLines s @ (int_text stamp @ '' ioctl'') # table_of (cacheBlocks s) \<and>
    cacheBlocks t = cacheBlocks s"
proof -
  obtain w l where wl: "writeToLog ps ''ioctl'' True s =
      (0, s\<lparr>world := w, logLines := logLines s @ [l @ ''ioctl'']\<rparr>)" "\<exists>t. l = int_text t @ '' ''"
    using writeToLog_works [OF assms(1), of "''ioctl''" True s] by blast
  then have l: "log_call ps ''ioctl'' s = s\<lparr>world := w, logLines := logLines s @ [l @ ''ioctl'']\<rparr>"
    unfolding log_call_def by simp
  let ?s = "log_call ps ''ioctl'' s"
  have "\<forall>b \<in> set (cacheBlocks ?s). b \<noteq> None" using assms(2) by (auto simp: cache_inv_def)
  then obtain w1 where "log_table ps (cacheBlocks ?s) ?s =
      Ok () (?s\<lparr>world := w1, logLines := logLines ?s @ table_of (cacheBlocks ?s)\<rparr>)"
    using log_table_lines [OF assms(1)] by blast
  then show ?thesis using l wl(2) by (auto simp: caching_ioctl_def Let_def)
qed

lemma ioctl_logs_table_example:
  "\<exists>stamp t. caching_ioctl demo_posix demo_cached = Ok (Reply 0) t \<and>
    logLines t = (int_text stamp @ '' ioctl'') # [''/f 1 3'', ''/f 2 1'']"
proof -
  have "logging_works demo_posix" by (simp add: logging_works_def demo_posix_def)
  moreover have "table_of (cacheBlocks demo_cached) = [''/f 1 3'', ''/f 2 1'']"
    unfolding demo_cached_def demo_mounted_def demo_block_def by code_simp
  moreover have "logLines demo_cached = []" by (simp add: demo_cached_def demo_mounted_def)
  ultimately show ?thesis using ioctl_logs_table [of demo_posix demo_cached] demo_cached_inv by auto
qed

text \<open>
  C35: reading an open directory ends when its stream ends, and hands every entry to FUSE in the
  order of the stream.
\<close>

theorem readdir_complete:
  assumes "dir_stream ps p pos" and "dirs s fh = Some d" and "d_ptr d = Some p"
    and "pos (world (log_call ps ''readdir'' s)) = n # ns"
  shows "\<exists>t. caching_readdir ps fh s = Some (Ok (ReplyNames 0 (n # ns)) t)"
proof -
  let ?s = "log_call ps ''readdir'' s"
  obtain w where w: "sys_readdir ps p (world ?s) = (Inr n, w)" "pos w = ns"
    using dir_stream_next [OF assms(1), OF assms(4)] by blast
  let ?t = "set_entry fh (Some n) (?s\<lparr>world := w\<rparr>)"
  have "caching_readdir ps fh s = readdir_loop ps fh p n [] ?t"
    using assms(2,3) w(1) by (simp add: caching_readdir_def Let_def)
  moreover have "pos (world ?t) = ns" using w(2) by (simp add: set_entry_def)
  ultimately show ?thesis using readdir_loop_all [OF assms(1), of fh n "[]" ?t] by auto
qed

lemma readdir_complete_witness:
  "\<exists>t. caching_readdir demo_posix 64
      (demo_mounted\<lparr>dirs := [64 \<mapsto> CacheDir_setDirPtr (Some 9) CacheDir_new], world := [''.'', ''..'', ''f'']\<rparr>)
     = Some (Ok (ReplyNames 0 [''.'', ''..'', ''f'']) t)"
proof -
  have "dir_stream demo_posix 9 (\<lambda>w. w)"
    by (simp add: dir_stream_def demo_posix_def split: list.split)
  then show ?thesis
    by (rule readdir_complete [where d = "CacheDir_setDirPtr (Some 9) CacheDir_new"])
      (simp_all add: CacheDir_setDirPtr_def CacheDir_new_def fs_eval)
qed

section \<open>Witnesses for the state of the cache\<close>

lemma cache_table_witness:
  "\<exists>rs t. run_events (fs_exec demo_posix) (InitFs # [Read ''/f'' 9 8 0 3]) demo_mounted = Some (Ok rs t) \<and>
     int (length (cacheBlocks t)) = atoi (demo_argv ! 3)"
proof -
  obtain rs t where r: "run_events (fs_exec demo_posix) (InitFs # [Read ''/f'' 9 8 0 3]) demo_mounted =
      Some (Ok (Reply 0 # rs) t)"
    using whole_reads_run [OF demo_setting(1-3), of "[Read ''/f'' 9 8 0 3]"] demo_setting(4)
    by (auto simp: demo_mounted_def)
  have "cache_of 2 2 t" using fresh_cache_of [OF demo_main r] by (simp add: demo_mounted_def)
  then have "int (length (cacheBlocks t)) = 2" by (simp add: cache_of_def cache_inv_def)
  then have "0 < length (cacheBlocks t)" by linarith
  then show ?thesis using cache_table [OF demo_main r] r by auto
qed

lemma victim_is_least_witness:
  "\<exists>i < 2. searchMinCounter demo_cached = Ok (int i) demo_cached \<and>
     (\<forall>j < 2. CacheBlock_getCounter (block_at demo_cached i) \<le> CacheBlock_getCounter (block_at demo_cached j))"
proof -
  have "\<forall>j < length (cacheBlocks demo_cached). CacheBlock_getCounter (block_at demo_cached j) \<le> INT_MAX"
    by (auto simp: fs_eval block_at_def less_Suc_eq CacheBlock_getCounter_def INT_MAX_def)
  moreover have "length (cacheBlocks demo_cached) = 2" by (simp add: demo_cached_def)
  ultimately show ?thesis using victim_is_least [OF demo_cached_inv] by auto
qed

section \<open>Reads of a part of the file\<close>

text \<open>
  Two runs on the file \<open>abcde\<close> with blocks of two bytes. A read of two bytes that finds its block in
  the cache goes on to the next block, since only bytes from the disk count as read. A read of
  one byte leaves a block of one byte in the cache, which a later read takes for a whole one.
\<close>

lemmas read_eval = fs_eval caching_init_def caching_read_def caching_fgetattr_def read_bound_def
  isInCache_def isInCache_from.simps searchMinCounter_def searchMin_from.simps read_loop.simps
  read_round_def read_miss_def copy_out_def on_block_def use_block_def updateBlock_def
  CacheBlock_new_def CacheBlock_setData_def CacheBlock_setCounter_def
  CacheBlock_setBlockEnumerator_def CacheBlock_getBlockEnumerator_def CacheBlock_getData_def
  CacheBlock_increaseCount_def CacheBlock_getCounter_def c_str_def sdiv_nonneg
  as_int_def as_size_def as_uint_def INT_MAX_def eval_nat_numeral

lemma second_read_too_long:
  "\<exists>t. run_events (fs_exec demo_posix) [InitFs, Read ''/f'' 9 2 0 3, Read ''/f'' 9 2 0 3] demo_mounted
     = Some (Ok [Reply 0, ReplyData 2 ''ab'', ReplyData 4 ''abcd''] t)"
  by (simp add: read_eval)

lemma short_read_poisons:
  "\<exists>t. run_events (fs_exec demo_posix) [InitFs, Read ''/f'' 9 1 0 3, Read ''/f'' 9 8 0 3] demo_mounted
     = Some (Ok [Reply 0, ReplyData 1 ''a'', ReplyData 4 ''aacd''] t)"
  by (simp add: read_eval)

end
