(* ===== verification/Ftp_Common.thy ===== *)
theory Ftp_Common
  imports C_Lib Ordered_Map
begin

text \<open>
  What the two programs of ex5 share: both define \<open>isInteger\<close> and \<open>printSysErrorMessage\<close> with the
  same text. \<open>net\<close> is the system below them: as in ex4 each call gets the state of the world and
  returns a result, with \<open>Inl errno\<close> for -1, and the world after it. \<open>net_heap\<close> is the memory an
  unfinished string runs into.
\<close>

record 'w net =
  net_hostname :: "'w \<Rightarrow> string \<times> 'w"
  net_resolve :: "string \<Rightarrow> 'w \<Rightarrow> (int + string) \<times> 'w"
  net_socket :: "'w \<Rightarrow> (int + int) \<times> 'w"
  net_connect :: "int \<Rightarrow> string \<Rightarrow> int \<Rightarrow> 'w \<Rightarrow> (int + unit) \<times> 'w"
  net_bind :: "int \<Rightarrow> int \<Rightarrow> 'w \<Rightarrow> (int + unit) \<times> 'w"
  net_listen :: "int \<Rightarrow> int \<Rightarrow> 'w \<Rightarrow> (int + unit) \<times> 'w"
  net_accept :: "int \<Rightarrow> 'w \<Rightarrow> int \<times> 'w"
  net_send :: "int \<Rightarrow> string \<Rightarrow> 'w \<Rightarrow> (int + int) \<times> 'w"
  net_recv :: "int \<Rightarrow> nat \<Rightarrow> 'w \<Rightarrow> (int + string) \<times> 'w"
  net_close :: "int \<Rightarrow> 'w \<Rightarrow> (int + unit) \<times> 'w"
  net_thread :: "'w \<Rightarrow> (int + unit) \<times> 'w"
  net_open_in :: "string \<Rightarrow> 'w \<Rightarrow> string option \<times> 'w"
  net_open_out :: "string \<Rightarrow> 'w \<Rightarrow> bool \<times> 'w"
  net_heap :: "'w \<Rightarrow> string"

definition BUFF_SIZE :: nat where
  "BUFF_SIZE = 1024"

definition printSysErrorMessage :: "string \<Rightarrow> int \<Rightarrow> string" where
  "printSysErrorMessage sysFunc errorNum =
     ''Error: function:'' @ sysFunc @ '' errno:'' @ int_text errorNum @ ''.'' @ [CHR 0x0A]"

definition isInteger :: "string \<Rightarrow> bool" where
  "isInteger s =
     (if s = [] \<or> \<not> isdigit (hd s) \<and> hd s \<noteq> CHR ''-'' \<and> hd s \<noteq> CHR ''+'' then False
      else snd (strtol (c_str s)) = [])"

text \<open>\<open>htons\<close> takes an \<open>uint16_t\<close>.\<close>

definition as_port :: "int \<Rightarrow> int" where
  "as_port x = x mod 65536"

definition legal_port :: "string \<Rightarrow> bool" where
  "legal_port s \<longleftrightarrow> isInteger s \<and> \<not> 65535 < atoi s \<and> \<not> atoi s < 1"

section \<open>What isInteger accepts\<close>

lemma strtol_rest_iff:
  assumes "s \<noteq> []" and "\<not> isspace (hd s)"
  shows "snd (strtol s) = [] \<longleftrightarrow>
    (let u = (if hd s = CHR ''-'' \<or> hd s = CHR ''+'' then tl s else s) in u \<noteq> [] \<and> list_all isdigit u)"
proof -
  have dw: "dropWhile isspace s = s" using assms by (cases s) auto
  let ?u = "if hd s = CHR ''-'' \<or> hd s = CHR ''+'' then tl s else s"
  have e: "snd (strtol s) = (if ?u = [] \<or> \<not> isdigit (hd ?u) then s else snd (digits 0 ?u))"
    using assms(1) by (simp add: strtol_def dw Let_def split: prod.splits)
  have "(if ?u = [] \<or> \<not> isdigit (hd ?u) then s else snd (digits 0 ?u)) = [] \<longleftrightarrow>
      ?u \<noteq> [] \<and> list_all isdigit ?u"
  proof (cases ?u)
    case Nil
    then show ?thesis using assms(1) by simp
  next
    case (Cons c cs)
    then show ?thesis using assms(1) by (simp add: digits_rest list_all_iff)
  qed
  then show ?thesis unfolding e Let_def .
qed

end
