(* ===== verification/Ftp_Client.thy ===== *)
theory Ftp_Client
  imports Ftp_Common
begin

text \<open>
  \<open>clftp.cpp\<close>: the client connects, sends the size of a file, waits for one byte, and sends the
  name and the contents in pieces of at most \<open>BUFF_SIZE\<close> bytes. \<open>cl_sent\<close> holds the messages that
  were given to \<open>send\<close>; the number \<open>send\<close> returns is not looked at. The file is the bytes it has
  when it is opened.
\<close>

record 'w ftp_client =
  cl_server :: int
  cl_sent :: "string list"
  cl_out :: "string list"
  cl_err :: "string list"
  cl_world :: 'w

definition new_client :: "'w \<Rightarrow> 'w ftp_client" where
  "new_client w = \<lparr>cl_server = 0, cl_sent = [], cl_out = [], cl_err = [], cl_world = w\<rparr>"

definition cl_call :: "('w \<Rightarrow> 'a \<times> 'w) \<Rightarrow> 'w ftp_client \<Rightarrow> ('a, 'w ftp_client) outcome" where
  "cl_call f s = (case f (cl_world s) of (a, w) \<Rightarrow> Ok a (s\<lparr>cl_world := w\<rparr>))"

definition cl_print :: "string \<Rightarrow> 'w ftp_client \<Rightarrow> 'w ftp_client" where
  "cl_print m s = s\<lparr>cl_err := cl_err s @ [m]\<rparr>"

definition client_usage :: string where
  "client_usage =
     ''usage : clftp <server-port> <server-hostname> <file-to-transfer> <filename-in-server>'' @ [CHR 0x0A]"

definition TOO_BIG :: string where
  "TOO_BIG = ''Transmission failed: too big file'' @ [CHR 0x0A]"

definition connectToServer :: "'w net \<Rightarrow> int \<Rightarrow> string \<Rightarrow> 'w ftp_client \<Rightarrow> (int, 'w ftp_client) outcome" where
  "connectToServer net serverPort serverHost s =
     and_then (cl_call (net_resolve net serverHost) s)
       (\<lambda>r s. case r of
          Inl e \<Rightarrow> Ok FAIL (cl_print (printSysErrorMessage ''gethostbyname'' e) s)
        | Inr addr \<Rightarrow>
            and_then (cl_call (net_socket net) s)
              (\<lambda>r s. case r of
                 Inl e \<Rightarrow> Ok FAIL (cl_print (printSysErrorMessage ''socket'' e) (s\<lparr>cl_server := FAIL\<rparr>))
               | Inr fd \<Rightarrow>
                   and_then (cl_call (net_connect net fd addr (as_port serverPort)) (s\<lparr>cl_server := fd\<rparr>))
                     (\<lambda>r s. case r of
                        Inl e \<Rightarrow> Ok FAIL (cl_print (printSysErrorMessage ''connect'' e) s)
                      | Inr _ \<Rightarrow> Ok SUCCESS s)))"

definition sendMsgToServer :: "'w net \<Rightarrow> string \<Rightarrow> 'w ftp_client \<Rightarrow> (unit, 'w ftp_client) outcome" where
  "sendMsgToServer net msg s =
     and_then (cl_call (net_send net (cl_server s) msg) s)
       (\<lambda>r s. case r of
          Inl e \<Rightarrow> Exits 1 (cl_print (printSysErrorMessage ''send'' e) s)
        | Inr n \<Rightarrow> Ok () (s\<lparr>cl_sent := cl_sent s @ [msg]\<rparr>))"

text \<open>
  The buffer has one byte, which \<open>atoi\<close> reads on from; it is not set when nothing is received.
\<close>

definition reciveMsg :: "'w net \<Rightarrow> 'w ftp_client \<Rightarrow> (int, 'w ftp_client) outcome" where
  "reciveMsg net s =
     and_then (cl_call (net_recv net (cl_server s) 1) s)
       (\<lambda>r s. case r of
          Inl e \<Rightarrow>
            Ok (if atoi (net_heap net (cl_world s)) \<noteq> SUCCESS then FAIL else SUCCESS)
               (cl_print (printSysErrorMessage ''recv'' e) s)
        | Inr bytes \<Rightarrow>
            Ok (if atoi (bytes @ drop (length bytes) (net_heap net (cl_world s))) \<noteq> SUCCESS
                then FAIL else SUCCESS) s)"

text \<open>The loop over the contents and the rest behind it.\<close>

function send_loop :: "'w net \<Rightarrow> int \<Rightarrow> string \<Rightarrow> 'w ftp_client \<Rightarrow> (unit, 'w ftp_client) outcome" where
  "send_loop net toSend rest s =
     (if int BUFF_SIZE \<le> toSend then
        (case sendMsgToServer net (take BUFF_SIZE rest) s of
           Ok _ t \<Rightarrow> send_loop net (toSend - int BUFF_SIZE) (drop BUFF_SIZE rest) t
         | Exits c t \<Rightarrow> Exits c t
         | Faults e \<Rightarrow> Faults e)
      else if toSend \<noteq> 0 then sendMsgToServer net (take (nat toSend) rest) s
      else Ok () s)"
  by pat_completeness auto

termination
  by (relation "measure (\<lambda>(net, n, r, s). nat n)") (auto simp: BUFF_SIZE_def)

declare send_loop.simps [simp del]

definition writeToServer :: "'w net \<Rightarrow> string \<Rightarrow> string \<Rightarrow> 'w ftp_client \<Rightarrow> (int, 'w ftp_client) outcome" where
  "writeToServer net filePath serverName s =
     and_then (cl_call (net_open_in net filePath) s)
       (\<lambda>r s. case r of
          None \<Rightarrow> Ok FAIL (cl_print (''error'' @ [CHR 0x0A]) s)
        | Some contents \<Rightarrow>
            (let n = as_int (int (length contents))
             in if n < 0 then Ok FAIL (cl_print (''error'' @ [CHR 0x0A]) s)
                else
                  and_then (sendMsgToServer net (int_text n) s)
                    (\<lambda>_ s. and_then (reciveMsg net s)
                       (\<lambda>r s. if r = FAIL then Exits 1 (s\<lparr>cl_out := cl_out s @ [TOO_BIG]\<rparr>)
                          else
                            and_then (sendMsgToServer net serverName s)
                              (\<lambda>_ s. and_then (send_loop net n contents s) (\<lambda>_. Ok SUCCESS))))))"

definition main_client :: "'w net \<Rightarrow> string list \<Rightarrow> 'w \<Rightarrow> (int, 'w ftp_client) outcome" where
  "main_client net argv w =
     (let s = new_client w
      in if length argv \<noteq> 5 \<or> \<not> legal_port (argv ! 1) then
           Exits 1 (s\<lparr>cl_out := cl_out s @ [client_usage]\<rparr>)
         else
           and_then (connectToServer net (atoi (argv ! 1)) (argv ! 2) s)
             (\<lambda>r s. if r = FAIL then Exits 1 s
                else
                  and_then (writeToServer net (argv ! 3) (argv ! 4) s)
                    (\<lambda>r s. if r = FAIL then Exits 1 s else Ok SUCCESS s)))"

section \<open>The messages of an upload\<close>

text \<open>\<open>chunks\<close> is the list of pieces the loop sends.\<close>

function chunks :: "string \<Rightarrow> string list" where
  "chunks c = (if c = [] then [] else take BUFF_SIZE c # chunks (drop BUFF_SIZE c))"
  by pat_completeness auto

termination
  by (relation "measure length") (auto simp: BUFF_SIZE_def)

declare chunks.simps [simp del]

lemma chunks_Nil [simp]: "chunks [] = []"
  by (simp add: chunks.simps)

lemma concat_chunks: "concat (chunks c) = c"
proof (induction c rule: chunks.induct)
  case (1 c)
  then show ?case by (subst chunks.simps) simp
qed

lemma chunks_size: "m \<in> set (chunks c) \<Longrightarrow> m \<noteq> [] \<and> length m \<le> BUFF_SIZE"
proof (induction c rule: chunks.induct)
  case (1 c)
  then show ?case by (cases "c = []") (auto simp: chunks.simps [of c] BUFF_SIZE_def)
qed

text \<open>A connection that takes every message whole.\<close>

definition accepts :: "'w net \<Rightarrow> int \<Rightarrow> bool" where
  "accepts net fd \<longleftrightarrow> (\<forall>m w. \<exists>w1. net_send net fd m w = (Inr (int (length m)), w1))"

lemma send_accepted:
  assumes "accepts net (cl_server s)"
  shows "\<exists>w. sendMsgToServer net m s = Ok () (s\<lparr>cl_world := w, cl_sent := cl_sent s @ [m]\<rparr>)"
proof -
  obtain w where "net_send net (cl_server s) m (cl_world s) = (Inr (int (length m)), w)"
    using assms unfolding accepts_def by blast
  then have "sendMsgToServer net m s = Ok () (s\<lparr>cl_world := w, cl_sent := cl_sent s @ [m]\<rparr>)"
    by (simp add: sendMsgToServer_def cl_call_def)
  then show ?thesis by blast
qed

lemma send_loop_accepted:
  assumes "accepts net (cl_server s)"
  shows "\<exists>w. send_loop net (int (length c)) c s = Ok () (s\<lparr>cl_world := w, cl_sent := cl_sent s @ chunks c\<rparr>)"
  using assms
proof (induction c arbitrary: s rule: chunks.induct)
  case (1 c)
  show ?case
  proof (cases "BUFF_SIZE \<le> length c")
    case True
    then have ne: "c \<noteq> []" by (auto simp: BUFF_SIZE_def)
    obtain w where w: "sendMsgToServer net (take BUFF_SIZE c) s =
        Ok () (s\<lparr>cl_world := w, cl_sent := cl_sent s @ [take BUFF_SIZE c]\<rparr>)"
      using send_accepted [OF 1(2)] by blast
    have n: "int (length c) - int BUFF_SIZE = int (length (drop BUFF_SIZE c))" using True by simp
    obtain w1 where "send_loop net (int (length (drop BUFF_SIZE c))) (drop BUFF_SIZE c)
        (s\<lparr>cl_world := w, cl_sent := cl_sent s @ [take BUFF_SIZE c]\<rparr>) =
      Ok () (s\<lparr>cl_world := w1, cl_sent := cl_sent s @ take BUFF_SIZE c # chunks (drop BUFF_SIZE c)\<rparr>)"
      using 1(1) [OF ne, of "s\<lparr>cl_world := w, cl_sent := cl_sent s @ [take BUFF_SIZE c]\<rparr>"] 1(2) by auto
    then have "send_loop net (int (length c)) c s =
        Ok () (s\<lparr>cl_world := w1, cl_sent := cl_sent s @ chunks c\<rparr>)"
      using True w ne by (subst send_loop.simps) (simp add: chunks.simps [of c] flip: n)
    then show ?thesis by blast
  next
    case False
    then have ch: "c \<noteq> [] \<Longrightarrow> chunks c = [c]" by (simp add: chunks.simps [of c])
    show ?thesis
    proof (cases "c = []")
      case True
      then have "send_loop net (int (length c)) c s = Ok () s"
        by (subst send_loop.simps) (simp add: BUFF_SIZE_def)
      then show ?thesis using True by (intro exI [of _ "cl_world s"]) simp
    next
      case ne: False
      then show ?thesis using False ch send_accepted [OF 1(2), of c]
        by (subst send_loop.simps) simp
    qed
  qed
qed

end
