(* ===== verification/Ftp_Server.thy ===== *)
theory Ftp_Server
  imports Ftp_Common
begin

text \<open>
  \<open>srftp.cpp\<close>: the main thread accepts connections and starts a thread for each; a thread reads a
  size, a name and the contents, which it writes to the file of that name. \<open>disk\<close> is what the
  server has written, \<open>sv_replies\<close> what it has sent. \<open>Exits\<close> in a client's thread is
  \<open>pthread_exit\<close>. In this theory a thread serves its client in one step; \<open>Ftp_Threads\<close> lets the
  threads take turns.
\<close>

section \<open>State\<close>

record client_rec =
  c_fileName :: string
  c_fileSize :: int
  c_output :: "(string \<times> nat) option"   \<comment> \<open>an open stream: its file and its position there\<close>
  c_failed :: bool                       \<comment> \<open>the error bits of the stream\<close>

definition new_client_rec :: client_rec where
  "new_client_rec = \<lparr>c_fileName = '''', c_fileSize = 0, c_output = None, c_failed = False\<rparr>"

text \<open>
  A thread that was created reads the descriptor through the pointer it got when it starts. The
  places in between are the calls of \<open>recv\<close> where it waits: for the size, the name, and the first or
  a further piece of the contents.
\<close>

datatype sthread =
    Created
  | AwaitsSize int
  | AwaitsName int
  | Storing int bool
  | Ended int

record 'w ftp_server =
  sv_clients :: "(int, client_rec) omap"
  gMaxFileSize :: int
  gServerFd :: int
  sv_clientFd :: int
  sv_entering :: bool             \<comment> \<open>\<open>accept\<close> gave a descriptor that is not in the map yet\<close>
  sv_threads :: "sthread list"
  disk :: "string \<rightharpoonup> string"
  sv_replies :: "(int \<times> string) list"
  sv_out :: "string list"
  sv_err :: "string list"
  sv_world :: 'w

definition initial_server :: "'w \<Rightarrow> 'w ftp_server" where
  "initial_server w =
     \<lparr>sv_clients = [], gMaxFileSize = 0, gServerFd = 0, sv_clientFd = 0, sv_entering = False, sv_threads = [],
      disk = Map.empty, sv_replies = [], sv_out = [], sv_err = [], sv_world = w\<rparr>"

definition USAGE_MSG :: string where
  "USAGE_MSG = ''Usage: srftp server-port max-file-size'' @ [CHR 0x0A]"

definition sv_call :: "('w \<Rightarrow> 'a \<times> 'w) \<Rightarrow> 'w ftp_server \<Rightarrow> ('a, 'w ftp_server) outcome" where
  "sv_call f s = (case f (sv_world s) of (a, w) \<Rightarrow> Ok a (s\<lparr>sv_world := w\<rparr>))"

definition sv_error :: "string \<Rightarrow> int \<Rightarrow> 'w ftp_server \<Rightarrow> 'w ftp_server" where
  "sv_error f e s = s\<lparr>sv_err := sv_err s @ [printSysErrorMessage f e]\<rparr>"

text \<open>\<open>_clients.at(fd)->...\<close> throws for a descriptor that is not in the map.\<close>

definition at_client :: "int \<Rightarrow> (client_rec \<Rightarrow> client_rec) \<Rightarrow> 'w ftp_server \<Rightarrow> (client_rec, 'w ftp_server) outcome" where
  "at_client fd f s =
     (case om_find (sv_clients s) fd of
        None \<Rightarrow> Faults OutOfRange
      | Some c \<Rightarrow> Ok (f c) (s\<lparr>sv_clients := om_put fd (f c) (sv_clients s)\<rparr>))"

section \<open>Messages from a client\<close>

datatype msg_type = SIZE_CASE | NAME_CASE | DATA_CASE

text \<open>
  A stream writes at its own position: over what is there, and when the file has become shorter,
  because another stream on it was opened, after null bytes. Writing to a stream that is not open or
  has failed does nothing.
\<close>

definition overwrite :: "string \<Rightarrow> nat \<Rightarrow> string \<Rightarrow> string" where
  "overwrite x n bytes =
     take n x @ replicate (n - length x) (CHR 0x00) @ bytes @ drop (n + length bytes) x"

definition write_output :: "int \<Rightarrow> string \<Rightarrow> 'w ftp_server \<Rightarrow> (unit, 'w ftp_server) outcome" where
  "write_output fd bytes s =
     and_then (at_client fd id s)
       (\<lambda>c s. case c_output c of
          None \<Rightarrow> Ok () s
        | Some (path, n) \<Rightarrow>
            if c_failed c then Ok () s
            else
              and_then (at_client fd (\<lambda>c. c\<lparr>c_output := Some (path, n + length bytes)\<rparr>) s)
                (\<lambda>_ s. Ok () (s\<lparr>disk := (disk s)(path \<mapsto>
                   overwrite (case disk s path of None \<Rightarrow> '''' | Some x \<Rightarrow> x) n bytes)\<rparr>)))"

partial_function (option) data_loop :: "'w net \<Rightarrow> int \<Rightarrow> string \<Rightarrow> 'w ftp_server
    \<Rightarrow> (unit, 'w ftp_server) outcome option" where
  "data_loop net fd bytes s =
     (if bytes = [] then Some (Ok () s)
      else
        (case write_output fd bytes s of
           Ok _ t \<Rightarrow>
             (case net_recv net fd BUFF_SIZE (sv_world t) of
                (r, w) \<Rightarrow>
                  (case r of
                     Inl e \<Rightarrow> Some (Ok () (t\<lparr>sv_world := w\<rparr>))
                   | Inr piece \<Rightarrow> data_loop net fd piece (t\<lparr>sv_world := w\<rparr>)))
         | Exits c t \<Rightarrow> Some (Exits c t)
         | Faults e \<Rightarrow> Some (Faults e)))"

text \<open>
  The buffer is cleared first and printed to a string as a C string: when \<open>recv\<close> fills it, the
  string goes on in the memory behind.
\<close>

definition buffer_text :: "'w net \<Rightarrow> string \<Rightarrow> 'w ftp_server \<Rightarrow> string" where
  "buffer_text net bytes s =
     c_str (bytes @ replicate (BUFF_SIZE - length bytes) (CHR 0x00) @ net_heap net (sv_world s))"

definition getMsgFromClient :: "'w net \<Rightarrow> int \<Rightarrow> msg_type \<Rightarrow> 'w ftp_server
    \<Rightarrow> (int, 'w ftp_server) outcome option" where
  "getMsgFromClient net fd k s =
     (case net_recv net fd BUFF_SIZE (sv_world s) of
        (Inl e, w) \<Rightarrow> Some (Ok FAIL (sv_error ''recv'' e (s\<lparr>sv_world := w\<rparr>)))
      | (Inr bytes, w) \<Rightarrow>
          (let s = s\<lparr>sv_world := w\<rparr>; tmp = buffer_text net bytes s
           in case k of
                SIZE_CASE \<Rightarrow>
                  Some (and_then (at_client fd (\<lambda>c. c\<lparr>c_fileSize := atoi tmp\<rparr>) s) (\<lambda>_. Ok SUCCESS))
              | NAME_CASE \<Rightarrow>
                  Some (and_then (at_client fd (\<lambda>c. c\<lparr>c_fileName := tmp\<rparr>) s) (\<lambda>_. Ok SUCCESS))
              | DATA_CASE \<Rightarrow>
                  (case data_loop net fd bytes s of
                     None \<Rightarrow> None
                   | Some r \<Rightarrow> Some (and_then r (\<lambda>_. Ok SUCCESS)))))"

definition reply :: "'w net \<Rightarrow> int \<Rightarrow> string \<Rightarrow> 'w ftp_server \<Rightarrow> (unit, 'w ftp_server) outcome" where
  "reply net fd m s =
     and_then (sv_call (net_send net fd m) s)
       (\<lambda>r s. case r of
          Inl e \<Rightarrow> Exits 0 (sv_error ''send'' e s)
        | Inr n \<Rightarrow> Ok () (s\<lparr>sv_replies := sv_replies s @ [(fd, m)]\<rparr>))"

text \<open>
  Opening truncates the file; the stream stays closed when that fails. A stream that is open already
  is not opened again: it stays on its file and fails.
\<close>

definition open_output :: "'w net \<Rightarrow> int \<Rightarrow> 'w ftp_server \<Rightarrow> (unit, 'w ftp_server) outcome" where
  "open_output net fd s =
     and_then (at_client fd id s)
       (\<lambda>c s. if c_output c \<noteq> None
          then and_then (at_client fd (\<lambda>c. c\<lparr>c_failed := True\<rparr>) s) (\<lambda>_. Ok ())
          else
            and_then (sv_call (net_open_out net (c_fileName c)) s)
              (\<lambda>ok s. and_then (at_client fd (\<lambda>c. c\<lparr>c_output := (if ok then Some (c_fileName c, 0) else None),
                                                   c_failed := \<not> ok\<rparr>) s)
                 (\<lambda>c s. Ok () (if ok then s\<lparr>disk := (disk s)(c_fileName c \<mapsto> '''')\<rparr> else s))))"

definition close_output :: "int \<Rightarrow> 'w ftp_server \<Rightarrow> (unit, 'w ftp_server) outcome" where
  "close_output fd s =
     and_then (at_client fd (\<lambda>c. c\<lparr>c_output := None, c_failed := (c_failed c \<or> c_output c = None)\<rparr>) s) (\<lambda>_. Ok ())"

text \<open>Sequencing of steps that may not return.\<close>

definition then_opt :: "('a, 's) outcome option \<Rightarrow> ('a \<Rightarrow> 's \<Rightarrow> ('b, 's) outcome option)
    \<Rightarrow> ('b, 's) outcome option" where
  "then_opt m k =
     (case m of
        None \<Rightarrow> None
      | Some (Ok a s) \<Rightarrow> k a s
      | Some (Exits c s) \<Rightarrow> Some (Exits c s)
      | Some (Faults e) \<Rightarrow> Some (Faults e))"

lemma then_opt_simps [simp]:
  "then_opt None k = None" "then_opt (Some (Ok a s)) k = k a s"
  "then_opt (Some (Exits c s)) k = Some (Exits c s)" "then_opt (Some (Faults e)) k = Some (Faults e)"
  by (simp_all add: then_opt_def)

definition readFromClient :: "'w net \<Rightarrow> int \<Rightarrow> 'w ftp_server \<Rightarrow> (int, 'w ftp_server) outcome option" where
  "readFromClient net clientFd s =
     then_opt (getMsgFromClient net clientFd SIZE_CASE s)
       (\<lambda>resSize s. if resSize \<noteq> 0 then Some (Ok FAIL s)
          else
            then_opt
              (Some (and_then (at_client clientFd id s)
                 (\<lambda>c s. reply net clientFd (if gMaxFileSize s < c_fileSize c then ''1'' else ''0'') s)))
              (\<lambda>_ s. then_opt (getMsgFromClient net clientFd NAME_CASE s)
                 (\<lambda>resName s. if resName \<noteq> 0 then Some (Ok FAIL s)
                    else
                      then_opt (Some (open_output net clientFd s))
                        (\<lambda>_ s. then_opt (getMsgFromClient net clientFd DATA_CASE s)
                           (\<lambda>_ s. Some (and_then (close_output clientFd s) (\<lambda>_. Ok SUCCESS)))))))"

section \<open>Connections\<close>

definition disconnectClient :: "'w net \<Rightarrow> int \<Rightarrow> 'w ftp_server \<Rightarrow> (int, 'w ftp_server) outcome" where
  "disconnectClient net fd s =
     and_then (sv_call (net_close net fd) (s\<lparr>sv_clients := om_erase fd (sv_clients s)\<rparr>))
       (\<lambda>r s. case r of
          Inl e \<Rightarrow> Ok FAIL (sv_error ''close'' e s)
        | Inr _ \<Rightarrow> Ok SUCCESS s)"

text \<open>The loop erases the entry its iterator points to and then moves on from it.\<close>

definition freeClients :: "'w net \<Rightarrow> 'w ftp_server \<Rightarrow> (unit, 'w ftp_server) outcome" where
  "freeClients net s =
     and_then (if gServerFd s \<noteq> - 1 then and_then (sv_call (net_close net (gServerFd s)) s) (\<lambda>_. Ok ())
               else Ok () s)
       (\<lambda>_ s. case sv_clients s of
          [] \<Rightarrow> Ok () s
        | (fd, c) # _ \<Rightarrow>
            and_then (disconnectClient net fd s)
              (\<lambda>r s. if r = FAIL then Exits 0 s else Faults UseAfterFree))"

text \<open>The host that was looked up is not used: \<open>bcopy\<close> is called with its arguments swapped.\<close>

definition connectToClient :: "'w net \<Rightarrow> int \<Rightarrow> 'w ftp_server \<Rightarrow> (int, 'w ftp_server) outcome" where
  "connectToClient net port s =
     and_then (sv_call (net_hostname net) s)
       (\<lambda>host s. and_then (sv_call (net_resolve net host) s)
          (\<lambda>r s. case r of
             Inl e \<Rightarrow> Ok FAIL (sv_error ''gethostbyname'' e s)
           | Inr _ \<Rightarrow>
               and_then (sv_call (net_socket net) s)
                 (\<lambda>r s. case r of
                    Inl e \<Rightarrow> Ok FAIL (sv_error ''socket'' e (s\<lparr>gServerFd := FAIL\<rparr>))
                  | Inr fd \<Rightarrow>
                      and_then (sv_call (net_bind net fd (as_port port)) (s\<lparr>gServerFd := fd\<rparr>))
                        (\<lambda>r s. case r of
                           Inl e \<Rightarrow>
                             and_then (sv_call (net_close net (gServerFd s)) (sv_error ''bind'' e s))
                               (\<lambda>_. Ok FAIL)
                         | Inr _ \<Rightarrow>
                             and_then (sv_call (net_listen net (gServerFd s) 5) s)
                               (\<lambda>r s. case r of
                                  Inl e \<Rightarrow> Ok FAIL (sv_error ''listen'' e s)
                                | Inr _ \<Rightarrow> Ok SUCCESS s)))))"

definition main_server :: "'w net \<Rightarrow> string list \<Rightarrow> 'w ftp_server \<Rightarrow> (int, 'w ftp_server) outcome" where
  "main_server net argv s =
     (if length argv \<noteq> 3 \<or> \<not> legal_port (argv ! 1) \<or> \<not> isInteger (argv ! 2) \<or> atoi (argv ! 2) \<le> 0
      then Exits 1 (s\<lparr>sv_out := sv_out s @ [USAGE_MSG]\<rparr>)
      else
        and_then (connectToClient net (atoi (argv ! 1)) (s\<lparr>gMaxFileSize := atoi (argv ! 2)\<rparr>))
          (\<lambda>r s. if r = FAIL then Exits 1 s else Ok SUCCESS s))"

text \<open>
  The steps after that: a round of the loop of the main thread, or a thread that starts, serves
  its client and ends. \<open>run\<close> reads the descriptor from the variable of the main thread. A round
  has two parts: \<open>accept\<close> assigns the variable, and then the client is entered into the map and its
  thread is created. \<open>Ftp_Threads\<close> takes them as two steps.
\<close>

definition accept_client :: "'w net \<Rightarrow> 'w ftp_server \<Rightarrow> (int, 'w ftp_server) outcome" where
  "accept_client net s =
     and_then (sv_call (net_accept net (gServerFd s)) s)
       (\<lambda>fd s.
          let s = s\<lparr>sv_clientFd := fd\<rparr>
          in if fd = 0 then and_then (freeClients net s) (\<lambda>_ s. Exits SUCCESS s) else Ok fd s)"

definition enter_client :: "'w net \<Rightarrow> 'w ftp_server \<Rightarrow> (int, 'w ftp_server) outcome" where
  "enter_client net s =
     and_then (sv_call (net_thread net) (s\<lparr>sv_clients := om_put (sv_clientFd s) new_client_rec (sv_clients s)\<rparr>))
       (\<lambda>r s. case r of
          Inl e \<Rightarrow> Exits FAIL (sv_error ''pthread_create'' e s)
        | Inr _ \<Rightarrow> Ok SUCCESS (s\<lparr>sv_threads := sv_threads s @ [Created]\<rparr>))"

definition accept_round :: "'w net \<Rightarrow> 'w ftp_server \<Rightarrow> (int, 'w ftp_server) outcome" where
  "accept_round net s =
     and_then (accept_client net s) (\<lambda>fd s. if fd < 0 then Ok SUCCESS s else enter_client net s)"

definition run_thread :: "'w net \<Rightarrow> nat \<Rightarrow> 'w ftp_server \<Rightarrow> (int, 'w ftp_server) outcome option" where
  "run_thread net i s =
     (if length (sv_threads s) \<le> i \<or> sv_threads s ! i \<noteq> Created then None
      else
        (let fd = sv_clientFd s
         in case readFromClient net fd s of
              None \<Rightarrow> None
            | Some (Ok r t) \<Rightarrow> Some (Ok r (t\<lparr>sv_threads := (sv_threads t)[i := Ended fd]\<rparr>))
            | Some (Exits c t) \<Rightarrow> Some (Ok 0 (t\<lparr>sv_threads := (sv_threads t)[i := Ended fd]\<rparr>))
            | Some (Faults e) \<Rightarrow> Some (Faults e)))"

datatype server_event = AcceptRound | RunThread nat

fun server_exec :: "'w net \<Rightarrow> server_event \<Rightarrow> 'w ftp_server \<Rightarrow> (int, 'w ftp_server) outcome option" where
  "server_exec net AcceptRound s = Some (accept_round net s)"
| "server_exec net (RunThread i) s = run_thread net i s"

end
