(* ===== verification/Ftp_Upload.thy ===== *)
theory Ftp_Upload
  imports Ftp_Client Ftp_Server
begin

text \<open>
  The functions of the server in closed form for a connection that delivers the messages one by
  one (\<open>delivers\<close>), and what serving a client leaves alone (\<open>serves_only\<close>).
\<close>

section \<open>Texts in the buffer\<close>

lemma c_str_stops: "CHR 0x00 \<notin> set s \<Longrightarrow> c_str (s @ CHR 0x00 # r) = s"
  unfolding c_str_def by (induction s) auto

lemma buffer_text_short:
  assumes "CHR 0x00 \<notin> set m" and "length m < BUFF_SIZE"
  shows "buffer_text net m s = m"
proof -
  have "replicate (BUFF_SIZE - length m) (CHR 0x00) = CHR 0x00 # replicate (BUFF_SIZE - length m - 1) (CHR 0x00)"
    using assms(2) by (cases "BUFF_SIZE - length m") auto
  then show ?thesis using c_str_stops [OF assms(1)] by (simp add: buffer_text_def)
qed

lemma nat_text_length: "n < 10 ^ k \<Longrightarrow> 0 < k \<Longrightarrow> length (nat_text n) \<le> k"
proof (induction k arbitrary: n)
  case (Suc k)
  show ?case
  proof (cases "n < 10")
    case True
    then show ?thesis by (simp add: nat_text.simps [of n])
  next
    case False
    then have "0 < k" using Suc.prems(1) by (cases k) auto
    moreover have "n div 10 < 10 ^ k" using Suc.prems(1) by (simp add: div_less_iff_less_mult mult.commute)
    ultimately show ?thesis using Suc.IH [of "n div 10"] False by (simp add: nat_text.simps [of n])
  qed
qed simp

lemma size_text_short:
  assumes "n \<le> nat INT_MAX"
  shows "length (int_text (int n)) < BUFF_SIZE"
proof -
  have "n < 10 ^ 10" using assms by (simp add: INT_MAX_def)
  then have "length (nat_text n) \<le> 10" by (rule nat_text_length) simp
  then show ?thesis by (simp add: int_text_def BUFF_SIZE_def)
qed

section \<open>A connection that delivers messages\<close>

definition delivers :: "'w net \<Rightarrow> int \<Rightarrow> ('w \<Rightarrow> string list) \<Rightarrow> bool" where
  "delivers net fd pos \<longleftrightarrow>
     (\<forall>w. case pos w of
            [] \<Rightarrow> \<exists>w1. net_recv net fd BUFF_SIZE w = (Inr '''', w1) \<and> pos w1 = []
          | m # ms \<Rightarrow> \<exists>w1. net_recv net fd BUFF_SIZE w = (Inr m, w1) \<and> pos w1 = ms) \<and>
     (\<forall>m w. \<exists>n w1. net_send net fd m w = (Inr n, w1) \<and> pos w1 = pos w) \<and>
     (\<forall>p w. \<exists>w1. net_open_out net p w = (True, w1) \<and> pos w1 = pos w)"

lemma delivers_end:
  assumes "delivers net fd pos" and "pos w = []"
  shows "\<exists>w1. net_recv net fd BUFF_SIZE w = (Inr '''', w1) \<and> pos w1 = []"
  using assms unfolding delivers_def by (elim conjE allE [where x = w]) simp

lemma delivers_next:
  assumes "delivers net fd pos" and "pos w = m # ms"
  shows "\<exists>w1. net_recv net fd BUFF_SIZE w = (Inr m, w1) \<and> pos w1 = ms"
  using assms unfolding delivers_def by (elim conjE allE [where x = w]) simp

lemma delivers_send:
  assumes "delivers net fd pos"
  shows "\<exists>n w1. net_send net fd m w = (Inr n, w1) \<and> pos w1 = pos w"
  using assms unfolding delivers_def by blast

lemma delivers_open:
  assumes "delivers net fd pos"
  shows "\<exists>w1. net_open_out net p w = (True, w1) \<and> pos w1 = pos w"
  using assms unfolding delivers_def by blast

lemma at_client_known:
  "om_find (sv_clients s) fd = Some c \<Longrightarrow>
   at_client fd f s = Ok (f c) (s\<lparr>sv_clients := om_put fd (f c) (sv_clients s)\<rparr>)"
  by (simp add: at_client_def)

lemma overwrite_end [simp]: "overwrite x (length x) bytes = x @ bytes"
  by (simp add: overwrite_def)

text \<open>The contents: everything that is delivered goes to the end of the open file.\<close>

lemma write_output_stores:
  assumes "om_ok (sv_clients s)" and "om_find (sv_clients s) fd = Some c"
    and "c_output c = Some (path, length x)" "\<not> c_failed c" and "disk s path = Some x"
  shows "\<exists>cs. write_output fd b s = Ok () (s\<lparr>sv_clients := cs, disk := (disk s)(path \<mapsto> x @ b)\<rparr>) \<and> om_ok cs \<and>
    om_find cs = (om_find (sv_clients s))(fd \<mapsto> c\<lparr>c_output := Some (path, length (x @ b))\<rparr>)"
  using assms
  by (intro exI [of _ "om_put fd (c\<lparr>c_output := Some (path, length (x @ b))\<rparr>) (om_put fd c (sv_clients s))"])
    (simp add: write_output_def at_client_known om_ok_put om_find_put)

lemma data_loop_stores:
  assumes d: "delivers net fd pos" and "om_ok (sv_clients s)"
    and "om_find (sv_clients s) fd = Some c" and "c_output c = Some (path, length x)" "\<not> c_failed c"
    and "disk s path = Some x" and "b \<noteq> '''' \<or> pos (sv_world s) = []"
    and "\<forall>m \<in> set (pos (sv_world s)). m \<noteq> ''''"
  shows "\<exists>t. data_loop net fd b s = Some (Ok () t) \<and> om_ok (sv_clients t) \<and>
    om_find (sv_clients t) fd \<noteq> None \<and> disk t = (disk s)(path \<mapsto> x @ b @ concat (pos (sv_world s))) \<and>
    sv_replies t = sv_replies s"
  using assms(2-)
proof (induction "pos (sv_world s)" arbitrary: b s c x)
  case Nil
  note p = Nil.hyps [symmetric]
  show ?case
  proof (cases "b = ''''")
    case True
    then show ?thesis using Nil.prems p by (subst data_loop.simps) (auto simp: fun_upd_idem)
  next
    case False
    obtain cs where w: "write_output fd b s = Ok () (s\<lparr>sv_clients := cs, disk := (disk s)(path \<mapsto> x @ b)\<rparr>)"
      and cs: "om_ok cs" "om_find cs = (om_find (sv_clients s))(fd \<mapsto> c\<lparr>c_output := Some (path, length (x @ b))\<rparr>)"
      using write_output_stores [OF Nil.prems(1-5)] by blast
    let ?s = "s\<lparr>sv_clients := cs, disk := (disk s)(path \<mapsto> x @ b)\<rparr>"
    obtain w1 where "net_recv net fd BUFF_SIZE (sv_world s) = (Inr '''', w1)" using delivers_end [OF d p] by blast
    then have "data_loop net fd b s = data_loop net fd '''' (?s\<lparr>sv_world := w1\<rparr>)"
      using False w by (subst data_loop.simps) simp
    also have "\<dots> = Some (Ok () (?s\<lparr>sv_world := w1\<rparr>))" by (subst data_loop.simps) simp
    finally show ?thesis using cs p by (simp add: fun_upd_def)
  qed
next
  case (Cons m ms)
  note p = Cons.hyps(2) [symmetric]
  have b: "b \<noteq> ''''" and m: "m \<noteq> ''''" using Cons.prems(6,7) p by auto
  obtain w1 where w1: "net_recv net fd BUFF_SIZE (sv_world s) = (Inr m, w1)" "pos w1 = ms"
    using delivers_next [OF d p] by blast
  obtain cs where w: "write_output fd b s = Ok () (s\<lparr>sv_clients := cs, disk := (disk s)(path \<mapsto> x @ b)\<rparr>)"
    and cs: "om_ok cs" "om_find cs = (om_find (sv_clients s))(fd \<mapsto> c\<lparr>c_output := Some (path, length (x @ b))\<rparr>)"
    using write_output_stores [OF Cons.prems(1-5)] by blast
  let ?s = "s\<lparr>sv_clients := cs, disk := (disk s)(path \<mapsto> x @ b), sv_world := w1\<rparr>"
  have eq: "data_loop net fd b s = data_loop net fd m ?s"
    using b w w1(1) by (subst data_loop.simps) simp
  have "\<exists>t. data_loop net fd m ?s = Some (Ok () t) \<and> om_ok (sv_clients t) \<and>
    om_find (sv_clients t) fd \<noteq> None \<and>
    disk t = (disk ?s)(path \<mapsto> (x @ b) @ m @ concat (pos (sv_world ?s))) \<and> sv_replies t = sv_replies ?s"
  proof (rule Cons.hyps(1))
    show "ms = pos (sv_world ?s)" using w1(2) by simp
    show "om_ok (sv_clients ?s)" "om_find (sv_clients ?s) fd = Some (c\<lparr>c_output := Some (path, length (x @ b))\<rparr>)"
      "disk ?s path = Some (x @ b)"
      using cs by simp_all
    show "c_output (c\<lparr>c_output := Some (path, length (x @ b))\<rparr>) = Some (path, length (x @ b))"
      "\<not> c_failed (c\<lparr>c_output := Some (path, length (x @ b))\<rparr>)"
      using Cons.prems(4) by simp_all
    show "m \<noteq> '''' \<or> pos (sv_world ?s) = []" using m by simp
    show "\<forall>a \<in> set (pos (sv_world ?s)). a \<noteq> ''''" using Cons.prems(7) p w1(2) by simp
  qed
  then show ?case unfolding eq using p w1(2) by simp
qed

section \<open>Serving a client\<close>

text \<open>The parts of \<open>readFromClient\<close> when the calls below succeed.\<close>

lemma size_message:
  assumes "om_find (sv_clients s) fd = Some c"
    and "net_recv net fd BUFF_SIZE (sv_world s) = (Inr (int_text (int n)), w)" and "n \<le> nat INT_MAX"
  shows "getMsgFromClient net fd SIZE_CASE s =
    Some (Ok 0 (s\<lparr>sv_world := w, sv_clients := om_put fd (c\<lparr>c_fileSize := int n\<rparr>) (sv_clients s)\<rparr>))"
proof -
  have size_text: "buffer_text net (int_text (int n)) u = int_text (int n)" for u :: "'a ftp_server"
    by (rule buffer_text_short [OF int_text_no_nul size_text_short [OF assms(3)]])
  have "- INT_MAX - 1 \<le> int n" "int n \<le> INT_MAX" using assms(3) by (simp_all add: INT_MAX_def)
  then have "atoi (int_text (int n)) = int n" by (rule atoi_int_text)
  then show ?thesis using assms(1,2) by (simp add: getMsgFromClient_def Let_def at_client_known size_text)
qed

lemma name_message:
  assumes "om_find (sv_clients s) fd = Some c" and "net_recv net fd BUFF_SIZE (sv_world s) = (Inr name, w)"
    and "CHR 0x00 \<notin> set name" "length name < BUFF_SIZE"
  shows "getMsgFromClient net fd NAME_CASE s =
    Some (Ok 0 (s\<lparr>sv_world := w, sv_clients := om_put fd (c\<lparr>c_fileName := name\<rparr>) (sv_clients s)\<rparr>))"
  using assms(1,2) by (simp add: getMsgFromClient_def Let_def at_client_known buffer_text_short [OF assms(3,4)])

lemma answer_sent:
  assumes "om_ok (sv_clients s)" and "om_find (sv_clients s) fd = Some c"
    and "net_send net fd (if gMaxFileSize s < c_fileSize c then ''1'' else ''0'') (sv_world s) = (Inr k, w)"
  shows "and_then (at_client fd id s)
      (\<lambda>c s. reply net fd (if gMaxFileSize s < c_fileSize c then ''1'' else ''0'') s) =
    Ok () (s\<lparr>sv_clients := om_put fd c (sv_clients s), sv_world := w,
      sv_replies := sv_replies s @ [(fd, if gMaxFileSize s < c_fileSize c then ''1'' else ''0'')]\<rparr>)"
  using assms by (simp add: at_client_known reply_def sv_call_def)

lemma output_opened:
  assumes "om_ok (sv_clients s)" and "om_find (sv_clients s) fd = Some c" and "c_output c = None"
    and "net_open_out net (c_fileName c) (sv_world s) = (True, w)"
  shows "\<exists>cs. open_output net fd s =
      Ok () (s\<lparr>sv_clients := cs, sv_world := w, disk := (disk s)(c_fileName c \<mapsto> '''')\<rparr>) \<and> om_ok cs \<and>
    om_find cs = (om_find (sv_clients s))(fd \<mapsto> c\<lparr>c_output := Some (c_fileName c, 0), c_failed := False\<rparr>)"
  using assms
  by (intro exI [of _ "om_put fd (c\<lparr>c_output := Some (c_fileName c, 0), c_failed := False\<rparr>) (om_put fd c (sv_clients s))"])
    (simp add: open_output_def at_client_known sv_call_def om_ok_put om_find_put)

text \<open>Size, name and contents, each in a message of its own.\<close>

lemma readFromClient_stores:
  assumes d: "delivers net fd pos" and ok: "om_ok (sv_clients s)"
    and c: "om_find (sv_clients s) fd = Some c" "c_output c = None"
    and p: "pos (sv_world s) = int_text (int n) # name # ms"
    and n: "n \<le> nat INT_MAX" and name: "CHR 0x00 \<notin> set name" "length name < BUFF_SIZE"
    and ms: "\<forall>m \<in> set ms. m \<noteq> ''''"
  shows "\<exists>t. readFromClient net fd s = Some (Ok SUCCESS t) \<and> disk t = (disk s)(name \<mapsto> concat ms) \<and>
    sv_replies t = sv_replies s @ [(fd, if gMaxFileSize s < int n then ''1'' else ''0'')]"
proof -
  obtain w1 where w1: "net_recv net fd BUFF_SIZE (sv_world s) = (Inr (int_text (int n)), w1)" "pos w1 = name # ms"
    using delivers_next [OF d p] by blast
  let ?c1 = "c\<lparr>c_fileSize := int n\<rparr>"
  let ?s1 = "s\<lparr>sv_world := w1, sv_clients := om_put fd ?c1 (sv_clients s)\<rparr>"
  note 1 = size_message [OF c(1) w1(1) n]
  have c1: "om_ok (sv_clients ?s1)" "om_find (sv_clients ?s1) fd = Some ?c1"
    using ok by (simp_all add: om_ok_put om_find_put)
  let ?m = "if gMaxFileSize s < int n then ''1'' else ''0''"
  obtain k w2 where w2: "net_send net fd ?m w1 = (Inr k, w2)" "pos w2 = name # ms"
    using delivers_send [OF d] w1(2) by metis
  let ?s2 = "?s1\<lparr>sv_clients := om_put fd ?c1 (sv_clients ?s1), sv_world := w2,
    sv_replies := sv_replies s @ [(fd, ?m)]\<rparr>"
  have 2: "and_then (at_client fd id ?s1)
      (\<lambda>c s. reply net fd (if gMaxFileSize s < c_fileSize c then ''1'' else ''0'') s) = Ok () ?s2"
    using answer_sent [OF c1, of net k w2] w2(1) by simp
  have c2: "om_ok (sv_clients ?s2)" "om_find (sv_clients ?s2) fd = Some ?c1"
    using c1(1) by (simp_all add: om_ok_put om_find_put)
  obtain w3 where w3: "net_recv net fd BUFF_SIZE w2 = (Inr name, w3)" "pos w3 = ms"
    using delivers_next [OF d w2(2)] by blast
  let ?c3 = "?c1\<lparr>c_fileName := name\<rparr>"
  let ?s3 = "?s2\<lparr>sv_world := w3, sv_clients := om_put fd ?c3 (sv_clients ?s2)\<rparr>"
  have 3: "getMsgFromClient net fd NAME_CASE ?s2 = Some (Ok 0 ?s3)"
    using name_message [OF c2(2) _ name, of net w3] w3(1) by simp
  have c3: "om_ok (sv_clients ?s3)" "om_find (sv_clients ?s3) fd = Some ?c3"
    using c2(1) by (simp_all add: om_ok_put om_find_put)
  obtain w4 where w4: "net_open_out net name w3 = (True, w4)" "pos w4 = ms"
    using delivers_open [OF d] w3(2) by metis
  let ?c4 = "?c3\<lparr>c_output := Some (name, 0), c_failed := False\<rparr>"
  obtain s4 where 4: "open_output net fd ?s3 = Ok () s4" and s4: "om_ok (sv_clients s4)"
    "om_find (sv_clients s4) fd = Some ?c4" "sv_world s4 = w4" "disk s4 = (disk s)(name \<mapsto> '''')"
    "sv_replies s4 = sv_replies s @ [(fd, ?m)]"
    using output_opened [OF c3, of net w4] w4(1) c(2) by auto
  obtain b w5 where w5: "net_recv net fd BUFF_SIZE w4 = (Inr b, w5)"
    "b @ concat (pos w5) = concat ms" "b \<noteq> '''' \<or> pos w5 = []" "\<forall>m \<in> set (pos w5). m \<noteq> ''''"
  proof (cases ms)
    case Nil
    then show thesis using delivers_end [OF d, of w4] w4(2) that by auto
  next
    case (Cons m qs)
    then show thesis using delivers_next [OF d, of w4 m qs] w4(2) that ms by auto
  qed
  let ?s5 = "s4\<lparr>sv_world := w5\<rparr>"
  obtain t where t: "data_loop net fd b ?s5 = Some (Ok () t)" "om_ok (sv_clients t)"
    "om_find (sv_clients t) fd \<noteq> None" "disk t = (disk ?s5)(name \<mapsto> '''' @ b @ concat (pos (sv_world ?s5)))"
    "sv_replies t = sv_replies ?s5"
    using data_loop_stores [OF d, of ?s5 ?c4 name "''''" b] s4 w5(3,4) by auto
  have dt: "disk t = (disk s)(name \<mapsto> concat ms)" using t(4) s4(4) w5(2) by simp
  have rt: "sv_replies t = sv_replies s @ [(fd, ?m)]" using t(5) s4(5) by simp
  have 5: "getMsgFromClient net fd DATA_CASE s4 = Some (Ok 0 t)"
    using w5(1) s4(3) t(1) by (simp add: getMsgFromClient_def Let_def)
  obtain cs where 6: "close_output fd t = Ok () (t\<lparr>sv_clients := cs\<rparr>)"
    using t(3) by (auto simp: close_output_def at_client_known)
  show ?thesis unfolding readFromClient_def 1 then_opt_simps
    using 2 3 4 5 6 dt rt by simp
qed

section \<open>What serving a client leaves alone\<close>

definition serves_only :: "int \<Rightarrow> 'w ftp_server \<Rightarrow> 'w ftp_server \<Rightarrow> bool" where
  "serves_only fd s t \<longleftrightarrow>
     sv_threads t = sv_threads s \<and> sv_clientFd t = sv_clientFd s \<and> sv_entering t = sv_entering s \<and>
     gServerFd t = gServerFd s \<and>
     gMaxFileSize t = gMaxFileSize s \<and>
     (om_ok (sv_clients s) \<longrightarrow>
        om_ok (sv_clients t) \<and> (\<forall>x. x \<noteq> fd \<longrightarrow> om_find (sv_clients t) x = om_find (sv_clients s) x))"

lemma serves_only_refl [simp]: "serves_only fd s s"
  by (simp add: serves_only_def)

lemma serves_only_trans: "serves_only fd s t \<Longrightarrow> serves_only fd t u \<Longrightarrow> serves_only fd s u"
  by (simp add: serves_only_def)

lemma serves_only_updates [simp]:
  "serves_only fd s (t\<lparr>sv_world := w\<rparr>) = serves_only fd s t"
  "serves_only fd s (t\<lparr>disk := d\<rparr>) = serves_only fd s t"
  "serves_only fd s (t\<lparr>sv_replies := r\<rparr>) = serves_only fd s t"
  "serves_only fd s (sv_error f e t) = serves_only fd s t"
  by (simp_all add: serves_only_def sv_error_def)

lemma serves_only_put [simp]: "serves_only fd s (s\<lparr>sv_clients := om_put fd c (sv_clients s)\<rparr>)"
  by (simp add: serves_only_def om_ok_put om_find_put)

text \<open>The same for a result: the state it leaves behind, if any.\<close>

fun keeps :: "int \<Rightarrow> 'w ftp_server \<Rightarrow> ('a, 'w ftp_server) outcome \<Rightarrow> bool" where
  "keeps fd s (Ok a t) = serves_only fd s t"
| "keeps fd s (Exits c t) = serves_only fd s t"
| "keeps fd s (Faults e) = True"

definition keeps_opt :: "int \<Rightarrow> 'w ftp_server \<Rightarrow> ('a, 'w ftp_server) outcome option \<Rightarrow> bool" where
  "keeps_opt fd s r = (case r of None \<Rightarrow> True | Some q \<Rightarrow> keeps fd s q)"

lemma keeps_opt_simps [simp]: "keeps_opt fd s None" "keeps_opt fd s (Some q) = keeps fd s q"
  by (simp_all add: keeps_opt_def)

lemma keeps_trans: "serves_only fd s t \<Longrightarrow> keeps fd t r \<Longrightarrow> keeps fd s r"
  by (cases r) (auto intro: serves_only_trans)

lemma keeps_and_then:
  assumes "keeps fd s m" and "\<And>a u. m = Ok a u \<Longrightarrow> keeps fd u (k a u)"
  shows "keeps fd s (and_then m k)"
  using assms by (cases m) (auto intro: keeps_trans)

lemma keeps_then_opt:
  assumes "keeps_opt fd s m" and "\<And>a u. m = Some (Ok a u) \<Longrightarrow> keeps_opt fd u (k a u)"
  shows "keeps_opt fd s (then_opt m k)"
  using assms
  by (auto simp: then_opt_def keeps_opt_def intro: keeps_trans split: option.splits outcome.splits)

lemma at_client_keeps: "keeps fd s (at_client fd f s)"
  by (simp add: at_client_def split: option.split)

lemma sv_call_keeps: "keeps fd s (sv_call f s)"
  by (simp add: sv_call_def split: prod.split)

lemma write_output_keeps: "keeps fd s (write_output fd b s)"
  unfolding write_output_def
  by (intro keeps_and_then at_client_keeps) (auto split: option.split intro!: keeps_and_then at_client_keeps)

lemma data_loop_keeps: "keeps_opt fd s (data_loop net fd b s)"
proof (cases "data_loop net fd b s")
  case (Some r)
  have "keeps fd s r"
  proof (rule data_loop.raw_induct [where P = "\<lambda>net fd b s r. keeps fd s r", OF _ Some], goal_cases)
    case (1 loop net fd b s r)
    show ?case
    proof (cases "b = ''''")
      case True
      then show ?thesis using 1(2) by auto
    next
      case False
      show ?thesis
      proof (cases "write_output fd b s")
        case (Ok u t)
        have st: "serves_only fd s t" using write_output_keeps [of fd s b] Ok by simp
        obtain q w where q: "net_recv net fd BUFF_SIZE (sv_world t) = (q, w)" by fastforce
        show ?thesis
        proof (cases q)
          case (Inl e)
          then show ?thesis using 1(2) False Ok q st by auto
        next
          case (Inr piece)
          then have "loop net fd piece (t\<lparr>sv_world := w\<rparr>) = Some r" using 1(2) False Ok q by simp
          then have "keeps fd (t\<lparr>sv_world := w\<rparr>) r" by (rule 1(1))
          then show ?thesis by (rule keeps_trans [rotated]) (simp add: st)
        qed
      next
        case (Exits x t)
        then show ?thesis using 1(2) False write_output_keeps [of fd s b] by auto
      next
        case (Faults e)
        then show ?thesis using 1(2) False write_output_keeps [of fd s b] by auto
      qed
    qed
  qed
  then show ?thesis using Some by simp
qed simp

lemma getMsgFromClient_keeps: "keeps_opt fd s (getMsgFromClient net fd k s)"
proof -
  obtain r w where r: "net_recv net fd BUFF_SIZE (sv_world s) = (r, w)" by fastforce
  let ?s = "s\<lparr>sv_world := w\<rparr>"
  have s: "serves_only fd s ?s" by simp
  show ?thesis
  proof (cases r)
    case (Inl e)
    then show ?thesis using r by (simp add: getMsgFromClient_def)
  next
    case (Inr b)
    have at: "keeps fd s (and_then (at_client fd f ?s) (\<lambda>_. Ok SUCCESS))" for f
      by (rule keeps_trans [OF s]) (intro keeps_and_then at_client_keeps, simp)
    show ?thesis
    proof (cases k)
      case DATA_CASE
      show ?thesis
      proof (cases "data_loop net fd b ?s")
        case (Some q)
        have "keeps fd ?s q" using data_loop_keeps [of fd ?s net b] Some by simp
        then have "keeps fd s (and_then q (\<lambda>_. Ok SUCCESS))"
          by (intro keeps_trans [OF s] keeps_and_then) simp_all
        then show ?thesis using Inr r DATA_CASE Some by (simp add: getMsgFromClient_def Let_def)
      qed (simp add: getMsgFromClient_def Let_def r Inr DATA_CASE)
    qed (simp_all add: getMsgFromClient_def Let_def r Inr at)
  qed
qed

lemma reply_keeps: "keeps fd s (reply net fd m s)"
  unfolding reply_def by (intro keeps_and_then sv_call_keeps) (simp split: sum.split)

lemma open_output_keeps: "keeps fd s (open_output net fd s)"
  unfolding open_output_def
  by (intro keeps_and_then at_client_keeps) (auto intro!: keeps_and_then at_client_keeps sv_call_keeps)

lemma close_output_keeps: "keeps fd s (close_output fd s)"
  unfolding close_output_def by (intro keeps_and_then at_client_keeps) simp

lemma readFromClient_keeps: "keeps_opt fd s (readFromClient net fd s)"
proof -
  have size: "keeps_opt fd u (Some (and_then (at_client fd id u)
      (\<lambda>c s. reply net fd (if gMaxFileSize s < c_fileSize c then ''1'' else ''0'') s)))" for u
    unfolding keeps_opt_simps by (intro keeps_and_then at_client_keeps reply_keeps)
  have close: "keeps_opt fd u (Some (and_then (close_output fd u) (\<lambda>_. Ok SUCCESS)))" for u
    unfolding keeps_opt_simps by (intro keeps_and_then close_output_keeps) simp
  have opn: "keeps_opt fd u (Some (open_output net fd u))" for u by (simp add: open_output_keeps)
  show ?thesis unfolding readFromClient_def
    by (intro keeps_then_opt getMsgFromClient_keeps) (auto intro!: keeps_then_opt getMsgFromClient_keeps size close opn)
qed

end
