(* ===== verification/Ftp_Props.thy ===== *)
theory Ftp_Props
  imports Ftp_Upload
begin

text \<open>
  The properties of the file transfer programs, C36 and C39. The small system of the witnesses has as
  its world the descriptors \<open>accept\<close> will return and the messages that wait.
\<close>

definition demo_net :: "(int list \<times> string list) net" where
  "demo_net =
     \<lparr>net_hostname = (\<lambda>w. (''host'', w)), net_resolve = (\<lambda>h w. (Inr ''addr'', w)),
      net_socket = (\<lambda>w. (Inr 3, w)), net_connect = (\<lambda>fd a p w. (Inr (), w)),
      net_bind = (\<lambda>fd p w. (Inr (), w)), net_listen = (\<lambda>fd n w. (Inr (), w)),
      net_accept = (\<lambda>fd w. case w of ([], ms) \<Rightarrow> (0, w) | (x # xs, ms) \<Rightarrow> (x, (xs, ms))),
      net_send = (\<lambda>fd m w. (Inr (int (length m)), w)),
      net_recv = (\<lambda>fd n w. if n = 1 then (Inr ''0'', w)
                        else case w of (xs, []) \<Rightarrow> (Inr '''', w) | (xs, m # ms) \<Rightarrow> (Inr m, (xs, ms))),
      net_close = (\<lambda>fd w. (Inr (), w)), net_thread = (\<lambda>w. (Inr (), w)),
      net_open_in = (\<lambda>p w. (Some ''hello'', w)), net_open_out = (\<lambda>p w. (True, w)),
      net_heap = (\<lambda>w. '''')\<rparr>"

lemma demo_net_calls:
  "net_accept demo_net fd (x # xs, ms) = (x, (xs, ms))"
  "net_thread demo_net w = (Inr (), w)"
  "net_send demo_net fd m w = (Inr (int (length m)), w)"
  "net_recv demo_net fd 1024 (xs, []) = (Inr '''', (xs, []))"
  "net_recv demo_net fd 1024 (xs, m # ms) = (Inr m, (xs, ms))"
  "net_open_out demo_net p w = (True, w)"
  by (simp_all add: demo_net_def)

lemma demo_delivers: "delivers demo_net fd snd"
  by (auto simp: delivers_def demo_net_def BUFF_SIZE_def split: list.split)

definition demo_server :: "int \<Rightarrow> string list \<Rightarrow> (int list \<times> string list) ftp_server" where
  "demo_server k ms =
     (initial_server ([], ms))\<lparr>gMaxFileSize := k, sv_clients := [(5, new_client_rec)]\<rparr>"

section \<open>Arguments\<close>

text \<open>An optional sign and at least one digit, by the first character.\<close>

definition number_text :: "string \<Rightarrow> bool" where
  "number_text s \<longleftrightarrow>
     (\<exists>sign ds. s = sign @ ds \<and> sign \<in> {'''', ''-'', ''+''} \<and> ds \<noteq> '''' \<and> list_all isdigit ds)"

lemma number_text_Nil: "\<not> number_text ''''"
  by (simp add: number_text_def)

lemma number_text_sign:
  assumes "c = CHR ''-'' \<or> c = CHR ''+''"
  shows "number_text (c # r) \<longleftrightarrow> r \<noteq> '''' \<and> list_all isdigit r"
proof
  assume "number_text (c # r)"
  then obtain sign ds where s: "c # r = sign @ ds" "sign \<in> {'''', ''-'', ''+''}" "ds \<noteq> ''''" "list_all isdigit ds"
    unfolding number_text_def by blast
  moreover have "\<not> isdigit c" using assms isdigit_not_special(2,3) [of c] by blast
  ultimately show "r \<noteq> '''' \<and> list_all isdigit r" by (cases sign) auto
next
  assume "r \<noteq> '''' \<and> list_all isdigit r"
  then show "number_text (c # r)" unfolding number_text_def using assms
    by (intro exI [of _ "[c]"] exI [of _ r]) auto
qed

lemma number_text_digit:
  assumes "c \<noteq> CHR ''-''" and "c \<noteq> CHR ''+''"
  shows "number_text (c # r) \<longleftrightarrow> isdigit c \<and> list_all isdigit r"
proof
  assume "number_text (c # r)"
  then obtain sign ds where "c # r = sign @ ds" "sign \<in> {'''', ''-'', ''+''}" "list_all isdigit ds"
    unfolding number_text_def by blast
  then show "isdigit c \<and> list_all isdigit r" using assms by (cases sign) auto
next
  assume "isdigit c \<and> list_all isdigit r"
  then show "number_text (c # r)" unfolding number_text_def
    by (intro exI [of _ "''''"] exI [of _ "c # r"]) auto
qed

text \<open>
  \<open>isInteger\<close> accepts a string (up to a null byte) exactly if it is an optional sign and at least
  one digit, and nothing else.
\<close>

lemma isInteger_iff: "isInteger s = number_text (c_str s)"
proof (cases s)
  case Nil
  then show ?thesis by (simp add: isInteger_def c_str_def number_text_Nil)
next
  case (Cons c cs)
  show ?thesis
  proof (cases "c = CHR 0x00")
    case True
    then show ?thesis using Cons isdigit_not_special(4) [of c]
      by (auto simp: isInteger_def c_str_def number_text_Nil)
  next
    case False
    then have c: "c_str (c # cs) = c # c_str cs" by (simp add: c_str_def)
    have i: "isInteger s \<longleftrightarrow>
        (isdigit c \<or> c = CHR ''-'' \<or> c = CHR ''+'') \<and> snd (strtol (c # c_str cs)) = []"
      by (auto simp: isInteger_def Cons c)
    show ?thesis
    proof (cases "c = CHR ''-'' \<or> c = CHR ''+''")
      case True
      then have "\<not> isspace c" by (auto simp: isspace_def)
      then show ?thesis unfolding i unfolding Cons c
        using True strtol_rest_iff [of "c # c_str cs"] by (simp add: number_text_sign Let_def)
    next
      case ns: False
      have "\<not> isspace c" if "isdigit c" using that isdigit_not_special(1) by blast
      then show ?thesis unfolding i unfolding Cons c
        using ns strtol_rest_iff [of "c # c_str cs"] by (auto simp: number_text_digit)
    qed
  qed
qed

section \<open>Uploads\<close>

text \<open>The server's answer reaches the client, and the byte behind its buffer is not a digit.\<close>

definition answered :: "'w net \<Rightarrow> int \<Rightarrow> bool" where
  "answered net fd \<longleftrightarrow>
     (\<forall>w. \<exists>w1. net_recv net fd 1 w = (Inr ''0'', w1) \<and> atoi (''0'' @ drop 1 (net_heap net w1)) = 0)"

lemma upload_messages:
  assumes "accepts nc (cl_server k)" and "answered nc (cl_server k)"
    and "net_open_in nc path (cl_world k) = (Some c, w0)" and "length c \<le> nat INT_MAX"
  shows "\<exists>k'. writeToServer nc path name k = Ok SUCCESS k' \<and>
    cl_sent k' = cl_sent k @ int_text (int (length c)) # name # chunks c"
proof -
  let ?n = "int (length c)"
  have n: "as_int ?n = ?n" using assms(4) by (intro as_int_small) (simp_all add: INT_MAX_def)
  let ?k0 = "k\<lparr>cl_world := w0\<rparr>"
  obtain w1 where w1: "sendMsgToServer nc (int_text ?n) ?k0 =
      Ok () (?k0\<lparr>cl_world := w1, cl_sent := cl_sent ?k0 @ [int_text ?n]\<rparr>)"
    using send_accepted [of nc ?k0 "int_text ?n"] assms(1) by auto
  obtain w2 where w2: "net_recv nc (cl_server k) 1 w1 = (Inr ''0'', w2)"
    "atoi (''0'' @ drop 1 (net_heap nc w2)) = 0"
    using assms(2) unfolding answered_def by blast
  let ?k2 = "k\<lparr>cl_sent := cl_sent k @ [int_text ?n], cl_world := w2\<rparr>"
  obtain w3 where w3: "sendMsgToServer nc name ?k2 = Ok () (?k2\<lparr>cl_world := w3, cl_sent := cl_sent ?k2 @ [name]\<rparr>)"
    using send_accepted [of nc ?k2 name] assms(1) by auto
  let ?k3 = "?k2\<lparr>cl_world := w3, cl_sent := cl_sent ?k2 @ [name]\<rparr>"
  obtain w4 where w4: "send_loop nc ?n c ?k3 = Ok () (?k3\<lparr>cl_world := w4, cl_sent := cl_sent ?k3 @ chunks c\<rparr>)"
    using send_loop_accepted [of nc ?k3 c] assms(1) by auto
  show ?thesis using assms(3) n w1 w2 w3 w4
    by (auto simp: writeToServer_def cl_call_def Let_def reciveMsg_def)
qed

text \<open>
  C36: the client sends the size, the name and the contents of a file in pieces of at most 1024
  bytes; a server that gets these messages one by one, with the file within its limit, answers
  0 and stores exactly the file under that name.
\<close>

theorem upload_stores:
  assumes "accepts nc (cl_server k)" and "answered nc (cl_server k)"
    and "net_open_in nc path (cl_world k) = (Some c, w0)" and "length c \<le> nat INT_MAX" and "cl_sent k = []"
    and "delivers ns fd pos" and "om_ok (sv_clients s)" and "om_find (sv_clients s) fd = Some r" and "c_output r = None"
    and "CHR 0x00 \<notin> set name" and "length name < BUFF_SIZE" and "int (length c) \<le> gMaxFileSize s"
  shows "\<exists>k'. writeToServer nc path name k = Ok SUCCESS k' \<and>
    (\<forall>m \<in> set (cl_sent k'). length m \<le> BUFF_SIZE) \<and>
    (pos (sv_world s) = cl_sent k' \<longrightarrow>
       (\<exists>t. readFromClient ns fd s = Some (Ok SUCCESS t) \<and> disk t = (disk s)(name \<mapsto> c) \<and>
            sv_replies t = sv_replies s @ [(fd, ''0'')]))"
proof -
  obtain k' where k': "writeToServer nc path name k = Ok SUCCESS k'"
    "cl_sent k' = int_text (int (length c)) # name # chunks c"
    using upload_messages [OF assms(1-4), of name] assms(5) by auto
  have "\<exists>t. readFromClient ns fd s = Some (Ok SUCCESS t) \<and> disk t = (disk s)(name \<mapsto> c) \<and>
      sv_replies t = sv_replies s @ [(fd, ''0'')]" if "pos (sv_world s) = cl_sent k'"
    using readFromClient_stores [OF assms(6-9), of "length c" name "chunks c"] that k'(2)
      assms(4,10-12) chunks_size concat_chunks [of c] by auto
  moreover have "\<forall>m \<in> set (cl_sent k'). length m \<le> BUFF_SIZE"
    using k'(2) size_text_short [OF assms(4)] assms(11) chunks_size by auto
  ultimately show ?thesis using k'(1) by blast
qed

lemma upload_stores_witness:
  "\<exists>k'. writeToServer demo_net ''file'' ''copy'' (new_client ([], [])) = Ok SUCCESS k' \<and>
    (snd (sv_world (demo_server 9 [''5'', ''copy'', ''hello''])) = cl_sent k' \<longrightarrow>
       (\<exists>t. readFromClient demo_net 5 (demo_server 9 [''5'', ''copy'', ''hello'']) = Some (Ok SUCCESS t) \<and>
          disk t ''copy'' = Some ''hello''))"
proof -
  have a0: "atoi ''0'' = 0" by code_simp
  have "accepts demo_net 0" by (simp add: accepts_def demo_net_def)
  moreover have "answered demo_net 0" by (simp add: answered_def demo_net_def a0)
  ultimately show ?thesis
    using upload_stores [of demo_net "new_client ([], [])" "''file''" "''hello''" "([], [])" demo_net 5 snd
        "demo_server 9 [''5'', ''copy'', ''hello'']" new_client_rec "''copy''"] demo_delivers [of 5]
    by (auto simp: new_client_def demo_server_def initial_server_def BUFF_SIZE_def INT_MAX_def demo_net_def new_client_rec_def)
qed

text \<open>
  The limit is only announced. A server that gets a size above its limit answers 1 and then
  takes and stores what comes, whatever its length.
\<close>

lemma limit_not_enforced:
  assumes "delivers net fd pos" and "om_ok (sv_clients s)" and "om_find (sv_clients s) fd = Some r" and "c_output r = None"
    and "pos (sv_world s) = int_text (int n) # name # ms" and "n \<le> nat INT_MAX"
    and "CHR 0x00 \<notin> set name" and "length name < BUFF_SIZE" and "\<forall>m \<in> set ms. m \<noteq> ''''"
    and "gMaxFileSize s < int n"
  shows "\<exists>t. readFromClient net fd s = Some (Ok SUCCESS t) \<and>
    sv_replies t = sv_replies s @ [(fd, ''1'')] \<and> disk t = (disk s)(name \<mapsto> concat ms)"
  using readFromClient_stores [OF assms(1-9)] assms(10) by auto

lemma limit_not_enforced_example:
  "\<exists>t. readFromClient demo_net 5 (demo_server 3 [''5'', ''copy'', ''hello'']) = Some (Ok SUCCESS t) \<and>
     disk t ''copy'' = Some ''hello''"
proof -
  have "int_text (int 5) = ''5''" by code_simp
  then show ?thesis
    using limit_not_enforced [OF demo_delivers, of "demo_server 3 [''5'', ''copy'', ''hello'']" 5
        new_client_rec 5 "''copy''" "[''hello'']"]
    by (auto simp: demo_server_def initial_server_def BUFF_SIZE_def INT_MAX_def new_client_rec_def)
qed

section \<open>Threads\<close>

lemma accept_round_new:
  assumes "net_accept net (gServerFd s) (sv_world s) = (a, w1)" and "net_thread net w1 = (Inr x, w2)" and "0 < a"
  shows "accept_round net s = Ok SUCCESS
    (s\<lparr>sv_world := w2, sv_clientFd := a, sv_clients := om_put a new_client_rec (sv_clients s),
       sv_threads := sv_threads s @ [Created]\<rparr>)"
  using assms by (simp add: accept_round_def accept_client_def enter_client_def sv_call_def Let_def)

lemma run_thread_ends:
  assumes "run_thread net i s = Some (Ok r t)" and "om_ok (sv_clients s)"
  shows "sv_threads t = (sv_threads s)[i := Ended (sv_clientFd s)] \<and> sv_clientFd t = sv_clientFd s \<and>
    om_ok (sv_clients t) \<and>
    (\<forall>x. x \<noteq> sv_clientFd s \<longrightarrow> om_find (sv_clients t) x = om_find (sv_clients s) x)"
  using assms readFromClient_keeps [of "sv_clientFd s" s net]
  by (auto simp: run_thread_def Let_def serves_only_def split: if_splits option.splits outcome.splits)

text \<open>
  C39: \<open>run\<close> gets a pointer to the variable of the main thread. When two clients are accepted before
  the first thread reads it, both threads serve the second one, and the first is never served.
\<close>

theorem first_client_lost:
  assumes "om_ok (sv_clients s)" and "sv_threads s = []" and "0 < a" and "0 < b" and "a \<noteq> b"
    and "net_accept net (gServerFd s) (sv_world s) = (a, w1)" and "net_thread net w1 = (Inr x, w2)"
    and "net_accept net (gServerFd s) w2 = (b, w3)" and "net_thread net w3 = (Inr y, w4)"
    and "run_events (server_exec net) [AcceptRound, AcceptRound, RunThread 0, RunThread 1] s = Some (Ok rs t)"
  shows "sv_threads t = [Ended b, Ended b] \<and> om_find (sv_clients t) a = Some new_client_rec"
proof -
  let ?s1 = "s\<lparr>sv_world := w2, sv_clientFd := a, sv_clients := om_put a new_client_rec (sv_clients s),
       sv_threads := sv_threads s @ [Created]\<rparr>"
  let ?s2 = "?s1\<lparr>sv_world := w4, sv_clientFd := b, sv_clients := om_put b new_client_rec (sv_clients ?s1),
       sv_threads := sv_threads ?s1 @ [Created]\<rparr>"
  have "accept_round net s = Ok SUCCESS ?s1" by (rule accept_round_new) fact+
  moreover have "accept_round net ?s1 = Ok SUCCESS ?s2"
    by (rule accept_round_new) (use assms(4,8,9) in simp_all)
  ultimately obtain r0 s3 r1 where r: "run_thread net 0 ?s2 = Some (Ok r0 s3)" "run_thread net 1 s3 = Some (Ok r1 t)"
    using assms(10) by (auto split: option.splits outcome.splits)
  have ok: "om_ok (sv_clients ?s2)" using assms(1) by (simp add: om_ok_put)
  have a: "om_find (sv_clients ?s2) a = Some new_client_rec"
    using assms(1,5) by (simp add: om_ok_put om_find_put)
  note t3 = run_thread_ends [OF r(1) ok]
  then have "om_ok (sv_clients s3)" by blast
  note t4 = run_thread_ends [OF r(2) this]
  show ?thesis using t3 t4 a assms(2,5) by simp
qed

lemma demo_run:
  "\<exists>rs t. run_events (server_exec demo_net) [AcceptRound, AcceptRound, RunThread 0, RunThread 1]
      (initial_server ([7, 8], [''5'', ''copy'', ''hello''])) = Some (Ok rs t)"
proof -
  have bt: "buffer_text demo_net m s = m" if "CHR 0x00 \<notin> set m" "length m < 1024" for m s
    using buffer_text_short that by (simp add: BUFF_SIZE_def)
  have at: "atoi ''5'' = 5" "atoi '''' = 0" by code_simp+
  show ?thesis
    by (simp add: initial_server_def accept_round_def accept_client_def enter_client_def run_thread_def readFromClient_def bt at
        getMsgFromClient_def demo_net_calls sv_call_def at_client_def reply_def open_output_def
        close_output_def data_loop.simps write_output_def Let_def new_client_rec_def BUFF_SIZE_def)
qed

lemma first_client_lost_witness:
  "\<exists>rs t. run_events (server_exec demo_net) [AcceptRound, AcceptRound, RunThread 0, RunThread 1]
      (initial_server ([7, 8], [''5'', ''copy'', ''hello''])) = Some (Ok rs t) \<and>
    sv_threads t = [Ended 8, Ended 8]"
proof -
  let ?s = "initial_server ([7, 8], [''5'', ''copy'', ''hello''])"
  obtain rs t where r: "run_events (server_exec demo_net) [AcceptRound, AcceptRound, RunThread 0, RunThread 1] ?s
      = Some (Ok rs t)"
    using demo_run by blast
  have "sv_threads t = [Ended 8, Ended 8]"
    using first_client_lost [OF _ _ _ _ _ _ _ _ _ r, of 7 8] by (simp add: initial_server_def demo_net_def)
  then show ?thesis using r by blast
qed

end
