(* ===== verification/Ftp_Threads.thy ===== *)
theory Ftp_Threads
  imports Ftp_Upload
begin

text \<open>
  The threads of the server at the same time. A step of a thread (\<open>serve\<close>) is what it does from one
  \<open>recv\<close> up to the next one; between its steps the main thread and other threads may run. The map of
  clients is shared, the record in it belongs to a descriptor.
\<close>

section \<open>The steps of a thread\<close>

text \<open>\<open>pthread_exit\<close> ends the thread.\<close>

definition or_ends :: "int \<Rightarrow> (sthread, 'w ftp_server) outcome \<Rightarrow> (sthread, 'w ftp_server) outcome" where
  "or_ends fd m = (case m of Exits c t \<Rightarrow> Ok (Ended fd) t | _ \<Rightarrow> m)"

fun serve :: "'w net \<Rightarrow> sthread \<Rightarrow> 'w ftp_server \<Rightarrow> (sthread, 'w ftp_server) outcome option" where
  "serve net Created s = Some (Ok (AwaitsSize (sv_clientFd s)) s)"
| "serve net (AwaitsSize fd) s =
     then_opt (getMsgFromClient net fd SIZE_CASE s)
       (\<lambda>r s. if r \<noteq> 0 then Some (Ok (Ended fd) s)
          else
            Some (or_ends fd
              (and_then (at_client fd id s)
                (\<lambda>c s. and_then (reply net fd (if gMaxFileSize s < c_fileSize c then ''1'' else ''0'') s)
                  (\<lambda>_. Ok (AwaitsName fd))))))"
| "serve net (AwaitsName fd) s =
     then_opt (getMsgFromClient net fd NAME_CASE s)
       (\<lambda>r s. if r \<noteq> 0 then Some (Ok (Ended fd) s)
          else Some (and_then (open_output net fd s) (\<lambda>_. Ok (Storing fd True))))"
| "serve net (Storing fd first) s =
     (case net_recv net fd BUFF_SIZE (sv_world s) of
        (r, w) \<Rightarrow>
          (let s = s\<lparr>sv_world := w\<rparr> in
           case r of
             Inl e \<Rightarrow> Some (and_then (close_output fd (if first then sv_error ''recv'' e s else s)) (\<lambda>_. Ok (Ended fd)))
           | Inr bytes \<Rightarrow>
               if bytes = '''' then Some (and_then (close_output fd s) (\<lambda>_. Ok (Ended fd)))
               else Some (and_then (write_output fd bytes s) (\<lambda>_. Ok (Storing fd False)))))"
| "serve net (Ended fd) s = None"

definition serve_step :: "'w net \<Rightarrow> nat \<Rightarrow> 'w ftp_server \<Rightarrow> (int, 'w ftp_server) outcome option" where
  "serve_step net i s =
     (if length (sv_threads s) \<le> i then None
      else
        then_opt (serve net (sv_threads s ! i) s)
          (\<lambda>ph t. Some (Ok 0 (t\<lparr>sv_threads := (sv_threads t)[i := ph]\<rparr>))))"

text \<open>
  The main thread takes two steps for a client: \<open>accept\<close> assigns \<open>clientFd\<close>, and then the descriptor is
  entered into the map and a thread is created. A thread that starts in between reads a
  descriptor that is not in the map yet.
\<close>

datatype mt_event = Accept | Enter | Serve nat

fun mt_exec :: "'w net \<Rightarrow> mt_event \<Rightarrow> 'w ftp_server \<Rightarrow> (int, 'w ftp_server) outcome option" where
  "mt_exec net Accept s =
     (if sv_entering s then None
      else Some (and_then (accept_client net s) (\<lambda>fd s. Ok SUCCESS (s\<lparr>sv_entering := 0 < fd\<rparr>))))"
| "mt_exec net Enter s =
     (if sv_entering s then Some (and_then (enter_client net s) (\<lambda>r s. Ok r (s\<lparr>sv_entering := False\<rparr>)))
      else None)"
| "mt_exec net (Serve i) s = serve_step net i s"

section \<open>No exceptions\<close>

text \<open>\<open>recv\<close> on a descriptor that \<open>accept\<close> gave as an error fails.\<close>

definition refuses_errors :: "'w net \<Rightarrow> bool" where
  "refuses_errors net \<longleftrightarrow> (\<forall>fd n w. fd < 0 \<longrightarrow> (\<exists>e w1. net_recv net fd n w = (Inl e, w1)))"

text \<open>\<open>early s fd\<close>: the main thread has got \<open>fd\<close> from \<open>accept\<close>, and it is not in the map yet.\<close>

definition early :: "'w ftp_server \<Rightarrow> int \<Rightarrow> bool" where
  "early s fd \<longleftrightarrow> sv_entering s \<and> fd = sv_clientFd s \<and> om_find (sv_clients s) fd = None"

fun served :: "'w ftp_server \<Rightarrow> sthread \<Rightarrow> bool" where
  "served s Created =
     (sv_clientFd s < 0 \<or> om_find (sv_clients s) (sv_clientFd s) \<noteq> None \<or> early s (sv_clientFd s))"
| "served s (AwaitsSize fd) = (fd < 0 \<or> om_find (sv_clients s) fd \<noteq> None \<or> early s fd)"
| "served s (AwaitsName fd) = (om_find (sv_clients s) fd \<noteq> None)"
| "served s (Storing fd first) = (om_find (sv_clients s) fd \<noteq> None)"
| "served s (Ended fd) = True"

definition svinv :: "'w net \<Rightarrow> 'w ftp_server \<Rightarrow> bool" where
  "svinv net s \<longleftrightarrow> refuses_errors net \<and> om_ok (sv_clients s) \<and> list_all (served s) (sv_threads s)"

text \<open>The clients that are known stay known, and the result is no fault.\<close>

definition knows :: "int \<Rightarrow> 'w ftp_server \<Rightarrow> bool" where
  "knows fd s \<longleftrightarrow> om_ok (sv_clients s) \<and> om_find (sv_clients s) fd \<noteq> None"

definition still_known :: "'w ftp_server \<Rightarrow> 'w ftp_server \<Rightarrow> bool" where
  "still_known s t \<longleftrightarrow>
     sv_threads t = sv_threads s \<and> sv_clientFd t = sv_clientFd s \<and> sv_entering t = sv_entering s \<and>
     (om_ok (sv_clients s) \<longrightarrow> om_ok (sv_clients t)) \<and>
     (\<forall>x. knows x s \<longrightarrow> knows x t)"

fun stays :: "'w ftp_server \<Rightarrow> ('a, 'w ftp_server) outcome \<Rightarrow> bool" where
  "stays s (Ok a t) = still_known s t"
| "stays s (Exits c t) = still_known s t"
| "stays s (Faults e) = False"

lemma still_known_refl [simp]: "still_known s s"
  by (simp add: still_known_def)

lemma still_known_trans: "still_known s t \<Longrightarrow> still_known t u \<Longrightarrow> still_known s u"
  by (simp add: still_known_def)

lemma still_known_updates [simp]:
  "still_known s (t\<lparr>sv_world := w\<rparr>) = still_known s t" "still_known s (t\<lparr>disk := d\<rparr>) = still_known s t"
  "still_known s (t\<lparr>sv_replies := l\<rparr>) = still_known s t" "still_known s (sv_error f e t) = still_known s t"
  "knows x (t\<lparr>sv_world := w\<rparr>) = knows x t" "knows x (sv_error f e t) = knows x t"
  by (simp_all add: still_known_def knows_def sv_error_def)

lemma stays_trans: "still_known s t \<Longrightarrow> stays t m \<Longrightarrow> stays s m"
  by (cases m) (auto intro: still_known_trans)

lemma stays_and_then:
  assumes "stays s m" and "\<And>a t. m = Ok a t \<Longrightarrow> still_known s t \<Longrightarrow> stays t (k a t)"
  shows "stays s (and_then m k)"
  using assms by (cases m) (auto intro: stays_trans)

lemma knows_still: "knows fd s \<Longrightarrow> still_known s t \<Longrightarrow> knows fd t"
  by (simp add: still_known_def)

lemma at_client_stays: "knows fd s \<Longrightarrow> stays s (at_client fd f s)"
  by (auto simp: at_client_def knows_def still_known_def om_ok_put om_find_put split: option.split)

lemma sv_call_stays: "stays s (sv_call f s)"
  by (simp add: sv_call_def split: prod.split)

lemma write_output_stays: "knows fd s \<Longrightarrow> stays s (write_output fd b s)"
  unfolding write_output_def
  by (intro stays_and_then at_client_stays)
    (auto split: option.split intro!: stays_and_then at_client_stays dest: knows_still)

lemma reply_stays: "stays s (reply net fd m s)"
  unfolding reply_def by (intro stays_and_then sv_call_stays) (simp split: sum.split)

lemma open_output_stays: "knows fd s \<Longrightarrow> stays s (open_output net fd s)"
  unfolding open_output_def
  by (intro stays_and_then at_client_stays)
    (auto intro!: stays_and_then at_client_stays sv_call_stays dest: knows_still)

lemma close_output_stays: "knows fd s \<Longrightarrow> stays s (close_output fd s)"
  unfolding close_output_def by (intro stays_and_then at_client_stays) simp_all

lemma getMsgFromClient_stays:
  assumes "knows fd s" and "k \<noteq> DATA_CASE"
  shows "\<exists>m. getMsgFromClient net fd k s = Some m \<and> stays s m"
proof -
  have "stays s (and_then (at_client fd f (s\<lparr>sv_world := w\<rparr>)) (\<lambda>_. Ok SUCCESS))" for f w
    by (rule stays_trans [of _ "s\<lparr>sv_world := w\<rparr>"])
      (auto intro!: stays_and_then at_client_stays simp: assms(1))
  then show ?thesis using assms(2)
    by (cases k) (auto simp: getMsgFromClient_def Let_def split: prod.split sum.split)
qed

lemma getMsgFromClient_failed:
  assumes "net_recv net fd BUFF_SIZE (sv_world s) = (Inl e, w)"
  shows "\<exists>t. getMsgFromClient net fd k s = Some (Ok FAIL t) \<and> still_known s t"
  using assms by (auto simp: getMsgFromClient_def)

text \<open>
  \<open>late\<close>: the thread reads the size from a client that the main thread has not entered yet; \<open>at\<close> throws.
\<close>

fun late :: "'w net \<Rightarrow> 'w ftp_server \<Rightarrow> sthread \<Rightarrow> bool" where
  "late net s (AwaitsSize fd) =
     (early s fd \<and> (case net_recv net fd BUFF_SIZE (sv_world s) of (Inl e, w) \<Rightarrow> False | (Inr b, w) \<Rightarrow> True))"
| "late net s ph = False"

lemma serve_late: "late net s ph \<Longrightarrow> serve net ph s = Some (Faults OutOfRange)"
  by (cases ph) (auto simp: early_def getMsgFromClient_def at_client_def Let_def split: prod.splits sum.splits)

lemma getMsgFromClient_no_exit: "k \<noteq> DATA_CASE \<Longrightarrow> getMsgFromClient net fd k s \<noteq> Some (Exits c t)"
  by (cases k) (auto simp: getMsgFromClient_def at_client_def Let_def split: prod.split sum.split option.split)

text \<open>Every step of a thread comes back.\<close>

lemma or_ends_stays: "stays s m \<Longrightarrow> \<exists>ph t. or_ends fd m = Ok ph t \<and> still_known s t \<and> (m = Ok ph t \<or> ph = Ended fd)"
  by (cases m) (simp_all add: or_ends_def)

lemma getMsgFromClient_known:
  assumes "knows fd s" and "k \<noteq> DATA_CASE"
  obtains r t where "getMsgFromClient net fd k s = Some (Ok r t)" and "still_known s t" and "knows fd t"
proof -
  obtain m where m: "getMsgFromClient net fd k s = Some m" "stays s m"
    using getMsgFromClient_stays [OF assms] by blast
  then show thesis using getMsgFromClient_no_exit [OF assms(2), of net fd s] that knows_still [OF assms(1)] by (cases m) auto
qed

definition steps_on :: "'w ftp_server \<Rightarrow> (sthread, 'w ftp_server) outcome option \<Rightarrow> bool" where
  "steps_on s m \<longleftrightarrow> (\<exists>ph t. m = Some (Ok ph t) \<and> still_known s t \<and> served t ph)"

lemma steps_on_Ok [simp]: "steps_on s (Some (Ok ph t)) \<longleftrightarrow> still_known s t \<and> served t ph"
  by (auto simp: steps_on_def)

lemma knows_served: "knows fd s \<Longrightarrow> om_find (sv_clients s) fd \<noteq> None"
  by (simp add: knows_def)

lemma steps_on_then:
  assumes "stays s m" and "\<And>c t. m \<noteq> Exits c t" and "\<And>a t. m = Ok a t \<Longrightarrow> still_known s t \<Longrightarrow> served t ph"
  shows "steps_on s (Some (and_then m (\<lambda>_. Ok ph)))"
  using assms by (cases m) auto

lemma no_exit [simp]:
  "at_client fd f s \<noteq> Exits c t" "write_output fd b s \<noteq> Exits c t" "close_output fd s \<noteq> Exits c t"
  "open_output net fd s \<noteq> Exits c t"
  by (auto simp: at_client_def write_output_def close_output_def open_output_def sv_call_def and_then_eq_Exits_iff
      split: option.splits if_splits prod.splits)

lemma serve_size_ok:
  assumes "refuses_errors net" and "fd < 0 \<or> knows fd s \<or> early s fd" and "\<not> late net s (AwaitsSize fd)"
  shows "steps_on s (serve net (AwaitsSize fd) s)"
proof (cases "knows fd s")
  case False
  obtain r w where r: "net_recv net fd BUFF_SIZE (sv_world s) = (r, w)" by fastforce
  have "\<exists>e. r = Inl e"
  proof (cases "fd < 0")
    case True
    then show ?thesis using assms(1) r unfolding refuses_errors_def by (metis Pair_inject)
  next
    case False
    then show ?thesis using assms(2,3) \<open>\<not> knows fd s\<close> r by (cases r) auto
  qed
  then show ?thesis using getMsgFromClient_failed [of net fd s _ w SIZE_CASE] r by auto
next
  case True
  then have k: "knows fd s" .
  obtain r t where r: "getMsgFromClient net fd SIZE_CASE s = Some (Ok r t)" "still_known s t" "knows fd t"
    by (rule getMsgFromClient_known [OF k, of SIZE_CASE net]) auto
  let ?m = "and_then (at_client fd id t) (\<lambda>c s. and_then (reply net fd
    (if gMaxFileSize s < c_fileSize c then ''1'' else ''0'') s) (\<lambda>_. Ok (AwaitsName fd)))"
  have "stays t ?m" by (intro stays_and_then at_client_stays reply_stays) (simp_all add: r(3))
  then obtain ph u where u: "or_ends fd ?m = Ok ph u" "still_known t u" "?m = Ok ph u \<or> ph = Ended fd"
    using or_ends_stays by blast
  then have "ph = AwaitsName fd \<or> ph = Ended fd" by (auto simp: and_then_eq_Ok_iff)
  moreover have "knows fd u" by (rule knows_still [OF r(3) u(2)])
  ultimately have "served u ph" by (auto simp: knows_def)
  then show ?thesis using r u(1) still_known_trans [OF r(2) u(2)] by auto
qed

lemma serve_name_ok:
  assumes "knows fd s"
  shows "steps_on s (serve net (AwaitsName fd) s)"
proof -
  obtain r t where r: "getMsgFromClient net fd NAME_CASE s = Some (Ok r t)" "still_known s t" "knows fd t"
    by (rule getMsgFromClient_known [OF assms, of NAME_CASE net]) auto
  have "steps_on t (Some (and_then (open_output net fd t) (\<lambda>_. Ok (Storing fd True))))"
    by (rule steps_on_then) (use r(3) in \<open>auto intro: open_output_stays dest: knows_still knows_served\<close>)
  then show ?thesis using r(1,2) by (auto simp: steps_on_def intro: still_known_trans)
qed

lemma serve_data_ok:
  assumes "knows fd s"
  shows "steps_on s (serve net (Storing fd first) s)"
proof -
  have close: "steps_on s (Some (and_then (close_output fd t) (\<lambda>_. Ok (Ended fd))))"
    if "still_known s t" for t
  proof -
    have "knows fd t" by (rule knows_still [OF assms that])
    then show ?thesis
      by (intro steps_on_then stays_trans [OF that] close_output_stays) auto
  qed
  have wr: "steps_on s (Some (and_then (write_output fd b (s\<lparr>sv_world := w\<rparr>)) (\<lambda>_. Ok (Storing fd False))))" for b w
    by (intro steps_on_then stays_trans [of s "s\<lparr>sv_world := w\<rparr>"] write_output_stays)
      (use assms in \<open>auto dest: knows_still knows_served\<close>)
  show ?thesis using close wr by (simp add: Let_def split: prod.split sum.split)
qed

lemma serve_ok:
  assumes "refuses_errors net" and "om_ok (sv_clients s)" and "served s ph" and "\<nexists>fd. ph = Ended fd"
    and "\<not> late net s ph"
  shows "steps_on s (serve net ph s)"
proof (cases ph)
  case Created
  then show ?thesis using assms(3) by auto
next
  case (AwaitsSize fd)
  then show ?thesis using serve_size_ok [OF assms(1), of fd s] assms(2,3,5)
    by (auto simp: knows_def simp del: serve.simps late.simps)
next
  case (AwaitsName fd)
  then show ?thesis using serve_name_ok [of fd s] assms(2,3) by (simp add: knows_def del: serve.simps)
next
  case (Storing fd first)
  then show ?thesis using serve_data_ok [of fd s] assms(2,3) by (simp add: knows_def del: serve.simps)
qed (use assms(4) in auto)

lemma served_still: "served s ph \<Longrightarrow> still_known s t \<Longrightarrow> om_ok (sv_clients s) \<Longrightarrow> served t ph"
  by (cases ph) (auto simp: still_known_def knows_def early_def)

lemma serve_step_ok:
  assumes "svinv net s" and "i < length (sv_threads s)" and "\<nexists>fd. sv_threads s ! i = Ended fd"
    and "\<not> late net s (sv_threads s ! i)"
  shows "\<exists>t. mt_exec net (Serve i) s = Some (Ok 0 t) \<and> svinv net t"
proof -
  have inv: "refuses_errors net" "om_ok (sv_clients s)" "list_all (served s) (sv_threads s)"
    using assms(1) by (simp_all add: svinv_def)
  then have "served s (sv_threads s ! i)" using assms(2) by (simp add: list_all_length)
  then obtain ph t where t: "serve net (sv_threads s ! i) s = Some (Ok ph t)" "still_known s t" "served t ph"
    using serve_ok [OF inv(1,2) _ assms(3,4)] unfolding steps_on_def by blast
  let ?t = "t\<lparr>sv_threads := (sv_threads t)[i := ph]\<rparr>"
  have fr: "served ?t q = served t q" for q by (cases q) (simp_all add: early_def)
  have th: "sv_threads t = sv_threads s" and ok: "om_ok (sv_clients t)"
    using t(2) inv(2) by (simp_all add: still_known_def)
  have "list_all (served t) (sv_threads s)"
    using inv(3) served_still [OF _ t(2) inv(2)] by (simp add: list_all_length)
  then have "list_all (served ?t) (sv_threads ?t)"
    using t(3) th fr set_update_subset_insert [of "sv_threads s" i ph] by (auto simp: list_all_iff)
  then show ?thesis using assms(2) t(1) inv(1) ok by (simp add: serve_step_def svinv_def)
qed

text \<open>The steps of the main thread.\<close>

lemma served_accept:
  "served s ph \<Longrightarrow> \<not> sv_entering s \<Longrightarrow> a \<noteq> 0 \<Longrightarrow>
   served (s\<lparr>sv_world := w, sv_clientFd := a, sv_entering := 0 < a\<rparr>) ph"
  by (cases ph) (auto simp: early_def)

lemma served_enter:
  "served s ph \<Longrightarrow> om_ok (sv_clients s) \<Longrightarrow>
   served (s\<lparr>sv_clients := om_put (sv_clientFd s) c (sv_clients s), sv_world := w, sv_threads := l, sv_entering := False\<rparr>) ph"
  by (cases ph) (auto simp: om_find_put early_def)

lemma accept_ok:
  assumes "svinv net s" and "mt_exec net Accept s = Some (Ok r t)"
  shows "svinv net t"
proof -
  obtain a w where a: "net_accept net (gServerFd s) (sv_world s) = (a, w)" by fastforce
  have e: "\<not> sv_entering s" using assms(2) by (auto split: if_splits)
  then have "a \<noteq> 0" and t: "t = s\<lparr>sv_world := w, sv_clientFd := a, sv_entering := 0 < a\<rparr>"
    using assms(2) a by (auto simp: accept_client_def sv_call_def Let_def and_then_eq_Ok_iff split: if_splits)
  then show ?thesis using assms(1) served_accept [OF _ e] by (simp add: svinv_def list_all_iff)
qed

lemma enter_ok:
  assumes "svinv net s" and "mt_exec net Enter s = Some (Ok r t)"
  shows "svinv net t"
proof -
  obtain q w where q: "net_thread net (sv_world s) = (q, w)" by fastforce
  have t: "t = s\<lparr>sv_clients := om_put (sv_clientFd s) new_client_rec (sv_clients s), sv_world := w,
      sv_threads := sv_threads s @ [Created], sv_entering := False\<rparr>"
    using assms(2) q by (auto simp: enter_client_def sv_call_def and_then_eq_Ok_iff split: if_splits sum.splits)
  then show ?thesis using assms(1) served_enter [of s] by (simp add: svinv_def list_all_iff om_ok_put om_find_put)
qed

lemma main_returns:
  "\<exists>r. mt_exec net (if sv_entering s then Enter else Accept) s = Some r \<and>
    (is_fault r \<longrightarrow> \<not> sv_entering s \<and> fst (net_accept net (gServerFd s) (sv_world s)) = 0)"
  by (auto simp: accept_client_def enter_client_def sv_call_def Let_def split: prod.split sum.split)

interpretation svt: event_invar "mt_exec net" "svinv net" "\<lambda>_. True" for net :: "'w net"
proof unfold_locales
  fix s :: "'w ftp_server" and e a t
  assume inv: "svinv net s" and ex: "mt_exec net e s = Some (Ok a t)"
  show "svinv net t"
  proof (cases e)
    case Accept
    then show ?thesis using accept_ok [OF inv] ex by blast
  next
    case Enter
    then show ?thesis using enter_ok [OF inv] ex by blast
  next
    case (Serve i)
    then have i: "i < length (sv_threads s)" using ex by (simp add: serve_step_def split: if_splits)
    moreover have "\<nexists>fd. sv_threads s ! i = Ended fd" using ex i Serve by (auto simp: serve_step_def)
    moreover have "\<not> late net s (sv_threads s ! i)"
      using ex i Serve serve_late [of net s "sv_threads s ! i"] by (auto simp: serve_step_def then_opt_def)
    ultimately show ?thesis using serve_step_ok [OF inv] ex Serve by fastforce
  qed
qed

text \<open>The state in which the loop of the main thread begins.\<close>

lemma main_server_start:
  "main_server net argv (initial_server w) = Ok r s \<Longrightarrow> sv_clients s = [] \<and> sv_threads s = [] \<and>
   sv_replies s = [] \<and> \<not> sv_entering s"
  by (auto simp: main_server_def connectToClient_def sv_call_def initial_server_def sv_error_def and_then_eq_Ok_iff
      split: if_splits prod.splits sum.splits)

section \<open>One thread after the other\<close>

text \<open>No operation of a thread looks at the list of threads.\<close>

definition with_threads :: "sthread list \<Rightarrow> ('a, 'w ftp_server) outcome \<Rightarrow> ('a, 'w ftp_server) outcome" where
  "with_threads l m =
     (case m of
        Ok a t \<Rightarrow> Ok a (t\<lparr>sv_threads := l\<rparr>)
      | Exits c t \<Rightarrow> Exits c (t\<lparr>sv_threads := l\<rparr>)
      | Faults e \<Rightarrow> Faults e)"

lemma with_threads_simps [simp]:
  "with_threads l (Ok a t) = Ok a (t\<lparr>sv_threads := l\<rparr>)"
  "with_threads l (Exits c t) = Exits c (t\<lparr>sv_threads := l\<rparr>)"
  "with_threads l (Faults e) = Faults e"
  by (simp_all add: with_threads_def)

lemma with_threads_and_then:
  assumes "m' = with_threads l m" and "\<And>a t. k' a (t\<lparr>sv_threads := l\<rparr>) = with_threads l (k a t)"
  shows "and_then m' k' = with_threads l (and_then m k)"
  using assms by (cases m) simp_all

lemma at_client_threads: "at_client fd f (s\<lparr>sv_threads := l\<rparr>) = with_threads l (at_client fd f s)"
  by (simp add: at_client_def split: option.split)

lemma sv_call_threads: "sv_call f (s\<lparr>sv_threads := l\<rparr>) = with_threads l (sv_call f s)"
  by (simp add: sv_call_def split: prod.split)

lemma write_output_threads: "write_output fd b (s\<lparr>sv_threads := l\<rparr>) = with_threads l (write_output fd b s)"
  unfolding write_output_def
  by (intro with_threads_and_then at_client_threads)
    (auto split: option.split intro!: with_threads_and_then at_client_threads)

lemma reply_threads: "reply net fd m (s\<lparr>sv_threads := l\<rparr>) = with_threads l (reply net fd m s)"
  unfolding reply_def
  by (intro with_threads_and_then sv_call_threads) (simp add: sv_error_def split: sum.split)

lemma open_output_threads: "open_output net fd (s\<lparr>sv_threads := l\<rparr>) = with_threads l (open_output net fd s)"
  unfolding open_output_def
  by (intro with_threads_and_then at_client_threads)
    (auto intro!: with_threads_and_then at_client_threads sv_call_threads)

lemma close_output_threads: "close_output fd (s\<lparr>sv_threads := l\<rparr>) = with_threads l (close_output fd s)"
  unfolding close_output_def by (intro with_threads_and_then at_client_threads) simp

lemma getMsgFromClient_threads:
  "k \<noteq> DATA_CASE \<Longrightarrow> getMsgFromClient net fd k (s\<lparr>sv_threads := l\<rparr>) =
     map_option (with_threads l) (getMsgFromClient net fd k s)"
  by (cases k) (auto simp: getMsgFromClient_def sv_error_def Let_def buffer_text_def at_client_def
      split: prod.split sum.split option.split)

lemma then_opt_threads:
  assumes "m' = map_option (with_threads l) m"
    and "\<And>a t. k' a (t\<lparr>sv_threads := l\<rparr>) = map_option (with_threads l) (k a t)"
  shows "then_opt m' k' = map_option (with_threads l) (then_opt m k)"
  using assms by (auto simp: then_opt_def split: option.split outcome.split)

lemma or_ends_threads: "or_ends fd (with_threads l m) = with_threads l (or_ends fd m)"
  by (cases m) (simp_all add: or_ends_def)

lemma serve_threads: "serve net ph (s\<lparr>sv_threads := l\<rparr>) = map_option (with_threads l) (serve net ph s)"
proof (cases ph)
  case (AwaitsSize fd)
  have "and_then (at_client fd id (t\<lparr>sv_threads := l\<rparr>)) (\<lambda>c s. and_then (reply net fd
      (if gMaxFileSize s < c_fileSize c then ''1'' else ''0'') s) (\<lambda>_. Ok (AwaitsName fd))) =
    with_threads l (and_then (at_client fd id t) (\<lambda>c s. and_then (reply net fd
      (if gMaxFileSize s < c_fileSize c then ''1'' else ''0'') s) (\<lambda>_. Ok (AwaitsName fd))))" for t
    by (intro with_threads_and_then at_client_threads) (auto intro!: with_threads_and_then reply_threads)
  then show ?thesis unfolding AwaitsSize serve.simps
    by (intro then_opt_threads getMsgFromClient_threads) (simp_all add: or_ends_threads)
next
  case (AwaitsName fd)
  then show ?thesis unfolding AwaitsName serve.simps
    by (intro then_opt_threads getMsgFromClient_threads)
      (simp_all add: with_threads_and_then open_output_threads)
next
  case (Storing fd first)
  have swap: "s\<lparr>sv_threads := l, sv_world := w\<rparr> = s\<lparr>sv_world := w, sv_threads := l\<rparr>"
    "t\<lparr>sv_threads := l, sv_err := e\<rparr> = t\<lparr>sv_err := e, sv_threads := l\<rparr>" for t :: "'a ftp_server" and w e
    by simp_all
  show ?thesis unfolding Storing
    by (auto simp: Let_def sv_error_def swap split: prod.split sum.split
        intro!: with_threads_and_then close_output_threads write_output_threads)
qed simp_all

text \<open>The steps of a thread without the others.\<close>

inductive serves :: "'w net \<Rightarrow> sthread \<Rightarrow> 'w ftp_server \<Rightarrow> sthread \<Rightarrow> 'w ftp_server \<Rightarrow> bool" for net :: "'w net" where
  here: "serves net ph s ph s"
| further: "serve net ph s = Some (Ok ph1 u) \<Longrightarrow> serves net ph1 u ph2 t \<Longrightarrow> serves net ph s ph2 t"

lemma serves_run:
  assumes "serves net ph s ph' t" and "i < length l" and "l ! i = ph"
  shows "\<exists>n rs. run_events (mt_exec net) (replicate n (Serve i)) (s\<lparr>sv_threads := l\<rparr>) =
    Some (Ok rs (t\<lparr>sv_threads := l[i := ph']\<rparr>))"
  using assms
proof (induction arbitrary: l rule: serves.induct)
  case (here ph s)
  then show ?case by (intro exI [of _ 0]) (auto simp: list_update_same_conv)
next
  case (further ph s ph1 u ph2 t)
  have "serve_step net i (s\<lparr>sv_threads := l\<rparr>) = Some (Ok 0 (u\<lparr>sv_threads := l[i := ph1]\<rparr>))"
    using further.prems further.hyps(1) by (simp add: serve_step_def serve_threads)
  moreover obtain n rs where "run_events (mt_exec net) (replicate n (Serve i)) (u\<lparr>sv_threads := l[i := ph1]\<rparr>) =
      Some (Ok rs (t\<lparr>sv_threads := (l[i := ph1])[i := ph2]\<rparr>))"
    using further.IH [of "l[i := ph1]"] further.prems by auto
  ultimately show ?case by (intro exI [of _ "Suc n"]) simp
qed

lemma serves_data:
  assumes "net_recv net fd BUFF_SIZE (sv_world s) = (Inr b, w)"
    and "data_loop net fd b (s\<lparr>sv_world := w\<rparr>) = Some (Ok () t)" and "close_output fd t = Ok () u"
  shows "serves net (Storing fd first) s (Ended fd) u"
proof -
  have "\<forall>s w first t u. net_recv net fd BUFF_SIZE (sv_world s) = (Inr b, w) \<longrightarrow> v = s\<lparr>sv_world := w\<rparr> \<longrightarrow>
      r = Ok () t \<longrightarrow> close_output fd t = Ok () u \<longrightarrow> serves net (Storing fd first) s (Ended fd) u"
    if "data_loop net fd b v = Some r" for v r
  proof (rule data_loop.raw_induct [where P = "\<lambda>net fd b v r. \<forall>s w first t u.
      net_recv net fd BUFF_SIZE (sv_world s) = (Inr b, w) \<longrightarrow> v = s\<lparr>sv_world := w\<rparr> \<longrightarrow>
      r = Ok () t \<longrightarrow> close_output fd t = Ok () u \<longrightarrow> serves net (Storing fd first) s (Ended fd) u", OF _ that],
      goal_cases)
    case (1 loop net fd b v r)
    show ?case
    proof (intro allI impI)
      fix s w first t u
      assume recv: "net_recv net fd BUFF_SIZE (sv_world s) = (Inr b, w)" and v: "v = s\<lparr>sv_world := w\<rparr>"
        and r: "r = Ok () t" and cl: "close_output fd t = Ok () u"
      show "serves net (Storing fd first) s (Ended fd) u"
      proof (cases "b = ''''")
        case True
        then show ?thesis using 1(2) recv v r cl by (auto intro!: serves.further [OF _ serves.here])
      next
        case False
        then obtain y where y: "write_output fd b v = Ok () y" using 1(2) r by (auto split: outcome.splits)
        have step: "serve net (Storing fd first) s = Some (Ok (Storing fd False) y)"
          using recv False y v by simp
        obtain q w' where q: "net_recv net fd BUFF_SIZE (sv_world y) = (q, w')" by fastforce
        show ?thesis
        proof (cases q)
          case (Inl e)
          then have "t = y\<lparr>sv_world := w'\<rparr>" using 1(2) False y q r by auto
          then show ?thesis using q Inl cl
            by (intro serves.further [OF step] serves.further [OF _ serves.here]) simp
        next
          case (Inr piece)
          then have "loop net fd piece (y\<lparr>sv_world := w'\<rparr>) = Some r" using 1(2) False y q by simp
          then have "serves net (Storing fd False) y (Ended fd) u" using 1(1) q Inr r cl by blast
          then show ?thesis by (rule serves.further [OF step])
        qed
      qed
    qed
  qed
  then show ?thesis using assms by blast
qed

lemma serves_rest:
  assumes "getMsgFromClient net fd DATA_CASE s = Some (Ok r t)" and "close_output fd t = Ok () u"
  shows "serves net (Storing fd True) s (Ended fd) u"
proof -
  obtain q w where q: "net_recv net fd BUFF_SIZE (sv_world s) = (q, w)" by fastforce
  show ?thesis
  proof (cases q)
    case (Inl e)
    then show ?thesis using assms q by (auto simp: getMsgFromClient_def intro!: serves.further [OF _ serves.here])
  next
    case (Inr b)
    then have "data_loop net fd b (s\<lparr>sv_world := w\<rparr>) = Some (Ok () t)"
      using assms(1) q by (auto simp: getMsgFromClient_def Let_def and_then_eq_Ok_iff split: option.splits)
    then show ?thesis using serves_data q Inr assms(2) by fast
  qed
qed

lemma then_opt_eq_Ok:
  "then_opt m k = Some (Ok b t) \<longleftrightarrow> (\<exists>a u. m = Some (Ok a u) \<and> k a u = Some (Ok b t))"
  "then_opt m k = Some (Exits c t) \<longleftrightarrow> m = Some (Exits c t) \<or> (\<exists>a u. m = Some (Ok a u) \<and> k a u = Some (Exits c t))"
  by (auto simp: then_opt_def split: option.splits outcome.splits)

text \<open>The answer to the size, in one step.\<close>

definition answer_size :: "'w net \<Rightarrow> int \<Rightarrow> 'w ftp_server \<Rightarrow> (unit, 'w ftp_server) outcome" where
  "answer_size net fd s =
     and_then (at_client fd id s)
       (\<lambda>c s. reply net fd (if gMaxFileSize s < c_fileSize c then ''1'' else ''0'') s)"

lemma serve_answer:
  "serve net (AwaitsSize fd) s =
     then_opt (getMsgFromClient net fd SIZE_CASE s)
       (\<lambda>r s. if r \<noteq> 0 then Some (Ok (Ended fd) s)
          else Some (or_ends fd (and_then (answer_size net fd s) (\<lambda>_. Ok (AwaitsName fd)))))"
  unfolding answer_size_def and_then_assoc by (rule serve.simps)

lemma readFromClient_cases:
  "readFromClient net fd s =
     then_opt (getMsgFromClient net fd SIZE_CASE s)
       (\<lambda>r s. if r \<noteq> 0 then Some (Ok FAIL s)
          else
            then_opt (Some (answer_size net fd s))
              (\<lambda>_ s. then_opt (getMsgFromClient net fd NAME_CASE s)
                 (\<lambda>r s. if r \<noteq> 0 then Some (Ok FAIL s)
                    else
                      then_opt (Some (open_output net fd s))
                        (\<lambda>_ s. then_opt (getMsgFromClient net fd DATA_CASE s)
                           (\<lambda>_ s. Some (and_then (close_output fd s) (\<lambda>_. Ok SUCCESS)))))))"
  unfolding answer_size_def by (rule readFromClient_def)

lemma data_loop_no_exit: "data_loop net fd b s \<noteq> Some (Exits c t)"
proof -
  have "\<forall>c t. r \<noteq> Exits c t" if "data_loop net fd b s = Some r" for r
  proof (rule data_loop.raw_induct [where P = "\<lambda>net fd b s r. \<forall>c t. r \<noteq> Exits c t", OF _ that], goal_cases)
    case (1 loop net fd b s r)
    then show ?case
      by (cases "write_output fd b s") (auto split: if_splits prod.splits sum.splits)
  qed
  then show ?thesis by blast
qed

lemma readFromClient_serves:
  assumes "readFromClient net fd s = Some (Ok r t)"
  shows "serves net (AwaitsSize fd) s (Ended fd) t"
proof -
  obtain a u where a: "getMsgFromClient net fd SIZE_CASE s = Some (Ok a u)"
    using assms by (auto simp: readFromClient_cases then_opt_eq_Ok)
  show ?thesis
  proof (cases "a = 0")
    case False
    then have "serve net (AwaitsSize fd) s = Some (Ok (Ended fd) t)"
      using assms a by (auto simp: readFromClient_cases serve_answer simp del: serve.simps)
    then show ?thesis by (rule serves.further [OF _ serves.here])
  next
    case True
    then obtain v b x where v: "answer_size net fd u = Ok () v"
      and b: "getMsgFromClient net fd NAME_CASE v = Some (Ok b x)"
      and rest: "(if b \<noteq> 0 then Some (Ok FAIL x)
          else
            then_opt (Some (open_output net fd x))
              (\<lambda>_ s. then_opt (getMsgFromClient net fd DATA_CASE s)
                 (\<lambda>_ s. Some (and_then (close_output fd s) (\<lambda>_. Ok SUCCESS))))) = Some (Ok r t)"
      using assms a by (auto simp: readFromClient_cases then_opt_eq_Ok)
    have size: "serve net (AwaitsSize fd) s = Some (Ok (AwaitsName fd) v)"
      using a True v by (simp add: serve_answer or_ends_def del: serve.simps)
    show ?thesis
    proof (cases "b = 0")
      case False
      then have "serve net (AwaitsName fd) v = Some (Ok (Ended fd) t)" using b rest by simp
      then show ?thesis by (rule serves.further [OF size serves.further [OF _ serves.here]])
    next
      case True
      then obtain y c z where y: "open_output net fd x = Ok () y"
        and z: "getMsgFromClient net fd DATA_CASE y = Some (Ok c z)" "close_output fd z = Ok () t"
        using rest by (auto simp: then_opt_eq_Ok and_then_eq_Ok_iff)
      have name: "serve net (AwaitsName fd) v = Some (Ok (Storing fd True) y)" using b True y by simp
      show ?thesis by (rule serves.further [OF size serves.further [OF name serves_rest [OF z]]])
    qed
  qed
qed

lemma readFromClient_exits:
  assumes "readFromClient net fd s = Some (Exits c t)"
  shows "serves net (AwaitsSize fd) s (Ended fd) t"
proof -
  have data: "getMsgFromClient net fd DATA_CASE v \<noteq> Some (Exits x y)" for v x y
    using data_loop_no_exit [of net fd]
    by (auto simp: getMsgFromClient_def Let_def and_then_eq_Exits_iff split: prod.splits sum.splits option.splits)
  have "\<exists>u. getMsgFromClient net fd SIZE_CASE s = Some (Ok 0 u) \<and> answer_size net fd u = Exits c t"
    using assms data getMsgFromClient_no_exit [of _ net fd]
    by (auto simp: readFromClient_cases then_opt_eq_Ok and_then_eq_Exits_iff split: if_splits)
  then have "serve net (AwaitsSize fd) s = Some (Ok (Ended fd) t)"
    by (auto simp: serve_answer or_ends_def simp del: serve.simps)
  then show ?thesis by (rule serves.further [OF _ serves.here])
qed

text \<open>A thread that serves its client in one step does what its steps do.\<close>

lemma run_thread_steps:
  assumes "run_thread net i s = Some (Ok r t)"
  shows "\<exists>n rs. run_events (mt_exec net) (replicate n (Serve i)) s = Some (Ok rs t)"
proof -
  have i: "i < length (sv_threads s)" "sv_threads s ! i = Created"
    using assms by (auto simp: run_thread_def split: if_splits)
  let ?fd = "sv_clientFd s"
  obtain u where c: "(\<exists>c. readFromClient net ?fd s = Some (Ok c u)) \<or> (\<exists>c. readFromClient net ?fd s = Some (Exits c u))"
    and t: "t = u\<lparr>sv_threads := (sv_threads u)[i := Ended ?fd]\<rparr>"
    using assms i by (auto simp: run_thread_def Let_def split: option.splits outcome.splits)
  have u: "serves net (AwaitsSize ?fd) s (Ended ?fd) u"
    using c readFromClient_serves readFromClient_exits by blast
  have "keeps_opt ?fd s (readFromClient net ?fd s)" by (rule readFromClient_keeps)
  then have th: "sv_threads u = sv_threads s" using c by (auto simp: serves_only_def)
  have "serves net Created s (Ended ?fd) u" by (rule serves.further [OF _ u]) simp
  then show ?thesis using serves_run [of net Created s _ u i "sv_threads s"] i t th by simp
qed

text \<open>
  So every run of the server in which threads serve their clients one after the other is a run of
  the server with steps.
\<close>

lemma round_steps:
  assumes "accept_round net s = Ok r t" and "\<not> sv_entering s"
  shows "(\<exists>es rs. run_events (mt_exec net) es s = Some (Ok rs t)) \<and> \<not> sv_entering t"
proof -
  obtain fd u where u: "accept_client net s = Ok fd u" and t: "(if fd < 0 then Ok SUCCESS u else enter_client net u) = Ok r t"
    using assms(1) by (auto simp: accept_round_def and_then_eq_Ok_iff)
  have f: "fd \<noteq> 0" "\<not> sv_entering u" "u\<lparr>sv_entering := False\<rparr> = u"
    using u assms(2) by (auto simp: accept_client_def sv_call_def Let_def and_then_eq_Ok_iff split: if_splits prod.splits)
  show ?thesis
  proof (cases "fd < 0")
    case True
    then have "run_events (mt_exec net) [Accept] s = Some (Ok [SUCCESS] t)" using u t assms(2) f by simp
    moreover have "\<not> sv_entering t" using True t f(2) by simp
    ultimately show ?thesis by blast
  next
    case False
    obtain q w where q: "net_thread net (sv_world u) = (q, w)" by fastforce
    then have e: "t = u\<lparr>sv_clients := om_put (sv_clientFd u) new_client_rec (sv_clients u), sv_world := w,
        sv_threads := sv_threads u @ [Created]\<rparr>" "r = SUCCESS" "\<exists>x. q = Inr x"
      using False t by (auto simp: enter_client_def sv_call_def split: sum.splits)
    then have "run_events (mt_exec net) [Accept, Enter] s = Some (Ok [SUCCESS, SUCCESS] t)"
      using u q assms(2) f False by (auto simp: enter_client_def sv_call_def)
    moreover have "\<not> sv_entering t" using e f(2) by simp
    ultimately show ?thesis by blast
  qed
qed

lemma run_thread_entering: "run_thread net i s = Some (Ok r t) \<Longrightarrow> sv_entering t = sv_entering s"
  using readFromClient_keeps [of "sv_clientFd s" s net]
  by (auto simp: run_thread_def Let_def serves_only_def split: if_splits option.splits outcome.splits)

lemma serial_runs:
  assumes "run_events (server_exec net) es s = Some (Ok rs t)" and "\<not> sv_entering s"
  shows "\<exists>es' rs'. run_events (mt_exec net) es' s = Some (Ok rs' t)"
  using assms
proof (induction es arbitrary: s rs)
  case Nil
  then show ?case by (intro exI [of _ "[]"]) simp
next
  case (Cons e es)
  then obtain r u where u: "server_exec net e s = Some (Ok r u)"
    and rest: "\<exists>rs. run_events (server_exec net) es u = Some (Ok rs t)"
    by (auto split: option.splits outcome.splits)
  have "(\<exists>es' rs'. run_events (mt_exec net) es' s = Some (Ok rs' u)) \<and> \<not> sv_entering u"
  proof (cases e)
    case AcceptRound
    then show ?thesis using u round_steps [of net s r u] Cons.prems(2) by simp
  next
    case (RunThread i)
    then show ?thesis using u run_thread_steps [of net i s r u] run_thread_entering [of net i s r u] Cons.prems(2) by auto
  qed
  moreover from this obtain es2 rs2 where "run_events (mt_exec net) es2 u = Some (Ok rs2 t)"
    using Cons.IH rest by blast
  ultimately show ?case using run_events_append by metis
qed

end
