(* ===== verification/Ftp_Isolation.thy ===== *)
theory Ftp_Isolation
  imports Ftp_Threads
begin

text \<open>
  Uploads at the same time: what a thread stores does not depend on what the main thread and the
  other threads do between its steps, if no other thread serves its descriptor and no other stream
  is open on its file (\<open>alone\<close>). The connections are independent of each other (\<open>sockets\<close>): \<open>inbox\<close> is
  what a descriptor will deliver, \<open>fds\<close> the descriptors that are in use.
\<close>

section \<open>Independent connections\<close>

definition next_message :: "string list \<Rightarrow> string" where
  "next_message ms = (case ms of [] \<Rightarrow> '''' | m # _ \<Rightarrow> m)"

definition streams_kept :: "('w \<Rightarrow> int \<Rightarrow> string list) \<Rightarrow> ('w \<Rightarrow> int set) \<Rightarrow> ('w \<Rightarrow> 'r \<times> 'w) \<Rightarrow> bool" where
  "streams_kept inbox fds f \<longleftrightarrow> (\<forall>w r w1. f w = (r, w1) \<longrightarrow> fds w1 = fds w \<and> inbox w1 = inbox w)"

definition receives :: "('w \<Rightarrow> int \<Rightarrow> string list) \<Rightarrow> ('w \<Rightarrow> int set) \<Rightarrow> int
    \<Rightarrow> ('w \<Rightarrow> (int + string) \<times> 'w) \<Rightarrow> bool" where
  "receives inbox fds fd f \<longleftrightarrow>
     (\<forall>w r w1. f w = (r, w1) \<longrightarrow> fds w1 = fds w \<and>
        (if fd \<in> fds w
         then r = Inr (next_message (inbox w fd)) \<and> inbox w1 = (inbox w)(fd := tl (inbox w fd))
         else (\<exists>e. r = Inl e) \<and> inbox w1 = inbox w))"

definition hands_out :: "('w \<Rightarrow> int \<Rightarrow> string list) \<Rightarrow> ('w \<Rightarrow> int set) \<Rightarrow> ('w \<Rightarrow> int \<times> 'w) \<Rightarrow> bool" where
  "hands_out inbox fds f \<longleftrightarrow>
     (\<forall>w a w1. f w = (a, w1) \<longrightarrow> inbox w1 = inbox w \<and>
        (if 0 < a then a \<notin> fds w \<and> fds w1 = insert a (fds w) else fds w1 = fds w))"

definition sockets :: "'w net \<Rightarrow> ('w \<Rightarrow> int \<Rightarrow> string list) \<Rightarrow> ('w \<Rightarrow> int set) \<Rightarrow> bool" where
  "sockets net inbox fds \<longleftrightarrow>
     (\<forall>fd. receives inbox fds fd (net_recv net fd BUFF_SIZE)) \<and>
     (\<forall>fd m. streams_kept inbox fds (net_send net fd m)) \<and>
     (\<forall>fd m w. fd \<in> fds w \<longrightarrow> (\<exists>n. fst (net_send net fd m w) = Inr n)) \<and>
     (\<forall>p. streams_kept inbox fds (net_open_out net p)) \<and>
     (\<forall>srv. hands_out inbox fds (net_accept net srv)) \<and>
     streams_kept inbox fds (net_thread net)"

lemma sockets_parts:
  assumes "sockets net inbox fds"
  shows "receives inbox fds fd (net_recv net fd BUFF_SIZE)" and "streams_kept inbox fds (net_send net fd m)"
    and "streams_kept inbox fds (net_open_out net p)" and "hands_out inbox fds (net_accept net srv)"
    and "streams_kept inbox fds (net_thread net)"
  using assms by (simp_all add: sockets_def)

lemma sockets_recv:
  assumes "sockets net inbox fds" and "net_recv net fd BUFF_SIZE w = (r, w1)"
  shows "fds w1 = fds w" and "x \<noteq> fd \<Longrightarrow> inbox w1 x = inbox w x"
    and "fd \<in> fds w \<Longrightarrow> r = Inr (next_message (inbox w fd)) \<and> inbox w1 fd = tl (inbox w fd)"
proof -
  have "fds w1 = fds w \<and>
        (if fd \<in> fds w
         then r = Inr (next_message (inbox w fd)) \<and> inbox w1 = (inbox w)(fd := tl (inbox w fd))
         else (\<exists>e. r = Inl e) \<and> inbox w1 = inbox w)"
    using sockets_parts(1) [OF assms(1), of fd] assms(2) unfolding receives_def by blast
  then show "fds w1 = fds w" and "x \<noteq> fd \<Longrightarrow> inbox w1 x = inbox w x"
    and "fd \<in> fds w \<Longrightarrow> r = Inr (next_message (inbox w fd)) \<and> inbox w1 fd = tl (inbox w fd)"
    by (auto split: if_splits)
qed

lemma streams_kept_call:
  assumes "streams_kept inbox fds f" and "f w = (r, w1)"
  shows "fds w1 = fds w" and "inbox w1 = inbox w"
  using assms unfolding streams_kept_def by simp_all

lemmas sockets_send = streams_kept_call [OF sockets_parts(2)]
lemmas sockets_open = streams_kept_call [OF sockets_parts(3)]
lemmas sockets_thread = streams_kept_call [OF sockets_parts(5)]

lemma sockets_sent: "sockets net inbox fds \<Longrightarrow> fd \<in> fds w \<Longrightarrow> net_send net fd m w = (r, w1) \<Longrightarrow> \<exists>n. r = Inr n"
  unfolding sockets_def by (elim conjE) (metis fst_conv)

lemma sockets_accept:
  assumes "sockets net inbox fds" and "net_accept net srv w = (a, w1)"
  shows "inbox w1 = inbox w" and "fds w \<subseteq> fds w1" and "0 < a \<Longrightarrow> a \<notin> fds w"
  using sockets_parts(4) [OF assms(1), of srv] assms(2) unfolding hands_out_def by (auto split: if_splits)

section \<open>What the others do\<close>

definition undisturbed :: "('w \<Rightarrow> int \<Rightarrow> string list) \<Rightarrow> ('w \<Rightarrow> int set) \<Rightarrow> int \<Rightarrow> string
    \<Rightarrow> 'w ftp_server \<Rightarrow> 'w ftp_server \<Rightarrow> bool" where
  "undisturbed inbox fds fd name s t \<longleftrightarrow>
     inbox (sv_world t) fd = inbox (sv_world s) fd \<and> fds (sv_world s) \<subseteq> fds (sv_world t) \<and>
     disk t name = disk s name \<and> set (sv_replies s) \<subseteq> set (sv_replies t)"

fun thread_fd :: "sthread \<Rightarrow> int option" where
  "thread_fd Created = None"
| "thread_fd (AwaitsSize fd) = Some fd"
| "thread_fd (AwaitsName fd) = Some fd"
| "thread_fd (Storing fd first) = Some fd"
| "thread_fd (Ended fd) = Some fd"

definition alone :: "nat \<Rightarrow> int \<Rightarrow> string \<Rightarrow> 'w ftp_server \<Rightarrow> bool" where
  "alone i fd name s \<longleftrightarrow>
     (\<forall>j < length (sv_threads s). j \<noteq> i \<longrightarrow> thread_fd (sv_threads s ! j) \<noteq> Some fd) \<and>
     (\<forall>x c n. x \<noteq> fd \<longrightarrow> om_find (sv_clients s) x = Some c \<longrightarrow> c_output c \<noteq> Some (name, n))"

lemma at_client_OkE:
  assumes "at_client x f s = Ok c t"
  obtains b where "om_find (sv_clients s) x = Some b" and "c = f b"
    and "t = s\<lparr>sv_clients := om_put x c (sv_clients s)\<rparr>"
  using assms by (auto simp: at_client_def split: option.splits)

lemma getMsg_undisturbed:
  assumes sock: "sockets net inbox fds" and "x \<noteq> fd" and "k \<noteq> DATA_CASE"
    and "getMsgFromClient net x k s = Some (Ok r t)"
  shows "undisturbed inbox fds fd name s t"
proof -
  obtain q w where q: "net_recv net x BUFF_SIZE (sv_world s) = (q, w)" by fastforce
  have w: "sv_world t = w \<and> disk t = disk s \<and> sv_replies t = sv_replies s"
    using assms(3,4) q
    by (cases k) (auto simp: getMsgFromClient_def sv_error_def Let_def and_then_eq_Ok_iff
        elim!: at_client_OkE split: sum.splits)
  then show ?thesis using sockets_recv(1,2) [OF sock q] assms(2) by (simp add: undisturbed_def)
qed

lemma answer_undisturbed:
  assumes sock: "sockets net inbox fds" and ans: "answer_size net x s = Ok u t \<or> answer_size net x s = Exits c t"
  shows "undisturbed inbox fds fd name s t"
proof (cases "om_find (sv_clients s) x")
  case None
  then show ?thesis using ans by (auto simp: answer_size_def at_client_def)
next
  case (Some b)
  obtain r w where r: "net_send net x (if gMaxFileSize s < c_fileSize b then ''1'' else ''0'') (sv_world s) = (r, w)"
    by fastforce
  have "sv_world t = w \<and> disk t = disk s \<and> set (sv_replies s) \<subseteq> set (sv_replies t)"
    using ans Some r
    by (cases r) (auto simp: answer_size_def at_client_known reply_def sv_call_def sv_error_def)
  then show ?thesis using sockets_send(1,2) [OF sock r] by (simp add: undisturbed_def)
qed

lemma write_undisturbed:
  assumes "write_output x b s = Ok u t" and "\<And>c n. om_find (sv_clients s) x = Some c \<Longrightarrow> c_output c \<noteq> Some (name, n)"
    and "om_ok (sv_clients s)"
  shows "undisturbed inbox fds fd name s t"
proof (cases "om_find (sv_clients s) x")
  case None
  then show ?thesis using assms(1) by (simp add: write_output_def at_client_def)
next
  case (Some c)
  show ?thesis
  proof (cases "c_output c")
    case None
    then show ?thesis using assms(1) Some by (auto simp: write_output_def at_client_known undisturbed_def)
  next
    case (Some st)
    obtain path n where o: "c_output c = Some (path, n)" using Some by (cases st) auto
    with assms(2) \<open>om_find (sv_clients s) x = Some c\<close> have "path \<noteq> name" by blast
    then show ?thesis using assms(1,3) \<open>om_find (sv_clients s) x = Some c\<close> o
      by (auto simp: write_output_def at_client_known undisturbed_def om_find_put split: if_splits)
  qed
qed

lemma close_undisturbed:
  assumes "close_output x s = Ok u t"
  shows "undisturbed inbox fds fd name s t"
  using assms by (auto simp: close_output_def undisturbed_def and_then_eq_Ok_iff elim!: at_client_OkE)

lemma open_undisturbed:
  assumes sock: "sockets net inbox fds" and op: "open_output net x s = Ok u t" and ok: "om_ok (sv_clients s)"
    and post: "\<And>c n. om_find (sv_clients t) x = Some c \<Longrightarrow> c_output c \<noteq> Some (name, n)"
  shows "undisturbed inbox fds fd name s t"
proof (cases "om_find (sv_clients s) x")
  case None
  then show ?thesis using op by (simp add: open_output_def at_client_def)
next
  case (Some c)
  obtain b w where b: "net_open_out net (c_fileName c) (sv_world s) = (b, w)" by fastforce
  show ?thesis
  proof (cases "c_output c = None \<and> b")
    case True
    then have "c_output c = None" "net_open_out net (c_fileName c) (sv_world s) = (True, w)" using b by auto
    then obtain cs where t: "t = s\<lparr>sv_clients := cs, sv_world := w, disk := (disk s)(c_fileName c \<mapsto> '''')\<rparr>"
      and cs: "om_find cs x = Some (c\<lparr>c_output := Some (c_fileName c, 0), c_failed := False\<rparr>)"
      using output_opened [OF ok Some, of net w] op by auto
    have "c_fileName c \<noteq> name" using post [of "c\<lparr>c_output := Some (c_fileName c, 0), c_failed := False\<rparr>" 0] cs t by auto
    then show ?thesis using t sockets_open [OF sock b] by (simp add: undisturbed_def)
  next
    case False
    then show ?thesis using op Some b ok sockets_open [OF sock b]
      by (cases "c_output c")
        (auto simp: open_output_def at_client_known sv_call_def undisturbed_def om_find_put om_ok_put)
  qed
qed

text \<open>A step of a thread that serves another descriptor.\<close>

lemma undisturbed_trans:
  "undisturbed inbox fds fd name s t \<Longrightarrow> undisturbed inbox fds fd name t u \<Longrightarrow> undisturbed inbox fds fd name s u"
  unfolding undisturbed_def by auto

lemma undisturbed_refl [simp]: "undisturbed inbox fds fd name s s"
  by (simp add: undisturbed_def)

lemma undisturbed_threads [simp]:
  "undisturbed inbox fds fd name s (t\<lparr>sv_threads := l\<rparr>) = undisturbed inbox fds fd name s t"
  "undisturbed inbox fds fd name s (sv_error f e t) = undisturbed inbox fds fd name s t"
  by (simp_all add: undisturbed_def sv_error_def)

definition no_stream :: "int \<Rightarrow> string \<Rightarrow> 'w ftp_server \<Rightarrow> bool" where
  "no_stream x name s \<longleftrightarrow> (\<forall>c n. om_find (sv_clients s) x = Some c \<longrightarrow> c_output c \<noteq> Some (name, n))"

lemma serve_undisturbed:
  assumes sock: "sockets net inbox fds" and ex: "serve net ph s = Some (Ok ph' t)" and ok: "om_ok (sv_clients s)"
    and x: "thread_fd ph = Some x" "x \<noteq> fd" and pre: "no_stream x name s" and post: "no_stream x name t"
  shows "undisturbed inbox fds fd name s t"
proof (cases ph)
  case (AwaitsSize y)
  then have y: "y = x" using x(1) by simp
  obtain r u where u: "getMsgFromClient net x SIZE_CASE s = Some (Ok r u)"
    using ex AwaitsSize y by (auto simp: serve_answer then_opt_eq_Ok simp del: serve.simps)
  have su: "undisturbed inbox fds fd name s u" by (rule getMsg_undisturbed [OF sock x(2) _ u]) simp
  show ?thesis
  proof (cases "r = 0")
    case True
    then have "or_ends x (and_then (answer_size net x u) (\<lambda>_. Ok (AwaitsName x))) = Ok ph' t"
      using ex u AwaitsSize y by (simp add: serve_answer del: serve.simps)
    then have "answer_size net x u = Ok () t \<or> (\<exists>c. answer_size net x u = Exits c t)"
      by (cases "answer_size net x u") (auto simp: or_ends_def)
    then show ?thesis using answer_undisturbed [OF sock, of x u] undisturbed_trans [OF su] by blast
  next
    case False
    then show ?thesis using ex u AwaitsSize y su by (simp add: serve_answer del: serve.simps)
  qed
next
  case (AwaitsName y)
  then have y: "y = x" using x(1) by simp
  obtain r u where u: "getMsgFromClient net x NAME_CASE s = Some (Ok r u)"
    using ex AwaitsName y by (auto simp: then_opt_eq_Ok)
  have su: "undisturbed inbox fds fd name s u" by (rule getMsg_undisturbed [OF sock x(2) _ u]) simp
  have "om_ok (sv_clients u)"
    using getMsgFromClient_keeps [of x s net NAME_CASE] u ok by (simp add: serves_only_def)
  show ?thesis
  proof (cases "r = 0")
    case True
    then have "open_output net x u = Ok () t"
      using ex u AwaitsName y by (auto simp: and_then_eq_Ok_iff)
    then show ?thesis
      using open_undisturbed [OF sock _ \<open>om_ok (sv_clients u)\<close>, of x "()" t name fd] post undisturbed_trans [OF su]
      by (simp add: no_stream_def)
  next
    case False
    then show ?thesis using ex u AwaitsName y su by simp
  qed
next
  case (Storing y first)
  then have y: "y = x" using x(1) by simp
  obtain q w where q: "net_recv net x BUFF_SIZE (sv_world s) = (q, w)" by fastforce
  have su: "undisturbed inbox fds fd name s (s\<lparr>sv_world := w\<rparr>)"
    using sockets_recv(1,2) [OF sock q] x(2) by (simp add: undisturbed_def)
  have cl: "undisturbed inbox fds fd name s t" if "close_output x u = Ok () t" "undisturbed inbox fds fd name s u" for u
    using close_undisturbed [OF that(1)] that(2) undisturbed_trans by blast
  show ?thesis
  proof (cases "\<exists>b. q = Inr b \<and> b \<noteq> ''''")
    case True
    then obtain b where "write_output x b (s\<lparr>sv_world := w\<rparr>) = Ok () t"
      using ex q Storing y by (auto simp: Let_def and_then_eq_Ok_iff)
    then show ?thesis
      using write_undisturbed [of x b "s\<lparr>sv_world := w\<rparr>" "()" t name inbox fds fd] pre ok undisturbed_trans [OF su]
      by (simp add: no_stream_def)
  next
    case False
    then have "(\<exists>e. close_output x (sv_error ''recv'' e (s\<lparr>sv_world := w\<rparr>)) = Ok () t) \<or>
        close_output x (s\<lparr>sv_world := w\<rparr>) = Ok () t"
      using ex q Storing y by (cases q) (auto simp: Let_def and_then_eq_Ok_iff split: if_splits)
    then show ?thesis using cl su by auto
  qed
qed (use ex x in auto)

lemma or_ends_keeps: "keeps fd s m \<Longrightarrow> keeps fd s (or_ends fd m)"
  by (cases m) (simp_all add: or_ends_def)

lemma answer_size_keeps: "keeps fd s (answer_size net fd s)"
  unfolding answer_size_def by (intro keeps_and_then at_client_keeps reply_keeps)

lemma serve_keeps:
  assumes "thread_fd ph = Some x"
  shows "keeps_opt x s (serve net ph s)"
proof (cases ph)
  case (AwaitsSize y)
  then have y: "y = x" using assms by simp
  show ?thesis unfolding AwaitsSize y serve_answer
    by (intro keeps_then_opt getMsgFromClient_keeps)
      (auto intro!: or_ends_keeps keeps_and_then answer_size_keeps)
next
  case (AwaitsName y)
  then have y: "y = x" using assms by simp
  show ?thesis unfolding AwaitsName y serve.simps
    by (intro keeps_then_opt getMsgFromClient_keeps) (auto intro!: keeps_and_then open_output_keeps)
next
  case (Storing y first)
  then have y: "y = x" using assms by simp
  have cl: "keeps x s (and_then (close_output x u) (\<lambda>_. Ok p))" if "serves_only x s u" for u and p :: sthread
    by (intro keeps_trans [OF that] keeps_and_then close_output_keeps) simp
  have wr: "keeps x s (and_then (write_output x b (s\<lparr>sv_world := w\<rparr>)) (\<lambda>_. Ok p))" for b w and p :: sthread
    by (intro keeps_trans [of x s "s\<lparr>sv_world := w\<rparr>"] keeps_and_then write_output_keeps) simp_all
  show ?thesis unfolding Storing y by (auto simp: Let_def intro!: cl wr split: prod.split sum.split)
qed (use assms in auto)

section \<open>The upload of one client\<close>

text \<open>
  Where the thread \<open>i\<close> is that serves \<open>fd\<close>: what is still to come, the answer it has given, and what
  it has stored. The client sends the size \<open>n\<close>, the name and the pieces \<open>ms\<close>; \<open>k\<close> is the limit.
\<close>

definition answered_size :: "int \<Rightarrow> int \<Rightarrow> nat \<Rightarrow> 'w ftp_server \<Rightarrow> bool" where
  "answered_size fd k n s \<longleftrightarrow> (fd, if k < int n then ''1'' else ''0'') \<in> set (sv_replies s)"

fun upload_place :: "('w \<Rightarrow> int \<Rightarrow> string list) \<Rightarrow> int \<Rightarrow> string \<Rightarrow> int \<Rightarrow> nat \<Rightarrow> string list \<Rightarrow> 'w ftp_server
    \<Rightarrow> sthread \<Rightarrow> bool" where
  "upload_place inbox fd name k n ms s Created = False"
| "upload_place inbox fd name k n ms s (AwaitsSize x) \<longleftrightarrow>
     x = fd \<and> inbox (sv_world s) fd = int_text (int n) # name # ms \<and>
     (\<exists>c. om_find (sv_clients s) fd = Some c \<and> c_output c = None)"
| "upload_place inbox fd name k n ms s (AwaitsName x) \<longleftrightarrow>
     x = fd \<and> inbox (sv_world s) fd = name # ms \<and> answered_size fd k n s \<and>
     (\<exists>c. om_find (sv_clients s) fd = Some c \<and> c_output c = None)"
| "upload_place inbox fd name k n ms s (Storing x first) \<longleftrightarrow>
     x = fd \<and> answered_size fd k n s \<and> (\<forall>m \<in> set (inbox (sv_world s) fd). m \<noteq> '''') \<and>
     (\<exists>c z. om_find (sv_clients s) fd = Some c \<and> c_output c = Some (name, length z) \<and> \<not> c_failed c \<and>
        disk s name = Some z \<and> z @ concat (inbox (sv_world s) fd) = concat ms)"
| "upload_place inbox fd name k n ms s (Ended x) \<longleftrightarrow>
     x = fd \<and> answered_size fd k n s \<and> disk s name = Some (concat ms)"

definition upload_at :: "'w net \<Rightarrow> ('w \<Rightarrow> int \<Rightarrow> string list) \<Rightarrow> ('w \<Rightarrow> int set) \<Rightarrow> nat \<Rightarrow> int \<Rightarrow> string \<Rightarrow> int
    \<Rightarrow> nat \<Rightarrow> string list \<Rightarrow> 'w ftp_server \<Rightarrow> bool" where
  "upload_at net inbox fds i fd name k n ms s \<longleftrightarrow>
     sockets net inbox fds \<and> (\<forall>w. fst (net_open_out net name w)) \<and>
     n \<le> nat INT_MAX \<and> CHR 0x00 \<notin> set name \<and> length name < BUFF_SIZE \<and> (\<forall>m \<in> set ms. m \<noteq> '''') \<and>
     om_ok (sv_clients s) \<and> fd \<in> fds (sv_world s) \<and> gMaxFileSize s = k \<and>
     \<not> (sv_entering s \<and> sv_clientFd s = fd) \<and>
     i < length (sv_threads s) \<and> upload_place inbox fd name k n ms s (sv_threads s ! i)"

lemma upload_place_undisturbed:
  assumes "upload_place inbox fd name k n ms s ph" and "undisturbed inbox fds fd name s t"
    and "om_find (sv_clients t) fd = om_find (sv_clients s) fd"
  shows "upload_place inbox fd name k n ms t ph"
  using assms by (cases ph) (auto simp: undisturbed_def answered_size_def)

lemma upload_place_threads [simp]:
  "upload_place inbox fd name k n ms (s\<lparr>sv_threads := l\<rparr>) ph = upload_place inbox fd name k n ms s ph"
  by (cases ph) (simp_all add: answered_size_def)

lemma upload_size:
  assumes up: "upload_at net inbox fds i fd name k n ms s" and ph: "sv_threads s ! i = AwaitsSize x"
    and ex: "serve net (AwaitsSize x) s = Some (Ok ph' t)"
  shows "upload_place inbox fd name k n ms t ph' \<and> fd \<in> fds (sv_world t)"
proof -
  note up [unfolded upload_at_def ph]
  then have sock: "sockets net inbox fds" and ok: "om_ok (sv_clients s)" and fd: "fd \<in> fds (sv_world s)" "x = fd"
    and k: "gMaxFileSize s = k" and n: "n \<le> nat INT_MAX"
    and msgs: "inbox (sv_world s) fd = int_text (int n) # name # ms" by simp_all
  obtain c where c: "om_find (sv_clients s) fd = Some c" "c_output c = None" using up ph by (auto simp: upload_at_def)
  obtain r w where r: "net_recv net fd BUFF_SIZE (sv_world s) = (r, w)" by fastforce
  note w = sockets_recv [OF sock r]
  have rm: "r = Inr (int_text (int n))" "inbox w fd = name # ms" using w(3) fd(1) msgs by (simp_all add: next_message_def)
  let ?c = "c\<lparr>c_fileSize := int n\<rparr>"
  let ?s1 = "s\<lparr>sv_world := w, sv_clients := om_put fd ?c (sv_clients s)\<rparr>"
  have 1: "getMsgFromClient net fd SIZE_CASE s = Some (Ok 0 ?s1)" using size_message [OF c(1) _ n] r rm(1) by simp
  obtain q v where q: "net_send net fd (if k < int n then ''1'' else ''0'') w = (q, v)" by fastforce
  obtain m where m: "q = Inr m" using sockets_sent [OF sock _ q] fd(1) w(1) by auto
  have 2: "answer_size net fd ?s1 = Ok () (?s1\<lparr>sv_clients := om_put fd ?c (sv_clients ?s1), sv_world := v,
      sv_replies := sv_replies s @ [(fd, if k < int n then ''1'' else ''0'')]\<rparr>)"
    unfolding answer_size_def using answer_sent [of ?s1 fd ?c net m v] ok q m k by (simp add: om_ok_put om_find_put)
  have "ph' = AwaitsName fd \<and> t = ?s1\<lparr>sv_clients := om_put fd ?c (sv_clients ?s1), sv_world := v,
      sv_replies := sv_replies s @ [(fd, if k < int n then ''1'' else ''0'')]\<rparr>"
    using ex 1 2 fd(2) by (simp add: serve_answer or_ends_def del: serve.simps)
  then show ?thesis using sockets_send [OF sock q] w(1) rm(2) fd(1) ok c(2)
    by (simp add: answered_size_def om_ok_put om_find_put)
qed

lemma upload_name:
  assumes up: "upload_at net inbox fds i fd name k n ms s" and ph: "sv_threads s ! i = AwaitsName x"
    and ex: "serve net (AwaitsName x) s = Some (Ok ph' t)"
  shows "upload_place inbox fd name k n ms t ph' \<and> fd \<in> fds (sv_world t)"
proof -
  note up [unfolded upload_at_def ph]
  then have sock: "sockets net inbox fds" and ok: "om_ok (sv_clients s)" and fd: "fd \<in> fds (sv_world s)" "x = fd"
    and name: "CHR 0x00 \<notin> set name" "length name < BUFF_SIZE" and ms: "\<forall>m \<in> set ms. m \<noteq> ''''"
    and msgs: "inbox (sv_world s) fd = name # ms" and ans: "answered_size fd k n s"
    and opens: "\<And>w. fst (net_open_out net name w)" by simp_all
  obtain c where c: "om_find (sv_clients s) fd = Some c" "c_output c = None" using up ph by (auto simp: upload_at_def)
  obtain r w where r: "net_recv net fd BUFF_SIZE (sv_world s) = (r, w)" by fastforce
  note w = sockets_recv [OF sock r]
  have rm: "r = Inr name" "inbox w fd = ms" using w(3) fd(1) msgs by (simp_all add: next_message_def)
  let ?c = "c\<lparr>c_fileName := name\<rparr>"
  let ?s1 = "s\<lparr>sv_world := w, sv_clients := om_put fd ?c (sv_clients s)\<rparr>"
  have 1: "getMsgFromClient net fd NAME_CASE s = Some (Ok 0 ?s1)" using name_message [OF c(1) _ name] r rm(1) by simp
  obtain b v where b: "net_open_out net name w = (b, v)" by fastforce
  have "b" using opens [of w] b by simp
  then obtain cs where 2: "open_output net fd ?s1 =
      Ok () (?s1\<lparr>sv_clients := cs, sv_world := v, disk := (disk s)(name \<mapsto> '''')\<rparr>)"
    and cs: "om_find cs fd = Some (?c\<lparr>c_output := Some (name, 0), c_failed := False\<rparr>)"
    using output_opened [of ?s1 fd ?c net v] ok c(2) b by (auto simp: om_ok_put om_find_put)
  have "ph' = Storing fd True \<and> t = ?s1\<lparr>sv_clients := cs, sv_world := v, disk := (disk s)(name \<mapsto> '''')\<rparr>"
    using ex 1 2 fd(2) by simp
  then show ?thesis using sockets_open [OF sock b] w(1) rm(2) fd(1) cs ans ms
    by (simp add: answered_size_def)
qed

lemma close_output_other:
  assumes "close_output x s = Ok u t"
  shows "disk t = disk s \<and> sv_replies t = sv_replies s \<and> sv_world t = sv_world s"
  using assms by (auto simp: close_output_def and_then_eq_Ok_iff elim!: at_client_OkE)

lemma upload_data:
  assumes up: "upload_at net inbox fds i fd name k n ms s" and ph: "sv_threads s ! i = Storing x first"
    and ex: "serve net (Storing x first) s = Some (Ok ph' t)"
  shows "upload_place inbox fd name k n ms t ph' \<and> fd \<in> fds (sv_world t)"
proof -
  note up [unfolded upload_at_def ph]
  then have sock: "sockets net inbox fds" and ok: "om_ok (sv_clients s)" and fd: "fd \<in> fds (sv_world s)" "x = fd"
    and ans: "answered_size fd k n s" and pieces: "\<forall>m \<in> set (inbox (sv_world s) fd). m \<noteq> ''''" by simp_all
  obtain c z where c: "om_find (sv_clients s) fd = Some c" "c_output c = Some (name, length z)" "\<not> c_failed c"
    and z: "disk s name = Some z" "z @ concat (inbox (sv_world s) fd) = concat ms"
    using up ph by (auto simp: upload_at_def)
  obtain r w where r: "net_recv net fd BUFF_SIZE (sv_world s) = (r, w)" by fastforce
  note w = sockets_recv [OF sock r]
  show ?thesis
  proof (cases "inbox (sv_world s) fd")
    case Nil
    then have "r = Inr ''''" using w(3) fd(1) by (simp add: next_message_def)
    then have cl: "close_output fd (s\<lparr>sv_world := w\<rparr>) = Ok () t" "ph' = Ended fd"
      using ex r fd(2) by (auto simp: and_then_eq_Ok_iff)
    then show ?thesis using close_output_other [OF cl(1)] ans z Nil fd(1) w(1)
      by (simp add: answered_size_def)
  next
    case (Cons m rest)
    then have rm: "r = Inr m" "inbox w fd = rest" "m \<noteq> ''''" using w(3) fd(1) pieces by (simp_all add: next_message_def)
    obtain cs where "write_output fd m (s\<lparr>sv_world := w\<rparr>) =
        Ok () (s\<lparr>sv_world := w, sv_clients := cs, disk := (disk s)(name \<mapsto> z @ m)\<rparr>)"
      and cs: "om_find cs fd = Some (c\<lparr>c_output := Some (name, length (z @ m))\<rparr>)"
      using write_output_stores [of "s\<lparr>sv_world := w\<rparr>" fd c name z m] ok c z(1) by auto
    then have "ph' = Storing fd False \<and> t = s\<lparr>sv_world := w, sv_clients := cs, disk := (disk s)(name \<mapsto> z @ m)\<rparr>"
      using ex r rm fd(2) by simp
    then show ?thesis using cs rm(2) z(2) Cons ans pieces c(3) fd(1) w(1)
      by (auto simp: answered_size_def)
  qed
qed

lemma upload_own:
  assumes up: "upload_at net inbox fds i fd name k n ms s" and ex: "serve net (sv_threads s ! i) s = Some (Ok ph t)"
  shows "upload_at net inbox fds i fd name k n ms (t\<lparr>sv_threads := (sv_threads t)[i := ph]\<rparr>)"
proof -
  have "thread_fd (sv_threads s ! i) = Some fd"
    using up by (cases "sv_threads s ! i") (auto simp: upload_at_def)
  then have "serves_only fd s t" using serve_keeps [of _ fd s net] ex by fastforce
  moreover have "upload_place inbox fd name k n ms t ph \<and> fd \<in> fds (sv_world t)"
    using up ex upload_size [OF up] upload_name [OF up] upload_data [OF up]
    by (cases "sv_threads s ! i") (auto simp: upload_at_def simp del: serve.simps(1-4))
  ultimately show ?thesis using up by (simp add: upload_at_def serves_only_def)
qed

lemma upload_other:
  assumes up: "upload_at net inbox fds i fd name k n ms s" and "alone i fd name s"
    and j: "j < length (sv_threads s)" "j \<noteq> i"
    and ex: "serve net (sv_threads s ! j) s = Some (Ok ph t)"
    and post: "alone i fd name (t\<lparr>sv_threads := (sv_threads t)[j := ph]\<rparr>)"
  shows "upload_at net inbox fds i fd name k n ms (t\<lparr>sv_threads := (sv_threads t)[j := ph]\<rparr>)"
proof (cases "thread_fd (sv_threads s ! j)")
  case None
  then have "t = s" using ex by (cases "sv_threads s ! j") auto
  then show ?thesis using up j by (simp add: upload_at_def)
next
  case (Some x)
  have sock: "sockets net inbox fds" and ok: "om_ok (sv_clients s)" using up by (simp_all add: upload_at_def)
  have x: "x \<noteq> fd" using assms(2) j Some by (auto simp: alone_def)
  have "no_stream x name s" "no_stream x name t" using assms(2) post x by (auto simp: alone_def no_stream_def)
  then have und: "undisturbed inbox fds fd name s t" by (rule serve_undisturbed [OF sock ex ok Some x])
  have only: "serves_only x s t" using serve_keeps [OF Some, of s net] ex by simp
  then have "om_find (sv_clients t) fd = om_find (sv_clients s) fd" using ok x by (simp add: serves_only_def)
  then show ?thesis using up only und upload_place_undisturbed [OF _ und] j
    by (auto simp: upload_at_def serves_only_def undisturbed_def)
qed

lemma upload_accept:
  assumes up: "upload_at net inbox fds i fd name k n ms s" and ex: "mt_exec net Accept s = Some (Ok r t)"
  shows "upload_at net inbox fds i fd name k n ms t"
proof -
  have sock: "sockets net inbox fds" and fd: "fd \<in> fds (sv_world s)"
    and pl: "upload_place inbox fd name k n ms s (sv_threads s ! i)"
    using up by (simp_all add: upload_at_def)
  obtain a w where a: "net_accept net (gServerFd s) (sv_world s) = (a, w)" by fastforce
  note w = sockets_accept [OF sock a]
  have t: "t = s\<lparr>sv_world := w, sv_clientFd := a, sv_entering := 0 < a\<rparr>"
    using ex a by (auto simp: accept_client_def sv_call_def Let_def and_then_eq_Ok_iff split: if_splits)
  have "0 < a \<longrightarrow> a \<noteq> fd" using w(3) fd by auto
  moreover have "undisturbed inbox fds fd name s t" using t w by (simp add: undisturbed_def)
  ultimately show ?thesis using up upload_place_undisturbed [OF pl, of fds t] t
    by (auto simp: upload_at_def undisturbed_def)
qed

lemma upload_enter:
  assumes up: "upload_at net inbox fds i fd name k n ms s" and ex: "mt_exec net Enter s = Some (Ok r t)"
  shows "upload_at net inbox fds i fd name k n ms t"
proof -
  have sock: "sockets net inbox fds" and ok: "om_ok (sv_clients s)" and i: "i < length (sv_threads s)"
    and pl: "upload_place inbox fd name k n ms s (sv_threads s ! i)"
    using up by (simp_all add: upload_at_def)
  have other: "sv_clientFd s \<noteq> fd" using up ex by (auto simp: upload_at_def split: if_splits)
  obtain q v where q: "net_thread net (sv_world s) = (q, v)" by fastforce
  have t: "t = s\<lparr>sv_clients := om_put (sv_clientFd s) new_client_rec (sv_clients s), sv_world := v,
      sv_threads := sv_threads s @ [Created], sv_entering := False\<rparr>"
    using ex q by (auto simp: enter_client_def sv_call_def and_then_eq_Ok_iff split: if_splits sum.splits)
  have "undisturbed inbox fds fd name s t" using t sockets_thread [OF sock q] by (simp add: undisturbed_def)
  then show ?thesis using up upload_place_undisturbed [OF pl, of fds t] t ok i other
    by (auto simp: upload_at_def undisturbed_def om_find_put om_ok_put nth_append)
qed

interpretation upload: event_guarded "mt_exec net" "upload_at net inbox fds i fd name k n ms" "alone i fd name"
  for net :: "'w net" and inbox fds i fd name k n ms
proof unfold_locales
  fix s :: "'w ftp_server" and e r t
  assume up: "upload_at net inbox fds i fd name k n ms s" and pre: "alone i fd name s"
    and ex: "mt_exec net e s = Some (Ok r t)" and post: "alone i fd name t"
  show "upload_at net inbox fds i fd name k n ms t"
  proof (cases e)
    case Accept
    then show ?thesis using upload_accept [OF up] ex by blast
  next
    case Enter
    then show ?thesis using upload_enter [OF up] ex by blast
  next
    case (Serve j)
    then obtain ph u where u: "serve net (sv_threads s ! j) s = Some (Ok ph u)" "j < length (sv_threads s)"
      and t: "t = u\<lparr>sv_threads := (sv_threads u)[j := ph]\<rparr>"
      using ex by (auto simp: serve_step_def then_opt_eq_Ok split: if_splits)
    show ?thesis
    proof (cases "j = i")
      case True
      then show ?thesis using upload_own [OF up] u(1) t by simp
    next
      case False
      show ?thesis using upload_other [OF up pre u(2) False u(1)] post t by simp
    qed
  qed
qed

section \<open>Properties\<close>

text \<open>
  A small system: its world holds the descriptors that \<open>accept\<close> will give, what each descriptor will
  deliver, and the descriptors in use.
\<close>

type_synonym busy_world = "int list \<times> (int \<Rightarrow> string list) \<times> int list"

fun busy_recv :: "int \<Rightarrow> busy_world \<Rightarrow> (int + string) \<times> busy_world" where
  "busy_recv fd (as, box, used) =
     (if 0 < fd \<and> fd \<in> set used then (Inr (next_message (box fd)), (as, box(fd := tl (box fd)), used))
      else (Inl 9, (as, box, used)))"

fun busy_accept :: "busy_world \<Rightarrow> int \<times> busy_world" where
  "busy_accept ([], box, used) = (0, ([], box, used))"
| "busy_accept (a # as, box, used) =
     (if 0 < a then if a \<in> set used then (- 1, (as, box, used)) else (a, (as, box, a # used))
      else (a, (as, box, used)))"

definition busy_net :: "busy_world net" where
  "busy_net =
     \<lparr>net_hostname = (\<lambda>w. (''host'', w)), net_resolve = (\<lambda>h w. (Inr ''addr'', w)),
      net_socket = (\<lambda>w. (Inr 3, w)), net_connect = (\<lambda>fd a p w. (Inr (), w)),
      net_bind = (\<lambda>fd p w. (Inr (), w)), net_listen = (\<lambda>fd n w. (Inr (), w)),
      net_accept = (\<lambda>srv. busy_accept), net_send = (\<lambda>fd m w. (Inr (int (length m)), w)),
      net_recv = (\<lambda>fd n. busy_recv fd), net_close = (\<lambda>fd w. (Inr (), w)), net_thread = (\<lambda>w. (Inr (), w)),
      net_open_in = (\<lambda>p w. (None, w)), net_open_out = (\<lambda>p w. (True, w)), net_heap = (\<lambda>w. '''')\<rparr>"

lemma busy_sockets: "sockets busy_net (\<lambda>(as, box, used). box) (\<lambda>(as, box, used). {x \<in> set used. 0 < x})"
  by (auto simp: sockets_def receives_def streams_kept_def hands_out_def busy_net_def elim!: busy_accept.elims
      split: if_splits prod.splits)

text \<open>Two clients that are being served, with the names of their files.\<close>

definition busy_server :: "string \<Rightarrow> string \<Rightarrow> busy_world ftp_server" where
  "busy_server f g =
     (initial_server ([], (\<lambda>_. [])(5 := [''2'', f, ''xy''], 6 := [''1'', g, ''z'']), [5, 6]))
       \<lparr>gMaxFileSize := 9, sv_clientFd := 6, sv_clients := [(5, new_client_rec), (6, new_client_rec)],
        sv_threads := [AwaitsSize 5, AwaitsSize 6]\<rparr>"

text \<open>
  C37: While a client that is entered in the map uploads a file, the main thread may accept and enter
  further clients and other threads may serve theirs, in any order of steps. If no other thread serves the same descriptor and no other
  stream is open on the same file, then the file has exactly the contents of this client when its
  thread ends, and the client got its answer.
\<close>

theorem uploads_isolated:
  assumes "sockets net inbox fds" and "\<forall>w. fst (net_open_out net name w)"
    and "om_ok (sv_clients s)" and "om_find (sv_clients s) fd = Some c" and "c_output c = None"
    and "i < length (sv_threads s)" and "sv_threads s ! i = AwaitsSize fd" and "fd \<in> fds (sv_world s)"
    and "inbox (sv_world s) fd = int_text (int n) # name # ms" and "\<forall>m \<in> set ms. m \<noteq> ''''"
    and "n \<le> nat INT_MAX" and "CHR 0x00 \<notin> set name" and "length name < BUFF_SIZE"
    and "\<not> (sv_entering s \<and> sv_clientFd s = fd)"
    and "run_all (mt_exec net) (alone i fd name) es s" and "run_events (mt_exec net) es s = Some (Ok rs t)"
    and "sv_threads t ! i = Ended x"
  shows "disk t name = Some (concat ms) \<and>
    (fd, if gMaxFileSize s < int n then ''1'' else ''0'') \<in> set (sv_replies t)"
proof -
  have "upload_at net inbox fds i fd name (gMaxFileSize s) n ms s" using assms by (simp add: upload_at_def)
  then have "upload_at net inbox fds i fd name (gMaxFileSize s) n ms t"
    by (rule upload.run_guarded [OF _ assms(15,16)])
  then show ?thesis using assms(17) by (simp add: upload_at_def answered_size_def)
qed

text \<open>Evaluation of runs of the small system.\<close>

lemma busy_calls:
  "net_recv busy_net fd n w = busy_recv fd w" "net_send busy_net fd m w = (Inr (int (length m)), w)"
  "net_open_out busy_net p w = (True, w)"
  by (simp_all add: busy_net_def)

lemma busy_buffer: "CHR 0x00 \<notin> set m \<Longrightarrow> length m < 1024 \<Longrightarrow> buffer_text busy_net m s = m"
  using buffer_text_short by (simp add: BUFF_SIZE_def)

lemma busy_numbers: "atoi ''2'' = 2" "atoi ''1'' = 1"
  by code_simp+

lemmas busy_eval = busy_server_def initial_server_def new_client_rec_def serve_step_def sv_call_def at_client_def
  getMsgFromClient_def reply_def or_ends_def open_output_def close_output_def write_output_def overwrite_def
  next_message_def Let_def busy_calls busy_buffer busy_numbers

lemma busy_run:
  "\<exists>rs t. run_events (mt_exec busy_net) [Serve 0, Serve 1, Serve 0, Serve 1, Serve 1, Serve 0, Serve 0]
      (busy_server ''a'' ''b'') = Some (Ok rs t) \<and> sv_threads t ! 0 = Ended 5"
  by (simp add: busy_eval)

lemma busy_alone:
  "run_all (mt_exec busy_net) (alone 0 5 ''a'') [Serve 0, Serve 1, Serve 0, Serve 1, Serve 1, Serve 0, Serve 0]
      (busy_server ''a'' ''b'')"
  by (simp add: busy_eval alone_def All_less_Suc2)

theorem uploads_isolated_witness:
  "\<exists>rs t. run_events (mt_exec busy_net) [Serve 0, Serve 1, Serve 0, Serve 1, Serve 1, Serve 0, Serve 0]
      (busy_server ''a'' ''b'') = Some (Ok rs t) \<and> disk t ''a'' = Some ''xy''"
proof -
  let ?es = "[Serve 0, Serve 1, Serve 0, Serve 1, Serve 1, Serve 0, Serve 0]"
  obtain rs t where r: "run_events (mt_exec busy_net) ?es (busy_server ''a'' ''b'') = Some (Ok rs t)"
    "sv_threads t ! 0 = Ended 5"
    using busy_run by blast
  have n: "int_text (int 2) = ''2''" by code_simp
  have "disk t ''a'' = Some (concat [''xy''])"
    using uploads_isolated [OF busy_sockets _ _ _ _ _ _ _ _ _ _ _ _ _ busy_alone r, of new_client_rec 2 "[''xy'']"] n
    by (simp add: busy_server_def initial_server_def new_client_rec_def busy_net_def INT_MAX_def BUFF_SIZE_def)
  then show ?thesis using r(1) by auto
qed

text \<open>
  Without the condition on the file it may not be so: two clients that upload a file of the same name
  at the same time leave a mixture of both.
\<close>

lemma same_name_mixes:
  "\<exists>rs t. run_events (mt_exec busy_net)
      [Serve 0, Serve 1, Serve 0, Serve 1, Serve 0, Serve 1, Serve 0, Serve 1] (busy_server ''a'' ''a'') = Some (Ok rs t) \<and>
    sv_threads t = [Ended 5, Ended 6] \<and> disk t ''a'' = Some ''zy''"
  by (simp add: busy_eval)

text \<open>
  C38: However the steps of the main thread (\<open>accept\<close>, entering the client) and of the threads alternate
  after \<open>main_server\<close> has set up the socket: the main thread always comes back, with undefined
  behaviour only when \<open>accept\<close> returns 0, and a thread takes its next step until it ends, with one
  exception: a thread that serves a descriptor which \<open>accept\<close> has returned and the main thread
  has not entered into the map yet. If it receives something before that, \<open>at\<close> throws.
\<close>

theorem server_threads_safe:
  assumes "refuses_errors net" and "main_server net argv (initial_server w) = Ok r s"
    and "run_events (mt_exec net) es s = Some (Ok rs t)"
  shows "(\<exists>q. mt_exec net (if sv_entering t then Enter else Accept) t = Some q \<and>
      (is_fault q \<longrightarrow> \<not> sv_entering t \<and> fst (net_accept net (gServerFd t) (sv_world t)) = 0)) \<and>
    (\<forall>i < length (sv_threads t).
       (\<exists>fd. sv_threads t ! i = Ended fd) \<or>
       (if late net t (sv_threads t ! i) then mt_exec net (Serve i) t = Some (Faults OutOfRange)
        else \<exists>u. mt_exec net (Serve i) t = Some (Ok 0 u)))"
proof -
  have "svinv net s" using main_server_start [OF assms(2)] assms(1) by (simp add: svinv_def)
  then have t: "svinv net t" by (rule svt.run_invar [OF _ _ assms(3)]) (simp add: list_all_iff)
  have throws: "mt_exec net (Serve i) t = Some (Faults OutOfRange)"
    if "i < length (sv_threads t)" "late net t (sv_threads t ! i)" for i
    using that serve_late [OF that(2)] by (simp add: serve_step_def then_opt_def)
  show ?thesis
  proof (intro conjI allI impI)
    show "\<exists>q. mt_exec net (if sv_entering t then Enter else Accept) t = Some q \<and>
      (is_fault q \<longrightarrow> \<not> sv_entering t \<and> fst (net_accept net (gServerFd t) (sv_world t)) = 0)"
      by (rule main_returns)
  next
    fix i assume i: "i < length (sv_threads t)"
    show "(\<exists>fd. sv_threads t ! i = Ended fd) \<or>
       (if late net t (sv_threads t ! i) then mt_exec net (Serve i) t = Some (Faults OutOfRange)
        else \<exists>u. mt_exec net (Serve i) t = Some (Ok 0 u))"
      using throws [OF i] serve_step_ok [OF t i] by (simp only: if_split) blast
  qed
qed

lemma busy_start:
  "\<exists>s. main_server busy_net [''srftp'', ''8080'', ''9''] (initial_server w) = Ok 0 s \<and>
    s = (initial_server w)\<lparr>gMaxFileSize := 9, gServerFd := 3\<rparr>"
proof -
  have args: "legal_port ''8080''" "isInteger ''9''" "atoi ''9'' = 9" "atoi ''8080'' = 8080" by code_simp+
  show ?thesis by (simp add: main_server_def args connectToClient_def sv_call_def initial_server_def busy_net_def)
qed

lemma busy_refuses: "refuses_errors busy_net"
  by (auto simp: refuses_errors_def busy_net_def)

lemmas busy_main_eval = initial_server_def busy_net_def accept_client_def enter_client_def sv_call_def
  serve_step_def Let_def

theorem server_threads_safe_witness:
  "\<exists>s rs t. main_server busy_net [''srftp'', ''8080'', ''9''] (initial_server ([7], (\<lambda>_. []), [])) = Ok 0 s \<and>
    run_events (mt_exec busy_net) [Accept, Enter, Serve 0] s = Some (Ok rs t) \<and>
    (\<exists>u. mt_exec busy_net (Serve 0) t = Some (Ok 0 u))"
proof -
  obtain s where s: "main_server busy_net [''srftp'', ''8080'', ''9''] (initial_server ([7], (\<lambda>_. []), [])) = Ok 0 s"
    "s = (initial_server ([7], (\<lambda>_. []), []))\<lparr>gMaxFileSize := 9, gServerFd := 3\<rparr>" using busy_start by blast
  then obtain rs t where t: "run_events (mt_exec busy_net) [Accept, Enter, Serve 0] s = Some (Ok rs t)"
      "sv_threads t = [AwaitsSize 7]" "\<not> sv_entering t"
    by (simp add: busy_main_eval)
  then have "\<not> late busy_net t (sv_threads t ! 0)" "\<nexists>fd. sv_threads t ! 0 = Ended fd" "0 < length (sv_threads t)"
    by (simp_all add: early_def)
  then have "\<exists>u. mt_exec busy_net (Serve 0) t = Some (Ok 0 u)"
    using server_threads_safe [OF busy_refuses s(1) t(1)] by (simp only: if_split) blast
  then show ?thesis using s(1) t(1) by blast
qed

text \<open>The exception happens: the thread of the first client starts when \<open>accept\<close> has returned the second.\<close>

lemma late_thread_throws:
  "run_events (mt_exec busy_net) [Accept, Enter, Accept, Serve 0, Serve 0]
     ((initial_server ([5, 6], (\<lambda>_. [''2'']), []))\<lparr>gMaxFileSize := 9, gServerFd := 3\<rparr>) = Some (Faults OutOfRange)"
  by (simp add: busy_main_eval busy_eval next_message_def)

end
