(* ===== verification/Osm.thy ===== *)
theory Osm
  imports Prelude Complex_Main "HOL-Library.Word"
begin

text \<open>
  \<open>osm.cpp\<close>, the timing library of ex1. An \<open>unsigned int\<close> is a \<open>32 word\<close>; a \<open>double\<close> is the rational
  number it stands for, without rounding. \<open>timer\<close> is the system: the clock (seconds and
  microseconds), the empty trap, the name of the machine. C40 is the property of this program.
\<close>

record 'w timer =
  gettimeofday :: "'w \<Rightarrow> (int \<times> int) option \<times> 'w"
  null_trap :: "'w \<Rightarrow> 'w"
  gethostname :: "'w \<Rightarrow> string option \<times> 'w"

definition OSM_DEFAULT_ITER :: "32 word" where
  "OSM_DEFAULT_ITER = 50000"

definition LP_UNRLNG :: "32 word" where
  "LP_UNRLNG = 5"

definition FAILURE :: rat where
  "FAILURE = - 1"

definition osm_init :: int where
  "osm_init = 0"

text \<open>The number of rounds of the unrolled loop, and the number of operations reported for it.\<close>

definition rounds :: "32 word \<Rightarrow> 32 word" where
  "rounds n = n div LP_UNRLNG + (if n mod LP_UNRLNG \<noteq> 0 then 1 else 0)"

definition rounded_iterations :: "32 word \<Rightarrow> 32 word" where
  "rounded_iterations n = rounds n * LP_UNRLNG"

lemma unat_next: "i < k \<Longrightarrow> unat (i + 1) = unat i + (1::nat)" for i k :: "32 word"
  using unsigned_less [of k, where ?'a = nat] by (simp add: word_less_nat_alt unat_word_ariths)

function osm_loop :: "('w \<Rightarrow> 'w) \<Rightarrow> 32 word \<Rightarrow> 32 word \<Rightarrow> 'w \<Rightarrow> 'w" where
  "osm_loop f i k w = (if i < k then osm_loop f (i + 1) k (f (f (f (f (f w))))) else w)"
  by pat_completeness auto

termination
  by (relation "measure (\<lambda>(f, i, k, w). unat k - unat i)")
    (auto simp: unat_next word_less_nat_alt)

declare osm_loop.simps [simp del]

text \<open>\<open>timersub\<close> and the time per iteration in nanoseconds.\<close>

definition timersub :: "int \<times> int \<Rightarrow> int \<times> int \<Rightarrow> int \<times> int" where
  "timersub a b =
     (let sec = fst a - fst b; usec = snd a - snd b
      in if usec < 0 then (sec - 1, usec + 1000000) else (sec, usec))"

definition nanoseconds :: "int \<times> int \<Rightarrow> int" where
  "nanoseconds d = fst d * 1000000000 + snd d * 1000"

text \<open>
  The three measurements are the same code around different operations. Calling an empty function
  and writing a local variable change nothing outside.
\<close>

definition osm_time :: "'w timer \<Rightarrow> ('w \<Rightarrow> 'w) \<Rightarrow> 32 word \<Rightarrow> 'w \<Rightarrow> rat \<times> 'w" where
  "osm_time sys f osm_iterations w =
     (let n = (if osm_iterations = 0 then OSM_DEFAULT_ITER else osm_iterations)
      in case gettimeofday sys w of
           (None, w1) \<Rightarrow> (FAILURE, w1)
         | (Some before, w1) \<Rightarrow>
             (case gettimeofday sys (osm_loop f 0 (rounds n) w1) of
                (None, w2) \<Rightarrow> (FAILURE, w2)
              | (Some now, w2) \<Rightarrow>
                  (of_int (nanoseconds (timersub now before)) / of_int (uint n), w2)))"

definition osm_function_time :: "'w timer \<Rightarrow> 32 word \<Rightarrow> 'w \<Rightarrow> rat \<times> 'w" where
  "osm_function_time sys n w = osm_time sys (\<lambda>w. w) n w"

definition osm_syscall_time :: "'w timer \<Rightarrow> 32 word \<Rightarrow> 'w \<Rightarrow> rat \<times> 'w" where
  "osm_syscall_time sys n w = osm_time sys (null_trap sys) n w"

definition osm_operation_time :: "'w timer \<Rightarrow> 32 word \<Rightarrow> 'w \<Rightarrow> rat \<times> 'w" where
  "osm_operation_time sys n w = osm_time sys (\<lambda>w. w) n w"

text \<open>A \<open>double\<close> converted to \<open>int\<close>: cut off, and undefined when it does not fit.\<close>

definition to_int :: "rat \<Rightarrow> int option" where
  "to_int q =
     (let k = (if q < 0 then - \<lfloor>- q\<rfloor> else \<lfloor>q\<rfloor>)
      in if - 2147483648 \<le> k \<and> k \<le> 2147483647 then Some k else None)"

record measurement =
  machineName :: string
  numberOfIterations :: int
  instructionTimeNanoSecond :: rat
  functionTimeNanoSecond :: rat
  trapTimeNanoSecond :: rat
  functionInstructionRatio :: int
  trapInstructionRatio :: int

text \<open>A ratio is -1 when a time is; dividing by zero gives no number that fits.\<close>

definition ratio :: "rat \<Rightarrow> rat \<Rightarrow> int option" where
  "ratio t base =
     (if base = FAILURE \<or> t = FAILURE then Some (- 1)
      else if base = 0 then None
      else to_int (t / base))"

definition measureTimes :: "'w timer \<Rightarrow> 32 word \<Rightarrow> 'w \<Rightarrow> (measurement, 'w) outcome" where
  "measureTimes sys osm_iterations w =
     (case gethostname sys w of
        (host, w0) \<Rightarrow>
          (case osm_function_time sys osm_iterations w0 of
             (fn, w1) \<Rightarrow>
               (case osm_operation_time sys osm_iterations w1 of
                  (instr, w2) \<Rightarrow>
                    (case osm_syscall_time sys osm_iterations w2 of
                       (trap, w3) \<Rightarrow>
                         (case (ratio fn instr, ratio trap instr) of
                            (Some fr, Some tr) \<Rightarrow>
                              Ok \<lparr>machineName = (case host of None \<Rightarrow> '''' | Some h \<Rightarrow> h),
                                  numberOfIterations = sint (rounded_iterations osm_iterations),
                                  instructionTimeNanoSecond = instr, functionTimeNanoSecond = fn,
                                  trapTimeNanoSecond = trap, functionInstructionRatio = fr,
                                  trapInstructionRatio = tr\<rparr> w3
                          | _ \<Rightarrow> Faults BadCast)))))"

section \<open>What is counted\<close>

lemma osm_loop_funpow:
  "unat i \<le> unat k \<Longrightarrow> osm_loop f i k w = (f ^^ (5 * (unat k - unat i))) w"
proof (induction f i k w rule: osm_loop.induct)
  case (1 f i k w)
  show ?case
  proof (cases "i < k")
    case True
    then have lt: "unat i < unat k" by (simp add: word_less_nat_alt)
    have n: "5 * (unat k - unat i) = 5 * (unat k - unat (i + 1)) + 5"
      using lt unat_next [OF True] by simp
    have "osm_loop f i k w = (f ^^ (5 * (unat k - unat (i + 1)))) (f (f (f (f (f w)))))"
      using 1 True lt unat_next [OF True] by (subst osm_loop.simps) simp
    then show ?thesis unfolding n funpow_add by (simp add: eval_nat_numeral)
  next
    case False
    then have "unat k \<le> unat i" by (simp add: word_less_nat_alt)
    then show ?thesis using False by (subst osm_loop.simps) simp
  qed
qed

lemma unat_rounds: "unat (rounds n) = (unat n + 4) div 5"
proof -
  have lt: "unat n < 4294967296" using unsigned_less [of n, where ?'a = nat] by simp
  have m: "n mod LP_UNRLNG \<noteq> 0 \<longleftrightarrow> unat n mod 5 \<noteq> 0"
    by (simp add: LP_UNRLNG_def unat_mod_distrib word_unat_eq_iff)
  have d: "unat (n div LP_UNRLNG) = unat n div 5" by (simp add: LP_UNRLNG_def unat_div_distrib)
  show ?thesis
  proof (cases "unat n mod 5 = 0")
    case True
    then show ?thesis using m d by (simp add: rounds_def) presburger
  next
    case False
    have "unat (n div LP_UNRLNG + 1) = unat n div 5 + 1"
      using d lt by (simp add: unat_word_ariths)
    moreover have "(unat n + 4) div 5 = unat n div 5 + 1" using False by presburger
    ultimately show ?thesis using m False by (simp add: rounds_def)
  qed
qed

lemma unat_rounded: "unat (rounded_iterations n) = 5 * ((unat n + 4) div 5)"
proof -
  have "unat n \<le> 4294967295" using unsigned_less [of n, where ?'a = nat] by simp
  then have "5 * ((unat n + 4) div 5) < 4294967296" by presburger
  then show ?thesis
    using unat_rounds [of n] by (simp add: rounded_iterations_def LP_UNRLNG_def unat_word_ariths mult.commute)
qed

text \<open>The report has an \<open>int\<close> for the number of operations.\<close>

lemma sint_cases: "sint k = (if unat k < 2147483648 then int (unat k) else int (unat k) - 4294967296)"
  for k :: "32 word"
proof -
  have b: "- 2147483648 \<le> sint k" "sint k < 2147483648" using sint_ge [of k] sint_lt [of k] by simp_all
  have u: "int (unat k) = sint k mod 4294967296"
    using uint_sint [of k] by (simp add: take_bit_eq_mod)
  show ?thesis
  proof (cases "0 \<le> sint k")
    case True
    then have "sint k mod 4294967296 = sint k" using b by (intro mod_pos_pos_trivial) simp_all
    then show ?thesis using u b by (simp del: int_nat_eq of_nat_unat)
  next
    case False
    have "sint k mod 4294967296 = (sint k + 4294967296) mod 4294967296" by simp
    also have "\<dots> = sint k + 4294967296" using False b by (intro mod_pos_pos_trivial) simp_all
    finally show ?thesis using u False b by (simp del: int_nat_eq of_nat_unat)
  qed
qed

lemma reported:
  assumes "measureTimes sys n w = Ok r v"
  shows "numberOfIterations r = sint (rounded_iterations n)"
  using assms by (auto simp: measureTimes_def split: prod.splits option.splits)

text \<open>
  C40: for \<open>n\<close> iterations the measured loop does the least multiple of five that is not below \<open>n\<close>,
  without wrap-around, and the time is divided by \<open>n\<close> itself; for 0 it does 50000 and divides by
  50000. The report gives the number of operations if it is below 2 to the 31; otherwise the
  \<open>int\<close> in it is that number less 2 to the 32, and for 0 it is 0.
\<close>

theorem operations_counted:
  "osm_time sys f n w =
     (let m = (if n = 0 then 50000 else unat n)
      in case gettimeofday sys w of
           (None, w1) \<Rightarrow> (FAILURE, w1)
         | (Some before, w1) \<Rightarrow>
             (case gettimeofday sys ((f ^^ (5 * ((m + 4) div 5))) w1) of
                (None, w2) \<Rightarrow> (FAILURE, w2)
              | (Some now, w2) \<Rightarrow> (of_int (nanoseconds (timersub now before)) / of_nat m, w2))) \<and>
   (\<forall>r v. measureTimes sys n w = Ok r v \<longrightarrow>
      numberOfIterations r =
        (let k = (if n = 0 then 0 else 5 * ((unat n + 4) div 5))
         in if k < 2147483648 then int k else int k - 4294967296))"
proof -
  let ?n = "if n = 0 then OSM_DEFAULT_ITER else n" and ?m = "if n = 0 then 50000 else unat n"
  let ?k = "if n = 0 then 0 else 5 * ((unat n + 4) div 5)"
  have m: "unat ?n = ?m" by (simp add: OSM_DEFAULT_ITER_def)
  have u: "of_int (uint ?n) = (of_nat ?m :: rat)" by (simp only: uint_nat of_int_of_nat_eq m)
  have l: "osm_loop f 0 (rounds ?n) v = (f ^^ (5 * ((?m + 4) div 5))) v" for v
    using osm_loop_funpow [of 0 "rounds ?n" f v] unat_rounds [of ?n] m by simp
  have time: "osm_time sys f n w =
      (case gettimeofday sys w of
           (None, w1) \<Rightarrow> (FAILURE, w1)
         | (Some before, w1) \<Rightarrow>
             (case gettimeofday sys ((f ^^ (5 * ((?m + 4) div 5))) w1) of
                (None, w2) \<Rightarrow> (FAILURE, w2)
              | (Some now, w2) \<Rightarrow> (of_int (nanoseconds (timersub now before)) / of_nat ?m, w2)))"
    unfolding osm_time_def Let_def l u ..
  have k: "unat (rounded_iterations n) = ?k" by (simp only: unat_rounded) simp
  have "numberOfIterations r = (if ?k < 2147483648 then int ?k else int ?k - 4294967296)"
    if "measureTimes sys n w = Ok r v" for r v
    unfolding reported [OF that] sint_cases k ..
  then show ?thesis unfolding Let_def by (intro conjI allI impI time)
qed

text \<open>A clock that stands still for the loop of empty operations but counts traps, in microseconds.\<close>

definition demo_timer :: "int timer" where
  "demo_timer = \<lparr>gettimeofday = (\<lambda>w. (Some (0, w), w + 1)), null_trap = (\<lambda>w. w), gethostname = (\<lambda>w. (None, w))\<rparr>"

theorem operations_counted_witness:
  "(\<exists>r v. measureTimes demo_timer 12 0 = Ok r v \<and> numberOfIterations r = 15) \<and>
   (\<exists>r v. measureTimes demo_timer 3000000000 0 = Ok r v \<and> numberOfIterations r = - 1294967296)"
proof -
  have same: "(f ^^ k) w = w" if "f = (\<lambda>w. w)" for f :: "int \<Rightarrow> int" and k w
    using that by (induction k) simp_all
  have ns: "osm_time demo_timer (\<lambda>w. w) n w = (1000 / of_nat (unat n), w + 2)" if "n \<noteq> 0" for n w
    using operations_counted [of demo_timer "\<lambda>w. w" n w] that
    by (simp add: same demo_timer_def timersub_def nanoseconds_def)
  have run: "\<exists>r v. measureTimes demo_timer n 0 = Ok r v" if "n \<noteq> 0" for n
  proof -
    have "ratio c c = Some 1" if "0 < c" for c
      using that by (auto simp: ratio_def FAILURE_def to_int_def)
    moreover have "0 < (of_nat (unat n) :: rat)" using that by (simp only: of_nat_0_less_iff unat_gt_0 simp_thms)
    then have "0 < (1000 / of_nat (unat n) :: rat)" by (rule divide_pos_pos [rotated]) simp
    ultimately have "ratio (1000 / of_nat (unat n)) (1000 / of_nat (unat n)) = Some 1" by blast
    then show ?thesis using ns [OF that]
      by (simp add: measureTimes_def osm_function_time_def osm_operation_time_def osm_syscall_time_def)
        (simp add: demo_timer_def)
  qed
  have "\<exists>r v. measureTimes demo_timer n 0 = Ok r v \<and> numberOfIterations r =
      (let k = 5 * ((unat n + 4) div 5) in if k < 2147483648 then int k else int k - 4294967296)"
    if n: "n \<noteq> 0" for n
    using run [OF n] operations_counted [of demo_timer "\<lambda>w. w" n 0] n by fastforce
  from this [of 12] this [of 3000000000] show ?thesis by simp
qed

end
