(* ===== verification/Spec2Isabelle.thy ===== *)
theory Spec2Isabelle
  imports Uthreads_Window Blockchain_Race Blockchain_Spec Blockchain_Close Caching_Props Ftp_Props Ftp_Isolation Osm
begin

text \<open>
  A model of the exercises of an operating systems course, and what makes them correct.

  \<^bold>\<open>The programs.\<close> The repository holds five independent programs in C++: a timing library (ex1), a
  library of user-level threads with a priority scheduler (ex2), a multi-threaded blockchain
  database (ex3), a caching file system on top of FUSE (ex4) and a file transfer server with its
  client (ex5). Nothing is shared between them in the code; what their models share is in \<open>Prelude\<close>
  (the type of results, runs of an event system, the search for the smallest free number),
  \<open>Ordered_Map\<close> (\<open>std::map\<close>) and \<open>C_Lib\<close> (integer types, C strings in buffers, \<open>atoi\<close>).

  \<^bold>\<open>Conventions.\<close> A call returns \<open>Ok value state\<close>, \<open>Exits code state\<close> for a call of \<open>exit\<close>, or
  \<open>Faults f\<close> for undefined behaviour or an exception that nobody catches. An outer \<open>None\<close> is a call
  that does not return or a thread that cannot move. What the code calls outside the repository
  is a record of functions (\<open>sys\<close>, \<open>hashlib\<close>, \<open>posix\<close>, \<open>net\<close>, \<open>timer\<close>) that the operations take as an
  argument; in ex1, ex4 and ex5 these functions pass on the state of the world outside. Hypotheses
  on them have names (\<open>timer_works\<close>, \<open>shuffles\<close>, \<open>foreign_end\<close>, \<open>log_closed\<close>, \<open>serves\<close>, \<open>logging_works\<close>,
  \<open>rename_errno\<close>, \<open>dir_stream\<close>, \<open>accepts\<close>, \<open>answered\<close>, \<open>delivers\<close>, \<open>sockets\<close>,
  \<open>refuses_errors\<close>). A C \<open>int\<close> that only counts is an integer; where a conversion or wrap-around
  matters it is written out (\<open>as_int\<close>, \<open>as_size\<close>) or the type is a word (ex1).

  \<^bold>\<open>ex2, user-level threads.\<close> \<open>Thread\<close> models \<open>Thread.cpp\<close>: the thread object, its constructor and
  the jump buffer, that is, the place where \<open>siglongjmp\<close> continues and the mask it restores.
  \<open>Uthreads\<close> models \<open>uthreads.cpp\<close>: the state is the record \<open>ustate\<close>, each static function
  is a definition of the same name, and \<open>uexec\<close> is one call of the interface or one timer signal.
  \<open>loadBuf\<close> is a partial function, since a switch to a suspended thread goes on in
  \<open>uthread_suspend\<close> and may switch again; that it ends is C3. \<open>Uthreads_Inv\<close> states the invariant
  \<open>uinv\<close>, \<open>Uthreads_Safe\<close> and \<open>Uthreads_Ops\<close> show that every operation keeps it, \<open>Uthreads_Sched\<close>
  what a tick does and which threads can run again. \<open>Uthreads_Spec\<close> has the specification: a
  scheduler over thread ids with one queue in order of priority (\<open>sched_step\<close>), the abstraction
  \<open>sched_of\<close>, and that every event of the library is a step of it. In all of these a call is one
  step. The code tests arguments before it blocks the signal, so \<open>Uthreads_Window\<close> splits a call
  there and lets the timer fire in between; each thread remembers the call it is in (\<open>pending\<close>).
  The properties are C1 to C13: C5, C6 and C9 are about the windows, the others are in \<open>Uthreads_Props\<close>.

  \<^bold>\<open>ex3, blockchain.\<close> \<open>Block\<close> models \<open>Block.cpp\<close>, \<open>Blockchain\<close> models \<open>blockchain.cpp\<close>: a step is a
  call of the interface, a third of a round of the daemon, or the closing thread; blocks are
  cells of a heap that \<open>delete\<close> empties. The loop of \<open>prune_chain\<close> that walks to the genesis block
  is a partial function (it ends: C23), the loop of the closing thread a function with a measure.
  The end iterators that \<open>prune_chain\<close> dereferences are modelled as the memory they point at:
  \<open>past_vec\<close> and \<open>past_map\<close>. \<open>Blockchain_Inv\<close> has the invariant \<open>cinv\<close>, \<open>Blockchain_Ops\<close>,
  \<open>Blockchain_Calls\<close> and \<open>Blockchain_Prune\<close> show every operation in closed form and that it keeps
  the invariant, \<open>Blockchain_Session\<close> what holds between opening and the first pruning or closing,
  \<open>Blockchain_Live\<close> that the daemon empties the queue in \<open>work\<close> steps, at most three for each block
  and one more. \<open>Blockchain_Props\<close> has the properties. There a call of \<open>add_block\<close> is one
  step; \<open>Blockchain_Race\<close> takes it as three, so that calls of several threads overlap (C19).
  \<open>Blockchain_Spec\<close> has the specification of a session: a ledger over block numbers (\<open>ledger_step\<close>),
  the abstraction \<open>ledger_of\<close>, and that every event is a step of it (C14, C18), that attached
  blocks stay as they are (C15), and that nothing faults and waiting calls are served (C20).
  \<open>attach_now\<close> spins until its block is in the map: the call is a step that answers \<open>Waits n\<close>, and one
  test of the loop is the event \<open>AttachPoll n\<close>. That the loop ends is a claim about later steps of
  the daemon, and it is false for one number: \<open>isInDaemon\<close>, which is -1 at first and is never reset,
  is taken for a block that is being hashed. C14, C20 and C27 leave out this number, and
  \<open>reserved_number\<close> shows what happens with it. \<open>Blockchain_Close\<close> is about the threads of a chain that is closed and
  opened again: safe when the daemon has ended in time (C27), and what happens when it has not.
  The properties are C14 to C28.

  \<^bold>\<open>ex4, caching file system.\<close> All of it is \<open>CachingFileSystem.cpp\<close>. \<open>Cache_Block\<close> has the classes
  \<open>CacheBlock\<close> and \<open>CacheDir\<close>, with the sizes of their buffers; \<open>Caching_FS\<close> the state \<open>cfs\<close>, the static
  functions, the handlers, the table of operations (\<open>init_caching_oper\<close>) and \<open>main\<close>; \<open>fs_exec\<close> is
  one call by FUSE. The loops over the cache and the loop of \<open>caching_read\<close> are functions with a
  measure, the loop over a directory is a partial function (it ends when the stream does: C35). \<open>Caching_Inv\<close> has the invariant and the searches in
  closed form, \<open>Caching_Ops\<close> shows that every handler keeps it, \<open>Caching_Read\<close> what a read at a
  multiple of the block size returns from a cache whose blocks are slices of the files, and that
  programs which read whole files do not notice the cache. \<open>Caching_Props\<close> has the properties C29
  to C35, runs that show wrong reads, and the overflow of a block's name buffer.

  \<^bold>\<open>ex5, file transfer.\<close> \<open>Ftp_Common\<close> has what both programs define, \<open>Ftp_Client\<close> models \<open>clftp.cpp\<close>,
  \<open>Ftp_Server\<close> models \<open>srftp.cpp\<close>: after \<open>main_server\<close> a step (\<open>server_exec\<close>) is a round of the accept
  loop or a thread that starts and serves its client. The loop over received data is a partial
  function. \<open>accept_round\<close> is composed of \<open>accept_client\<close>, which assigns \<open>clientFd\<close>, and \<open>enter_client\<close>,
  which enters the client into the map. \<open>Ftp_Upload\<close> shows what a server does with messages that are delivered one by one,
  \<open>Ftp_Props\<close> has properties of it; C36 puts client and server together. In \<open>Ftp_Threads\<close> the
  threads take turns (\<open>mt_exec\<close>): a step of a thread goes from one \<open>recv\<close> to the next, and the main
  thread may be interrupted between the two parts of a round (\<open>Accept\<close>, \<open>Enter\<close>). Every run of
  \<open>server_exec\<close> is one of \<open>mt_exec\<close> (\<open>serial_runs\<close>). \<open>Ftp_Isolation\<close> shows that uploads at the same
  time do not disturb each other as long as they go to different files (C37), and that a thread
  takes its steps until it ends, unless it is \<open>late\<close>: it receives on a descriptor that \<open>accept\<close> has returned
  and the main thread has not entered yet (C38). The properties are C36 to C39.

  \<^bold>\<open>ex1, timing library.\<close> \<open>Osm\<close> models \<open>osm.cpp\<close> and has property C40: how many operations
  are measured, and what the \<open>int\<close> in the report says of them.

  \<^bold>\<open>Contracts.\<close> \<open>event_invar\<close>, \<open>event_system\<close> and \<open>event_service\<close> are what a program driven
  by events promises; they are interpreted as \<open>uth\<close> and \<open>windows\<close> (ex2), \<open>chain_events\<close> and
  \<open>session\<close> (ex3), \<open>cache\<close> and \<open>cached_files\<close> (ex4), \<open>svt\<close> (ex5); so is \<open>closed\<close>, a chain that is not open (ex3). \<open>event_guarded\<close> is the contract of a
  predicate that is kept as long as the others do not interfere, interpreted as \<open>upload\<close> (ex5).
  \<open>event_refinement\<close> is the contract of an abstraction, interpreted as \<open>usched\<close> (ex2) and \<open>ledgers\<close>
  (ex3).
  \<open>event_embedding\<close> is the contract of a small system in a larger one, interpreted as \<open>behind\<close>: a
  chain with one daemon in a chain with others that have ended (ex3).
  \<open>id_allocator\<close> is the contract of the smallest free number, interpreted as \<open>tids\<close>
  (\<open>getNextId\<close>) and \<open>nums\<close> (\<open>findMinIdx\<close>). \<open>std_map\<close> is the contract of the ordered map,
  interpreted as \<open>om\<close>.

  \<^bold>\<open>Not modelled.\<close> A signal or another thread in the middle of a library call, other than at the
  points named above: in ex2 a signal in the middle of one of the tests; in ex3 two threads in the
  vector of the queue or in the map at once, which C++ leaves undefined; in ex5 two threads in the
  map of clients at once, and what a stream keeps in its buffer before it writes. Paths of files
  are compared as strings. \<open>saveBuf\<close> of ex2 returns before its buffer is used, which C leaves
  undefined: the model lets \<open>siglongjmp\<close> continue at that return. In ex3 the hash library, which
  is a parameter, and \<open>compLength\<close>, which nothing calls. In ex4 FUSE itself, which calls the handlers one at a time (option \<open>-s\<close>) and
  answers by itself for a member of the table of operations that is null. In ex1 the rounding of
  \<open>double\<close>. Memory that runs out, except where the code tests for it.
\<close>

end
